(* ===== verification/Espix_Base.thy ===== *)
theory Espix_Base
  imports Main "HOL-Library.Word" "HOL-Library.Sublist"
begin

text \<open>
  The prelude of the development: the names the components share for the machine's types and
  error codes, the C string routines the sources call (\<^verbatim>\<open>strlcpy\<close>, \<^verbatim>\<open>strncmp\<close>,
  \<^verbatim>\<open>strchr\<close>, \<^verbatim>\<open>strrchr\<close>, \<^verbatim>\<open>snprintf\<close>'s truncation test),
  the first-match scan every fixed-size table of the kernel uses, and the generic lemmas on them.

  A C string is the list of its bytes before the terminating NUL (type \<open>string\<close>), so
  \<^verbatim>\<open>s[i]\<close> for \<open>i \<le> strlen s\<close> is \<open>cchar s i\<close>: the byte, or NUL at the end.
  Where the code works inside one buffer and the claim depends on it, the buffer itself is a list
  with the NUL in it.
\<close>

unbundle bit_operations_syntax

named_theorems slot_simps \<open>facts on the first-match scan of a fixed-size table\<close>
named_theorems cstr_simps \<open>facts on C strings read as lists without the terminator\<close>

type_synonym u8 = "8 word"
type_synonym u16 = "16 word"
type_synonym u32 = "32 word"
type_synonym u64 = "64 word"

abbreviation ESPIX_PATH_MAX :: nat where "ESPIX_PATH_MAX \<equiv> 128"

text \<open>\<^verbatim>\<open>ESPIX_MODE_BITS\<close>, 07777, at whatever width a mode has.\<close>

abbreviation ESPIX_MODE_BITS :: "'a::len word" where "ESPIX_MODE_BITS \<equiv> 0xFFF"

text \<open>The \<^verbatim>\<open>esp_err_t\<close> values the modelled code returns, and the \<^verbatim>\<open>errno\<close>
  values it sets. Both are plain enumerations: the code only compares them.\<close>

datatype esp_err =
    ESP_OK | ESP_FAIL | ESP_ERR_NO_MEM | ESP_ERR_INVALID_ARG | ESP_ERR_INVALID_STATE
  | ESP_ERR_INVALID_SIZE | ESP_ERR_NOT_FOUND | ESP_ERR_NOT_SUPPORTED | ESP_ERR_NOT_ALLOWED

datatype errno =
    EPERM | ENOENT | EINTR | EIO | EBADF | EAGAIN | ENOMEM | EACCES | EBUSY | EXDEV | ENOTDIR
  | EISDIR | EINVAL | ENFILE | EMFILE | ENOTTY | EROFS | ENOSYS | ENAMETOOLONG | EOPNOTSUPP
  | EEXIST

section \<open>C strings\<close>

definition NUL :: char where
  "NUL = CHR 0x00"

definition cchar :: "string \<Rightarrow> nat \<Rightarrow> char" where
  "cchar s i = (if i < length s then s ! i else NUL)"

text \<open>What \<^verbatim>\<open>strlcpy\<close> leaves in a buffer of \<open>n\<close> bytes (\<open>n > 0\<close>).\<close>

definition strlcpy :: "nat \<Rightarrow> string \<Rightarrow> string" where
  "strlcpy n s = take (n - 1) s"

text \<open>\<^verbatim>\<open>strncmp(a, b, strlen(b)) == 0\<close>.\<close>

definition starts_with :: "string \<Rightarrow> string \<Rightarrow> bool" where
  "starts_with a b \<longleftrightarrow> take (length b) a = b"

text \<open>The index \<^verbatim>\<open>strrchr\<close> finds.\<close>

fun strrchr :: "string \<Rightarrow> char \<Rightarrow> nat option" where
  "strrchr [] c = None"
| "strrchr (x # xs) c =
     (case strrchr xs c of Some i \<Rightarrow> Some (Suc i) | None \<Rightarrow> if x = c then Some 0 else None)"

definition is_cstr :: "string \<Rightarrow> bool" where
  "is_cstr s \<longleftrightarrow> NUL \<notin> set s"

lemma cchar_in [cstr_simps]: "i < length s \<Longrightarrow> cchar s i = s ! i"
  by (simp add: cchar_def)

lemma cchar_end [cstr_simps, simp]: "cchar s (length s) = NUL"
  by (simp add: cchar_def)

lemma cchar_Nil [simp]: "cchar [] i = NUL"
  by (simp add: cchar_def)

lemma cchar_Cons_0 [simp]: "cchar (c # s) 0 = c"
  by (simp add: cchar_def)

lemma cchar_NUL_iff [cstr_simps]: "is_cstr s \<Longrightarrow> cchar s i = NUL \<longleftrightarrow> length s \<le> i"
  unfolding cchar_def is_cstr_def by (metis nth_mem not_le)

lemma starts_with_iff_prefix [cstr_simps]: "starts_with a b \<longleftrightarrow> prefix b a"
  unfolding starts_with_def prefix_def by (metis append_eq_conv_conj append_take_drop_id)

lemma length_strlcpy: "0 < n \<Longrightarrow> length (strlcpy n s) < n"
  by (auto simp: strlcpy_def)

lemma strlcpy_fits [simp]: "length s < n \<Longrightarrow> strlcpy n s = s"
  by (simp add: strlcpy_def)

lemma strrchr_None [cstr_simps]: "strrchr s c = None \<longleftrightarrow> c \<notin> set s"
  by (induction s) (auto split: option.splits)

lemma strrchr_Some:
  "strrchr s c = Some i \<Longrightarrow> i < length s \<and> s ! i = c \<and> c \<notin> set (drop (Suc i) s)"
proof (induction s arbitrary: i)
  case (Cons x xs)
  then show ?case
    by (cases "strrchr xs c") (auto simp: strrchr_None split: if_splits)
qed simp

lemma strrchr_append: "c \<notin> set t \<Longrightarrow> strrchr (s @ c # t) c = Some (length s)"
proof (induction s)
  case Nil
  then have "strrchr t c = None" by (simp add: strrchr_None)
  then show ?case by simp
qed simp

section \<open>The first-match scan of a fixed-size table\<close>

text \<open>
  \<^verbatim>\<open>for (i = 0; i < N; i++) if (P(t[i])) { slot = i; break; }\<close>: every table of the kernel
  (descriptors, mounts, terminals, variables, units) is searched and allocated this way.
\<close>

fun find_slot :: "('a \<Rightarrow> bool) \<Rightarrow> 'a list \<Rightarrow> nat option" where
  "find_slot P [] = None"
| "find_slot P (x # xs) = (if P x then Some 0 else map_option Suc (find_slot P xs))"

lemma find_slot_None [slot_simps]: "find_slot P xs = None \<longleftrightarrow> (\<forall>x \<in> set xs. \<not> P x)"
  by (induction xs) auto

lemma find_slot_Some:
  "find_slot P xs = Some i \<Longrightarrow> i < length xs \<and> P (xs ! i) \<and> (\<forall>j < i. \<not> P (xs ! j))"
proof (induction xs arbitrary: i)
  case (Cons x xs)
  then show ?case
    by (cases i) (auto split: if_splits simp: less_Suc_eq_0_disj)
qed simp

lemma find_slot_Some_iff:
  "find_slot P xs = Some i \<longleftrightarrow> i < length xs \<and> P (xs ! i) \<and> (\<forall>j < i. \<not> P (xs ! j))"
proof (induction xs arbitrary: i)
  case (Cons x xs)
  show ?case
  proof (cases i)
    case (Suc k)
    have "(\<forall>j < Suc k. \<not> P ((x # xs) ! j)) \<longleftrightarrow> \<not> P x \<and> (\<forall>j < k. \<not> P (xs ! j))"
      by (auto simp: less_Suc_eq_0_disj)
    with Suc Cons show ?thesis by auto
  qed auto
qed simp

lemma find_slot_in_range: "find_slot P xs = Some i \<Longrightarrow> i < length xs"
  by (simp add: find_slot_Some_iff)

lemma find_slot_sat: "find_slot P xs = Some i \<Longrightarrow> P (xs ! i)"
  by (simp add: find_slot_Some_iff)

lemma find_slot_ex: "i < length xs \<Longrightarrow> P (xs ! i) \<Longrightarrow> \<exists>k \<le> i. find_slot P xs = Some k"
proof (cases "find_slot P xs")
  case None
  then show "i < length xs \<Longrightarrow> P (xs ! i) \<Longrightarrow> ?thesis" by (auto simp: find_slot_None)
next
  case (Some k)
  then show "i < length xs \<Longrightarrow> P (xs ! i) \<Longrightarrow> ?thesis"
    by (metis find_slot_Some not_le_imp_less)
qed

lemma find_slot_cong:
  "length xs = length ys \<Longrightarrow> (\<And>i. i < length xs \<Longrightarrow> P (xs ! i) = Q (ys ! i)) \<Longrightarrow>
   find_slot P xs = find_slot Q ys"
proof (induction xs ys rule: list_induct2)
  case (Cons x xs y ys)
  from Cons.prems[of 0] have "P x = Q y" by simp
  moreover have "find_slot P xs = find_slot Q ys"
    using Cons.prems by (intro Cons.IH) (metis Suc_less_eq length_Cons nth_Cons_Suc)
  ultimately show ?case by simp
qed simp

text \<open>The same scan from index \<open>n\<close> on.\<close>

definition find_from :: "nat \<Rightarrow> ('a \<Rightarrow> bool) \<Rightarrow> 'a list \<Rightarrow> nat option" where
  "find_from n P xs = map_option (\<lambda>i. i + n) (find_slot P (drop n xs))"

lemma find_from_Some:
  assumes "find_from n P xs = Some i"
  shows "n \<le> i" "i < length xs" "P (xs ! i)" "n \<le> j \<Longrightarrow> j < i \<Longrightarrow> \<not> P (xs ! j)"
proof -
  obtain k where k: "find_slot P (drop n xs) = Some k" "i = k + n"
    using assms by (auto simp: find_from_def)
  note f = find_slot_Some[OF k(1)]
  show "n \<le> i" "i < length xs" "P (xs ! i)" using f k(2) by (auto simp: add.commute)
  show "n \<le> j \<Longrightarrow> j < i \<Longrightarrow> \<not> P (xs ! j)"
    using f k(2) by (auto dest!: spec[of _ "j - n"])
qed

lemma find_from_None [slot_simps]:
  "find_from n P xs = None \<longleftrightarrow> (\<forall>i. n \<le> i \<longrightarrow> i < length xs \<longrightarrow> \<not> P (xs ! i))"
proof -
  have "(\<forall>x \<in> set (drop n xs). \<not> P x) \<longleftrightarrow> (\<forall>k < length xs - n. \<not> P (xs ! (n + k)))"
    by (simp add: all_set_conv_all_nth)
  also have "\<dots> \<longleftrightarrow> (\<forall>i. n \<le> i \<longrightarrow> i < length xs \<longrightarrow> \<not> P (xs ! i))"
    by (metis add_diff_inverse_nat diff_less_mono le_add1 less_diff_conv add.commute not_less)
  finally show ?thesis by (simp add: find_from_def find_slot_None)
qed

section \<open>The contract of a handle table\<close>

text \<open>
  What the kernel expects of a fixed-size table of handles: \<open>alloc\<close> hands out a key that was free
  and makes it name the new entry, \<open>release\<close> frees one key, and neither touches any other key.
  The clients' consequences are proved once from these laws; the descriptor table of
  \<^verbatim>\<open>vfs.c\<close> and the slot table of \<^verbatim>\<open>synth.c\<close> are its instances.
\<close>

locale handle_table =
  fixes alloc :: "'t \<Rightarrow> 'v \<Rightarrow> ('t \<times> nat) option"
    and release :: "'t \<Rightarrow> nat \<Rightarrow> 't"
    and look :: "'t \<Rightarrow> nat \<Rightarrow> 'v option"
    and inv :: "'t \<Rightarrow> bool"
    and valid :: "'v \<Rightarrow> bool"
  assumes alloc_free: "inv t \<Longrightarrow> alloc t v = Some (t', k) \<Longrightarrow> look t k = None"
    and alloc_look: "inv t \<Longrightarrow> valid v \<Longrightarrow> alloc t v = Some (t', k) \<Longrightarrow>
        look t' j = (if j = k then Some v else look t j)"
    and release_look: "inv t \<Longrightarrow> look (release t k) j = (if j = k then None else look t j)"
    and alloc_inv: "inv t \<Longrightarrow> valid v \<Longrightarrow> alloc t v = Some (t', k) \<Longrightarrow> inv t'"
    and release_inv: "inv t \<Longrightarrow> inv (release t k)"
begin

lemma alloc_distinct:
  assumes "inv t" "valid v" "valid w"
    and a: "alloc t v = Some (t1, k)" and b: "alloc t1 w = Some (t2, j)"
  shows "k \<noteq> j \<and> look t2 k = Some v \<and> look t2 j = Some w"
proof -
  have i1: "inv t1" using assms alloc_inv by blast
  have lk: "look t1 k = Some v" using alloc_look[OF assms(1,2) a] by simp
  have lj: "look t1 j = None" using alloc_free[OF i1 b] .
  from lk lj have "k \<noteq> j" by auto
  with alloc_look[OF i1 assms(3) b] lk show ?thesis by simp
qed

lemma alloc_keeps:
  "inv t \<Longrightarrow> valid v \<Longrightarrow> alloc t v = Some (t', k) \<Longrightarrow> look t j = Some w \<Longrightarrow> look t' j = Some w"
  using alloc_look alloc_free by fastforce

lemma alloc_release:
  assumes "inv t" "valid v" "alloc t v = Some (t', k)"
  shows "look (release t' k) j = look t j"
  using assms alloc_look alloc_free alloc_inv release_look by auto

lemma release_other:
  "inv t \<Longrightarrow> j \<noteq> k \<Longrightarrow> look (release t k) j = look t j"
  by (simp add: release_look)

end

section \<open>The contract of a byte queue\<close>

text \<open>
  What a reader and a writer expect of the bytes between them: a put that succeeds appends, one that
  does not fit is refused whole, and a get removes from the front. Then nothing is lost, repeated or
  reordered over any interleaving of the two. A run is a list of puts (\<open>Inl\<close>, refused ones skipped) and gets (\<open>Inr\<close>): what was accepted, what came out,
  and the queue at the end.
\<close>

fun fifo_run ::
    "('s \<Rightarrow> 'a list \<Rightarrow> 's option) \<Rightarrow> ('s \<Rightarrow> nat \<Rightarrow> 'a list \<times> 's) \<Rightarrow> 's \<Rightarrow> ('a list + nat) list
       \<Rightarrow> 'a list \<times> 'a list \<times> 's" where
  "fifo_run put get s [] = ([], [], s)"
| "fifo_run put get s (Inl xs # ops) =
     (case put s xs of
        None \<Rightarrow> fifo_run put get s ops
      | Some s' \<Rightarrow> (let (i, out, t) = fifo_run put get s' ops in (xs @ i, out, t)))"
| "fifo_run put get s (Inr n # ops) =
     (let (ys, s') = get s n; (i, out, t) = fifo_run put get s' ops in (i, ys @ out, t))"

locale byte_fifo =
  fixes put :: "'s \<Rightarrow> 'a list \<Rightarrow> 's option"
    and get :: "'s \<Rightarrow> nat \<Rightarrow> 'a list \<times> 's"
    and contents :: "'s \<Rightarrow> 'a list"
    and size :: "'s \<Rightarrow> nat"
    and inv :: "'s \<Rightarrow> bool"
  assumes put_contents: "inv s \<Longrightarrow> put s xs = Some s' \<Longrightarrow> contents s' = contents s @ xs"
    and put_refused: "inv s \<Longrightarrow> put s xs = None \<longleftrightarrow> size s < length (contents s) + length xs"
    and put_inv: "inv s \<Longrightarrow> put s xs = Some s' \<Longrightarrow> inv s' \<and> size s' = size s"
    and get_contents: "inv s \<Longrightarrow> get s n = (ys, s') \<Longrightarrow> ys @ contents s' = contents s \<and> length ys = min n (length (contents s))"
    and get_inv: "inv s \<Longrightarrow> get s n = (ys, s') \<Longrightarrow> inv s' \<and> size s' = size s"
begin

lemma run_fifo:
  assumes "inv s" "fifo_run put get s ops = (i, out, t)"
  shows "contents s @ i = out @ contents t \<and> inv t"
  using assms
proof (induction ops arbitrary: s i out)
  case (Cons op ops)
  show ?case
  proof (cases op)
    case (Inl xs)
    show ?thesis
    proof (cases "put s xs")
      case None
      with Cons Inl show ?thesis by simp
    next
      case (Some s')
      obtain i' out' t' where r: "fifo_run put get s' ops = (i', out', t')" by (cases "fifo_run put get s' ops")
      have tt: "t' = t" "i = xs @ i'" "out = out'" using Cons.prems(2) Inl Some r by auto
      have "contents s' @ i' = out' @ contents t \<and> inv t"
        using Cons.IH[of s' i' out'] put_inv[OF Cons.prems(1) Some] r tt by simp
      with put_contents[OF Cons.prems(1) Some] tt show ?thesis by simp
    qed
  next
    case (Inr n)
    obtain ys s' where g: "get s n = (ys, s')" by (cases "get s n")
    obtain i' out' t' where r: "fifo_run put get s' ops = (i', out', t')" by (cases "fifo_run put get s' ops")
    have tt: "t' = t" "i = i'" "out = ys @ out'" using Cons.prems(2) Inr g r by auto
    have "contents s' @ i' = out' @ contents t \<and> inv t"
      using Cons.IH[of s' i' out'] get_inv[OF Cons.prems(1) g] r tt by simp
    moreover have "contents s = ys @ contents s'" using get_contents[OF Cons.prems(1) g] by simp
    ultimately show ?thesis using tt by simp
  qed
qed simp

end

section \<open>Lists\<close>

lemma takeWhile_not_in: "c \<notin> set xs \<Longrightarrow> takeWhile (\<lambda>x. x \<noteq> c) (xs @ c # ys) = xs"
  by (subst takeWhile_append2) auto

lemma dropWhile_not_in: "c \<notin> set xs \<Longrightarrow> dropWhile (\<lambda>x. x \<noteq> c) (xs @ c # ys) = c # ys"
  by (metis (mono_tags, lifting) dropWhile.simps(2) dropWhile_append2)

lemma list_update_others:
  "j \<noteq> i \<Longrightarrow> xs[i := x] ! j = xs ! j"
  by simp

lemma prefix_append_cases:
  "prefix p (xs @ ys) \<Longrightarrow> prefix p xs \<or> (\<exists>q. p = xs @ q \<and> prefix q ys)"
  by (auto simp: prefix_append)

end
