(* ===== verification/Fs_Path.thy ===== *)
theory Fs_Path
  imports Espix_Base
begin

text \<open>
  \<^verbatim>\<open>components/espix_fs/fs.c\<close>, the part every path of the system goes through:
  \<^verbatim>\<open>normalise()\<close>, \<^verbatim>\<open>espix_fs_resolve()\<close> and \<^verbatim>\<open>espix_fs_within()\<close>.

  \<^verbatim>\<open>normalise()\<close> rewrites a path inside its own buffer with a read and a write cursor, and
  is modelled that way (a list with the NUL in it, two indices, \<^verbatim>\<open>memmove\<close> on the list).
  \<open>segments\<close>, \<open>push_seg\<close> and \<open>render\<close> are the reference: a path is its list of
  components, \<open>.\<close> is dropped and \<open>..\<close> pops.
\<close>

section \<open>The code\<close>

definition memmove :: "string \<Rightarrow> nat \<Rightarrow> nat \<Rightarrow> nat \<Rightarrow> string" where
  "memmove buf dst src n =
     map (\<lambda>k. if dst \<le> k \<and> k < dst + n then buf ! (src + (k - dst)) else buf ! k) [0..<length buf]"

definition cstr_of :: "string \<Rightarrow> string" where
  "cstr_of buf = takeWhile (\<lambda>c. c \<noteq> NUL) buf"

text \<open>Where the segment that starts at \<open>i\<close> ends: the next separator or the terminator.\<close>

definition seg_end :: "string \<Rightarrow> nat \<Rightarrow> nat" where
  "seg_end buf i = i + length (takeWhile (\<lambda>c. c \<noteq> NUL \<and> c \<noteq> CHR ''/'') (drop i buf))"

text \<open>\<^verbatim>\<open>while (out > buf + 1 && out[-1] != '/') out--;\<close>\<close>

fun pop_cursor :: "string \<Rightarrow> nat \<Rightarrow> nat" where
  "pop_cursor buf (Suc (Suc n)) =
     (if buf ! Suc n \<noteq> CHR ''/'' then pop_cursor buf (Suc n) else Suc (Suc n))"
| "pop_cursor buf n = n"

lemma length_memmove [simp]: "length (memmove buf dst src n) = length buf"
  by (simp add: memmove_def)

lemma seg_end_gt:
  "i < length buf \<Longrightarrow> buf ! i \<noteq> NUL \<Longrightarrow> buf ! i \<noteq> CHR ''/'' \<Longrightarrow> i < seg_end buf i"
  by (simp add: seg_end_def flip: Cons_nth_drop_Suc)

function normalise_loop :: "string \<Rightarrow> nat \<Rightarrow> nat \<Rightarrow> string \<times> nat" where
  "normalise_loop buf out i =
     (if i < length buf \<and> buf ! i \<noteq> NUL then
        if buf ! i = CHR ''/'' then normalise_loop buf out (Suc i)
        else
          (let e = seg_end buf i; n = e - i in
           if n = 1 \<and> buf ! i = CHR ''.'' then normalise_loop buf out e
           else if n = 2 \<and> buf ! i = CHR ''.'' \<and> buf ! Suc i = CHR ''.'' then
             (let p = pop_cursor buf out; p' = (if 1 < p then p - 1 else p) in
              normalise_loop buf p' e)
           else
             (let buf1 = (if 1 < out then buf[out := CHR ''/''] else buf);
                  out1 = (if 1 < out then Suc out else out) in
              normalise_loop (memmove buf1 out1 i n) (out1 + n) e))
      else (buf, out))"
  by pat_completeness auto
termination
proof (relation "measure (\<lambda>(buf, out, i). length buf - i)", goal_cases)
  case (3 buf out i e n)
  with seg_end_gt[of i buf] show ?case by (simp add: diff_less_mono2)
next
  case (4 buf out i e n p p')
  with seg_end_gt[of i buf] show ?case by (simp add: diff_less_mono2)
next
  case (5 buf out i e n buf1 out1)
  then have "length buf1 = length buf" by simp
  with 5 seg_end_gt[of i buf] show ?case by (simp add: diff_less_mono2)
qed auto

declare normalise_loop.simps [simp del]

definition normalise :: "string \<Rightarrow> string" where
  "normalise buf = (let (b, out) = normalise_loop buf 1 1 in b[out := NUL])"

text \<open>
  \<open>out\<close> is the caller's buffer with what it held before (\<open>None\<close> for a null pointer);
  \<^verbatim>\<open>snprintf\<close> overwrites its start. The result is the buffer afterwards.
\<close>

definition espix_fs_resolve ::
  "string option \<Rightarrow> string option \<Rightarrow> string option \<Rightarrow> esp_err + string" where
  "espix_fs_resolve cwd path out =
     (case out of
        None \<Rightarrow> Inl ESP_ERR_INVALID_ARG
      | Some old \<Rightarrow>
        if length old < 2 then Inl ESP_ERR_INVALID_ARG
        else
          (let cwd' = (case cwd of None \<Rightarrow> ''/'' | Some c \<Rightarrow> if c = [] then ''/'' else c);
               text = (case path of
                         None \<Rightarrow> cwd'
                       | Some p \<Rightarrow>
                           if p = [] then cwd'
                           else if hd p = CHR ''/'' then p
                           else if cwd' = ''/'' then CHR ''/'' # p
                           else cwd' @ CHR ''/'' # p)
           in if length old \<le> length text then Inl ESP_ERR_INVALID_SIZE
              else Inr (normalise (text @ NUL # drop (Suc (length text)) old))))"

definition espix_fs_within :: "string option \<Rightarrow> string option \<Rightarrow> bool" where
  "espix_fs_within abs_path dir =
     (case (abs_path, dir) of
        (Some a, Some d) \<Rightarrow>
          if d = [] then False
          else if d = ''/'' then True
          else if \<not> starts_with a d then False
          else cchar a (length d) = NUL \<or> cchar a (length d) = CHR ''/''
      | _ \<Rightarrow> False)"

section \<open>The reference: a path is its components\<close>

function segments :: "string \<Rightarrow> string list" where
  "segments [] = []"
| "segments (c # cs) =
     (if c = CHR ''/'' then segments cs
      else (c # takeWhile (\<lambda>x. x \<noteq> CHR ''/'') cs) # segments (dropWhile (\<lambda>x. x \<noteq> CHR ''/'') cs))"
  by pat_completeness auto
termination
  by (relation "measure length") (auto simp: le_imp_less_Suc length_dropWhile_le)

definition push_seg :: "string list \<Rightarrow> string \<Rightarrow> string list" where
  "push_seg st s = (if s = ''.'' then st else if s = ''..'' then butlast st else st @ [s])"

fun render :: "string list \<Rightarrow> string" where
  "render [] = []"
| "render [s] = s"
| "render (s # t # ss) = s @ CHR ''/'' # render (t # ss)"

definition canon :: "string \<Rightarrow> string list" where
  "canon p = foldl push_seg [] (segments p)"

definition good_seg :: "string \<Rightarrow> bool" where
  "good_seg s \<longleftrightarrow> s \<noteq> [] \<and> CHR ''/'' \<notin> set s \<and> NUL \<notin> set s"

lemma NUL_neq_slash [simp]: "NUL \<noteq> CHR ''/''" "CHR ''/'' \<noteq> NUL"
  by (simp_all add: NUL_def)

lemma NUL_neq_dot [simp]: "NUL \<noteq> CHR ''.''" "CHR ''.'' \<noteq> NUL"
  by (simp_all add: NUL_def)

lemma render_snoc: "render (st @ [s]) = (if st = [] then s else render st @ CHR ''/'' # s)"
  by (induction st rule: render.induct) auto

lemma render_eq_Nil: "\<forall>s \<in> set st. s \<noteq> [] \<Longrightarrow> render st = [] \<longleftrightarrow> st = []"
  by (cases st rule: render.cases) auto

lemma segments_good: "is_cstr p \<Longrightarrow> s \<in> set (segments p) \<Longrightarrow> good_seg s"
proof (induction p rule: segments.induct)
  case (2 c cs)
  have d: "is_cstr cs" "is_cstr (dropWhile (\<lambda>x. x \<noteq> CHR ''/'') cs)"
    using "2.prems"(1) by (auto simp: is_cstr_def dest: set_dropWhileD)
  have t: "NUL \<notin> set (c # takeWhile (\<lambda>x. x \<noteq> CHR ''/'') cs)"
    using "2.prems"(1) by (auto simp: is_cstr_def dest: set_takeWhileD)
  show ?case
  proof (cases "c = CHR ''/''")
    case True
    with "2.IH"(1) d "2.prems"(2) show ?thesis by simp
  next
    case False
    with "2.IH"(2) d t "2.prems"(2) show ?thesis
      by (auto simp: good_seg_def dest: set_takeWhileD)
  qed
qed simp

lemma push_seg_subset: "set (push_seg st s) \<subseteq> insert s (set st)"
  by (auto simp: push_seg_def dest: in_set_butlastD)

lemma foldl_push_subset: "set (foldl push_seg st ss) \<subseteq> set st \<union> set ss"
proof (induction ss arbitrary: st)
  case (Cons s ss)
  from Cons[of "push_seg st s"] push_seg_subset[of st s] show ?case by auto
qed simp

definition plain_seg :: "string \<Rightarrow> bool" where
  "plain_seg s \<longleftrightarrow> good_seg s \<and> s \<noteq> ''.'' \<and> s \<noteq> ''..''"

lemma push_seg_plain:
  assumes "\<forall>x \<in> set st. plain_seg x" "good_seg s"
  shows "\<forall>x \<in> set (push_seg st s). plain_seg x"
  using assms by (auto simp: push_seg_def plain_seg_def dest: in_set_butlastD)

lemma foldl_push_plain:
  "\<forall>x \<in> set st. plain_seg x \<Longrightarrow> \<forall>s \<in> set ss. good_seg s \<Longrightarrow>
   \<forall>x \<in> set (foldl push_seg st ss). plain_seg x"
proof (induction ss arbitrary: st)
  case (Cons s ss)
  then have "\<forall>x \<in> set (push_seg st s). plain_seg x" by (intro push_seg_plain) auto
  with Cons.IH Cons.prems(2) show ?case by simp
qed simp

lemma foldl_push_id: "\<forall>s \<in> set ss. plain_seg s \<Longrightarrow> foldl push_seg st ss = st @ ss"
  by (induction ss arbitrary: st) (auto simp: push_seg_def plain_seg_def)

lemma canon_plain: "is_cstr p \<Longrightarrow> x \<in> set (canon p) \<Longrightarrow> plain_seg x"
  unfolding canon_def using foldl_push_plain[of "[]" "segments p"] segments_good by auto

text \<open>Printing a list of components and reading it back.\<close>

lemma segments_seg_append:
  assumes "good_seg s"
  shows "segments (s @ CHR ''/'' # r) = s # segments r" "segments s = [s]"
proof -
  obtain c cs where s: "s = c # cs" using assms by (cases s) (auto simp: good_seg_def)
  have n: "c \<noteq> CHR ''/''" "CHR ''/'' \<notin> set cs" using assms s by (auto simp: good_seg_def)
  show "segments (s @ CHR ''/'' # r) = s # segments r"
    using s n by (simp add: takeWhile_not_in dropWhile_not_in)
  have t: "takeWhile (\<lambda>x. x \<noteq> CHR ''/'') cs = cs" and d: "dropWhile (\<lambda>x. x \<noteq> CHR ''/'') cs = []"
    using n by (auto simp: takeWhile_eq_all_conv)
  show "segments s = [s]" by (simp only: s n(1) segments.simps t d if_False)
qed

lemma segments_render: "\<forall>s \<in> set ss. good_seg s \<Longrightarrow> segments (render ss) = ss"
  by (induction ss rule: render.induct) (auto simp: segments_seg_append)

lemma segments_slash [simp]: "segments (CHR ''/'' # s) = segments s"
  by simp

lemma is_cstr_render: "\<forall>s \<in> set ss. good_seg s \<Longrightarrow> is_cstr (render ss)"
  by (induction ss rule: render.induct) (auto simp: is_cstr_def good_seg_def)

section \<open>The in-place loop computes the reference\<close>

lemma memmove_take:
  assumes "dst + n \<le> length buf" "src + n \<le> length buf"
  shows "take (dst + n) (memmove buf dst src n) = take dst buf @ take n (drop src buf)"
  using assms by (intro nth_equalityI) (auto simp: memmove_def nth_append)

lemma memmove_drop: "dst + n \<le> k \<Longrightarrow> drop k (memmove buf dst src n) = drop k buf"
  by (intro nth_equalityI) (auto simp: memmove_def)

lemma seg_end_eq:
  assumes "drop i buf = seg @ r @ NUL # junk" "NUL \<notin> set seg" "CHR ''/'' \<notin> set seg"
    and "r = [] \<or> hd r = CHR ''/''"
  shows "seg_end buf i = i + length seg"
proof -
  have "takeWhile (\<lambda>c. c \<noteq> NUL \<and> c \<noteq> CHR ''/'') (seg @ r @ NUL # junk) = seg"
    using assms(2-4) by (cases r) (auto simp: takeWhile_append2 takeWhile_tail)
  with assms(1) show ?thesis by (simp add: seg_end_def)
qed

lemma pop_cursor_seg:
  "1 \<le> j \<Longrightarrow> j + n \<le> length buf \<Longrightarrow> \<forall>k < n. buf ! (j + k) \<noteq> CHR ''/'' \<Longrightarrow>
   pop_cursor buf (j + n) = pop_cursor buf j"
proof (induction n)
  case (Suc n)
  then obtain m where "j = Suc m" by (cases j) auto
  with Suc show ?case by simp
qed simp

lemma pop_cursor_st:
  assumes tk: "take out buf = c0 # render st" and out: "out = Suc (length (render st))"
    and le: "out \<le> length buf" and good: "\<forall>s \<in> set st. good_seg s"
    and p: "p = pop_cursor buf out" and p': "p' = (if 1 < p then p - 1 else p)"
  shows "take p' buf = c0 # render (butlast st) \<and> p' = Suc (length (render (butlast st)))"
proof (cases st rule: rev_cases)
  case Nil
  with tk out p p' show ?thesis by simp
next
  case (snoc ss s)
  define j where "j = out - length s"
  have s: "CHR ''/'' \<notin> set s" using good snoc by (simp add: good_seg_def)
  have len: "length (render st) = (if ss = [] then 0 else Suc (length (render ss))) + length s"
    by (simp add: snoc render_snoc)
  have j1: "1 \<le> j" "out = j + length s" using out len by (auto simp: j_def)
  have jj: "j = (if ss = [] then 1 else Suc (Suc (length (render ss))))"
    using out len j1 by simp
  have tkj: "take out buf ! k = (c0 # render st) ! k" for k using tk by simp
  have nth: "buf ! (j + k) = s ! k" if "k < length s" for k
  proof -
    have "buf ! (j + k) = (c0 # render st) ! (j + k)"
      using tkj[of "j + k"] that j1 by simp
    also have "\<dots> = s ! k"
      using jj that by (auto simp: snoc render_snoc nth_append nth_Cons')
    finally show ?thesis .
  qed
  have "pop_cursor buf out = pop_cursor buf j"
    unfolding j1(2) using j1 le nth s by (intro pop_cursor_seg) (auto simp: in_set_conv_nth)
  also have "\<dots> = j"
  proof (cases "ss = []")
    case False
    then obtain m where m: "j = Suc (Suc m)" "m = length (render ss)" using jj by auto
    have "buf ! Suc m = (c0 # render st) ! Suc m" using tkj[of "Suc m"] m j1 by simp
    also have "\<dots> = CHR ''/''" using m False by (simp add: snoc render_snoc nth_append)
    finally show ?thesis using m by simp
  qed (use jj in simp)
  finally have pj: "p = j" using p by simp
  have pp: "p' = Suc (length (render ss))" using p' pj jj by auto
  have "take p' buf = take p' (take out buf)" using pp out len by (auto simp: min_def)
  also have "\<dots> = c0 # render ss" unfolding tk by (simp add: pp snoc render_snoc)
  finally show ?thesis using pp snoc by simp
qed

lemma push_cursor_st:
  assumes tk: "take out buf = c0 # render st" and out: "out = Suc (length (render st))"
    and good: "\<forall>s \<in> set st. good_seg s"
    and dr: "drop i buf = s @ r" and r: "r \<noteq> []"
    and pos: "out \<le> i" "out < i \<or> st = []"
    and b1: "buf1 = (if 1 < out then buf[out := CHR ''/''] else buf)"
    and o1: "out1 = (if 1 < out then Suc out else out)"
  shows "take (out1 + length s) (memmove buf1 out1 i (length s)) = c0 # render (st @ [s])"
    and "out1 + length s = Suc (length (render (st @ [s])))"
    and "drop (i + length s) (memmove buf1 out1 i (length s)) = r"
    and "out1 \<le> i"
proof -
  have ne: "1 < out \<longleftrightarrow> st \<noteq> []" using out good render_eq_Nil[of st] by (auto simp: good_seg_def)
  show oi: "out1 \<le> i" using pos o1 ne by auto
  have li: "i + length s < length buf" using arg_cong[OF dr, of length] r by (cases r) auto
  have d1: "drop i buf1 = s @ r" using dr b1 ne pos by auto
  have t1: "take out1 buf1 = c0 # render st @ (if st = [] then [] else ''/'')"
  proof (cases "st = []")
    case False
    then have "out < length buf" using li pos by simp
    then have "take (Suc out) (buf[out := CHR ''/'']) = take out buf @ ''/''"
      by (simp add: take_Suc_conv_app_nth)
    with False ne b1 o1 tk show ?thesis by simp
  qed (use ne b1 o1 tk out in simp)
  have l1: "length buf1 = length buf" using b1 by simp
  show "take (out1 + length s) (memmove buf1 out1 i (length s)) = c0 # render (st @ [s])"
    using oi li l1 d1 t1 by (subst memmove_take) (auto simp: render_snoc)
  show "out1 + length s = Suc (length (render (st @ [s])))"
    using ne o1 out by (auto simp: render_snoc)
  have "drop (i + length s) buf1 = r" using d1 by (metis add.commute append_eq_conv_conj drop_drop)
  then show "drop (i + length s) (memmove buf1 out1 i (length s)) = r"
    using oi by (subst memmove_drop) auto
qed

definition loop_result :: "char \<Rightarrow> string list \<Rightarrow> nat \<Rightarrow> string \<times> nat \<Rightarrow> bool" where
  "loop_result c0 st n r \<longleftrightarrow>
     take (snd r) (fst r) = c0 # render st \<and> snd r = Suc (length (render st)) \<and>
     snd r < length (fst r) \<and> length (fst r) = n"

text \<open>One turn of the loop on a whole segment, in terms of the segment.\<close>

lemma normalise_loop_seg:
  assumes dr: "drop i buf = seg @ r @ NUL # junk" and gs: "good_seg seg"
    and r0: "r = [] \<or> hd r = CHR ''/''"
  shows "normalise_loop buf out i =
    (let e = i + length seg in
     if seg = ''.'' then normalise_loop buf out e
     else if seg = ''..'' then
       (let p = pop_cursor buf out in normalise_loop buf (if 1 < p then p - 1 else p) e)
     else
       (let b1 = (if 1 < out then buf[out := CHR ''/''] else buf);
            o1 = (if 1 < out then Suc out else out) in
        normalise_loop (memmove b1 o1 i (length seg)) (o1 + length seg) e))"
proof -
  have il: "i < length buf" using arg_cong[OF dr, of length] by simp
  have nth: "k < length seg \<Longrightarrow> buf ! (i + k) = seg ! k" for k
    using dr il by (metis nth_append nth_drop less_or_eq_imp_le)
  have c: "buf ! i = hd seg" "hd seg \<noteq> NUL" "hd seg \<noteq> CHR ''/''"
    using nth[of 0] gs by (cases seg, auto simp: good_seg_def)+
  have e: "seg_end buf i = i + length seg"
    using gs by (intro seg_end_eq[OF dr _ _ r0]) (auto simp: good_seg_def)
  have s1: "seg = ''.'' \<longleftrightarrow> length seg = 1 \<and> buf ! i = CHR ''.''"
    using c by (cases seg) auto
  have s2: "seg = ''..'' \<longleftrightarrow> length seg = 2 \<and> buf ! i = CHR ''.'' \<and> buf ! Suc i = CHR ''.''"
    using c(1) nth[of 1] by (cases seg rule: remdups_adj.cases) auto
  show ?thesis
    unfolding s1 s2 using c il e by (subst normalise_loop.simps) (simp add: Let_def)
qed

lemma normalise_loop_step:
  assumes "take out buf = c0 # render st" "out = Suc (length (render st))"
    "\<forall>s \<in> set st. good_seg s" "drop i buf = seg @ r @ NUL # junk" "good_seg seg"
    "out \<le> i" "out < i \<or> st = []" "r = [] \<or> hd r = CHR ''/''"
  shows "\<exists>b p. normalise_loop buf out i = normalise_loop b p (i + length seg) \<and>
    take p b = c0 # render (push_seg st seg) \<and> p = Suc (length (render (push_seg st seg))) \<and>
    drop (i + length seg) b = r @ NUL # junk \<and> p \<le> i + length seg \<and> length b = length buf"
proof -
  note step = normalise_loop_seg[OF assms(4,5,8), of out]
  have de: "drop (i + length seg) buf = r @ NUL # junk"
    using assms(4) by (metis add.commute append_eq_conv_conj drop_drop)
  consider (dot) "seg = ''.''" | (dots) "seg = ''..''" | (plain) "seg \<noteq> ''.''" "seg \<noteq> ''..''" by blast
  then show ?thesis
  proof cases
    case dot
    with step de assms(1,2,6) show ?thesis by (auto simp: push_seg_def)
  next
    case dots
    define p where "p = pop_cursor buf out"
    define p' where "p' = (if 1 < p then p - 1 else p)"
    have il: "out \<le> length buf" using arg_cong[OF assms(4), of length] assms(6) by simp
    have t: "take p' buf = c0 # render (butlast st)" "p' = Suc (length (render (butlast st)))"
      using pop_cursor_st[OF assms(1,2) il assms(3) p_def p'_def] by blast+
    have "length (render (butlast st)) \<le> length (render st)"
      by (cases st rule: rev_cases) (auto simp: render_snoc)
    then have "p' \<le> i + length seg" using t assms(2,6) by simp
    moreover have "normalise_loop buf out i = normalise_loop buf p' (i + length seg)"
      unfolding p'_def p_def using step dots by (simp add: Let_def)
    ultimately show ?thesis
      using dots de t by (intro exI[of _ buf] exI[of _ p']) (simp add: push_seg_def)
  next
    case plain
    define b1 where "b1 = (if 1 < out then buf[out := CHR ''/''] else buf)"
    define o1 where "o1 = (if 1 < out then Suc out else out)"
    note ps = push_cursor_st[OF assms(1,2,3,4) _ assms(6,7) b1_def o1_def]
    have "length b1 = length buf" by (simp add: b1_def)
    moreover have "normalise_loop buf out i
        = normalise_loop (memmove b1 o1 i (length seg)) (o1 + length seg) (i + length seg)"
      unfolding b1_def o1_def using step plain by (simp add: Let_def)
    ultimately show ?thesis
      using plain ps assms(5)
      by (intro exI[of _ "memmove b1 o1 i (length seg)"] exI[of _ "o1 + length seg"])
        (simp add: push_seg_def)
  qed
qed

lemma normalise_loop_correct:
  assumes "take out buf = c0 # render st" "out = Suc (length (render st))"
    "\<forall>s \<in> set st. good_seg s" "drop i buf = rest @ NUL # junk" "is_cstr rest"
    "out \<le> i" "out < i \<or> st = [] \<or> rest = [] \<or> hd rest = CHR ''/''"
  shows "loop_result c0 (foldl push_seg st (segments rest)) (length buf) (normalise_loop buf out i)"
  using assms
proof (induction "length rest" arbitrary: buf out i st rest rule: less_induct)
  case less
  note prems = less.prems
  have il: "i < length buf" using arg_cong[OF prems(4), of length] by simp
  have hd: "buf ! i = hd (rest @ NUL # junk)" using prems(4) il by (metis hd_drop_conv_nth)
  consider (stop) "rest = []" | (slash) cs where "rest = CHR ''/'' # cs"
    | (seg) c cs where "rest = c # cs" "c \<noteq> CHR ''/''" by (cases rest) auto
  then show ?case
  proof cases
    case stop
    then have "normalise_loop buf out i = (buf, out)"
      using hd by (subst normalise_loop.simps) simp
    with stop prems il show ?thesis by (simp add: loop_result_def)
  next
    case (slash cs)
    then have "normalise_loop buf out i = normalise_loop buf out (Suc i)"
      using hd il by (subst normalise_loop.simps) simp
    moreover have "drop (Suc i) buf = cs @ NUL # junk"
      using prems(4) slash by (metis append_Cons drop_Suc list.sel(3) tl_drop)
    moreover have "is_cstr cs" using prems(5) slash by (simp add: is_cstr_def)
    ultimately show ?thesis
      using less.hyps[of cs out buf st "Suc i"] prems slash by simp
  next
    case (seg c cs)
    define sg where "sg = c # takeWhile (\<lambda>x. x \<noteq> CHR ''/'') cs"
    define r where "r = dropWhile (\<lambda>x. x \<noteq> CHR ''/'') cs"
    have rest: "rest = sg @ r" "segments rest = sg # segments r"
      using seg by (simp_all add: sg_def r_def)
    have gs: "good_seg sg" using prems(5) rest segments_good by simp
    have r0: "r = [] \<or> hd r = CHR ''/''"
      unfolding r_def using hd_dropWhile[of "\<lambda>x. x \<noteq> CHR ''/''" cs] by auto
    have rc: "is_cstr r" and rl: "length r < length rest"
      using prems(5) rest by (auto simp: is_cstr_def sg_def)
    have dr: "drop i buf = sg @ r @ NUL # junk" using prems(4) rest by simp
    obtain b p where b: "normalise_loop buf out i = normalise_loop b p (i + length sg)"
      "take p b = c0 # render (push_seg st sg)" "p = Suc (length (render (push_seg st sg)))"
      "drop (i + length sg) b = r @ NUL # junk" "p \<le> i + length sg" "length b = length buf"
      using normalise_loop_step[OF prems(1-3) dr gs prems(6) _ r0] prems(7) seg by auto
    have "\<forall>s \<in> set (push_seg st sg). good_seg s" using prems(3) gs push_seg_subset by blast
    with less.hyps[OF rl b(2,3) _ b(4) rc b(5)] r0 b(1,6) rest show ?thesis by auto
  qed
qed

lemma normalise_canon:
  assumes "is_cstr p"
  shows "cstr_of (normalise (CHR ''/'' # p @ NUL # junk)) = CHR ''/'' # render (canon p)"
    "length (normalise (CHR ''/'' # p @ NUL # junk)) = length (CHR ''/'' # p @ NUL # junk)"
proof -
  let ?b = "CHR ''/'' # p @ NUL # junk"
  obtain b out where bo: "normalise_loop ?b 1 1 = (b, out)" by fastforce
  have "loop_result (CHR ''/'') (foldl push_seg [] (segments p)) (length ?b) (normalise_loop ?b 1 1)"
    using assms by (intro normalise_loop_correct) auto
  with bo have r: "take out b = CHR ''/'' # render (canon p)" "out < length b" "length b = length ?b"
    by (auto simp: loop_result_def canon_def)
  have cs: "is_cstr (CHR ''/'' # render (canon p))"
    using is_cstr_render[of "canon p"] canon_plain[OF assms] by (auto simp: is_cstr_def plain_seg_def)
  have "b[out := NUL] = take out b @ NUL # drop (Suc out) b" using r by (simp add: upd_conv_take_nth_drop)
  then show "cstr_of (normalise ?b) = CHR ''/'' # render (canon p)"
    using bo r cs by (simp add: normalise_def cstr_of_def is_cstr_def takeWhile_not_in)
  show "length (normalise ?b) = length ?b" using bo r by (simp add: normalise_def)
qed

section \<open>Resolution\<close>

text \<open>What \<^verbatim>\<open>espix_fs_resolve\<close> formats before it normalises, for a real working directory
  and a non-empty path.\<close>

definition joined :: "string \<Rightarrow> string \<Rightarrow> string" where
  "joined cwd p = (if hd p = CHR ''/'' then p else if cwd = ''/'' then CHR ''/'' # p
                   else cwd @ CHR ''/'' # p)"

definition abs_path :: "string \<Rightarrow> bool" where
  "abs_path p \<longleftrightarrow> is_cstr p \<and> p \<noteq> [] \<and> hd p = CHR ''/''"

definition canonical :: "string \<Rightarrow> bool" where
  "canonical p \<longleftrightarrow> (\<exists>ss. (\<forall>s \<in> set ss. plain_seg s) \<and> p = CHR ''/'' # render ss)"

lemma plain_good: "plain_seg s \<Longrightarrow> good_seg s"
  by (simp add: plain_seg_def)

lemma canonicalE:
  assumes "canonical p"
  obtains ss where "\<forall>s \<in> set ss. plain_seg s" "p = CHR ''/'' # render ss" "segments p = ss"
  using assms plain_good segments_render by (auto simp: canonical_def)

lemma canonical_abs: "canonical p \<Longrightarrow> abs_path p"
  using is_cstr_render plain_good by (fastforce simp: canonical_def abs_path_def is_cstr_def)

lemma canonical_canon: "is_cstr p \<Longrightarrow> canonical (CHR ''/'' # render (canon p))"
  using canon_plain by (auto simp: canonical_def)

lemma canon_canonical:
  assumes "canonical p"
  shows "canon p = segments p" "CHR ''/'' # render (canon p) = p"
  using assms by (auto elim!: canonicalE simp: canon_def foldl_push_id)

lemma segments_append_slash: "segments (a @ CHR ''/'' # b) = segments a @ segments b"
proof (induction a rule: segments.induct)
  case (2 c cs)
  show ?case
  proof (cases "c = CHR ''/''")
    case False
    show ?thesis
    proof (cases "CHR ''/'' \<in> set cs")
      case True
      with 2 False show ?thesis by (simp add: takeWhile_append1 dropWhile_append1)
    next
      case f: False
      have "takeWhile (\<lambda>x. x \<noteq> CHR ''/'') cs = cs" "dropWhile (\<lambda>x. x \<noteq> CHR ''/'') cs = []"
        using f by (auto simp: takeWhile_eq_all_conv)
      with False f show ?thesis
        by (simp only: append_Cons segments.simps takeWhile_not_in dropWhile_not_in if_False
          not_False_eq_True) simp
    qed
  qed (use 2 in simp)
qed simp

declare segments.simps(2) [simp del]

lemma canon_joined:
  assumes "p \<noteq> []"
  shows "canon (joined cwd p) =
    (if hd p = CHR ''/'' then canon p else foldl push_seg (canon cwd) (segments p))"
  using segments_append_slash[of cwd p] segments_append_slash[of "[]" p]
  by (auto simp: joined_def canon_def)

lemma segments_canon:
  assumes "is_cstr p"
  shows "segments (CHR ''/'' # render (canon p)) = canon p"
  using segments_render[of "canon p"] canon_plain[OF assms] plain_good by simp

lemma joined_abs: "abs_path cwd \<Longrightarrow> is_cstr p \<Longrightarrow> p \<noteq> [] \<Longrightarrow> abs_path (joined cwd p)"
  by (cases cwd) (auto simp: abs_path_def joined_def is_cstr_def)

lemma resolve_eq:
  assumes "abs_path cwd" "is_cstr p" "p \<noteq> []" "2 \<le> length old"
  shows "espix_fs_resolve (Some cwd) (Some p) (Some old) =
    (let t = joined cwd p in
     if length old \<le> length t then Inl ESP_ERR_INVALID_SIZE
     else Inr (normalise (t @ NUL # drop (Suc (length t)) old)))"
  using assms by (auto simp: espix_fs_resolve_def joined_def abs_path_def Let_def)

lemma resolve_value:
  assumes "abs_path cwd" "is_cstr p" "p \<noteq> []" "2 \<le> length old"
  shows "if length old \<le> length (joined cwd p)
    then espix_fs_resolve (Some cwd) (Some p) (Some old) = Inl ESP_ERR_INVALID_SIZE
    else \<exists>b. espix_fs_resolve (Some cwd) (Some p) (Some old) = Inr b \<and> length b = length old \<and>
      cstr_of b = CHR ''/'' # render (foldl push_seg
        (if hd p = CHR ''/'' then [] else canon cwd) (segments p)) \<and>
      canonical (cstr_of b)"
proof -
  let ?t = "joined cwd p"
  have a: "abs_path ?t" using joined_abs assms by blast
  then obtain q where q: "?t = CHR ''/'' # q" "is_cstr q"
    by (cases ?t) (auto simp: abs_path_def is_cstr_def)
  have c: "canon q = foldl push_seg (if hd p = CHR ''/'' then [] else canon cwd) (segments p)"
    using canon_joined[OF assms(3), of cwd] q by (simp add: canon_def)
  show ?thesis
    using resolve_eq[OF assms] normalise_canon[OF q(2)] canonical_canon[OF q(2)] c q(1)
    by (auto simp: Let_def)
qed



text \<open>
  A resolved path is a fixed point: resolving it again, from any working directory and into
  any buffer that holds it, gives the same path. (Every path resolution produces is \<open>canonical\<close>.)
\<close>

theorem resolve_idempotent:
  assumes "canonical p" "abs_path cwd" "length p < length old"
  shows "\<exists>b. espix_fs_resolve (Some cwd) (Some p) (Some old) = Inr b \<and> cstr_of b = p"
proof -
  obtain q where q: "p = CHR ''/'' # q" "is_cstr q"
    using canonical_abs[OF assms(1)] by (cases p) (auto simp: abs_path_def is_cstr_def)
  have "is_cstr p" "2 \<le> length old" "joined cwd p = p"
    using q assms(3) canonical_abs[OF assms(1)] by (auto simp: joined_def abs_path_def)
  then show ?thesis
    using resolve_eq[OF assms(2), of p old] normalise_canon(1)[OF q(2)] canon_canonical(2)[OF assms(1)] q assms(3)
    by (auto simp: canon_def Let_def)
qed

theorem resolve_idempotent_witness:
  "\<exists>b. espix_fs_resolve (Some ''/tmp'') (Some ''/etc/passwd'') (Some (replicate 32 NUL)) = Inr b \<and>
     cstr_of b = ''/etc/passwd''"
proof (rule resolve_idempotent)
  have "\<forall>s \<in> set [''etc'', ''passwd'']. plain_seg s"
    by (simp add: plain_seg_def good_seg_def NUL_def)
  moreover have "''/etc/passwd'' = CHR ''/'' # render [''etc'', ''passwd'']" by simp
  ultimately show "canonical ''/etc/passwd''" unfolding canonical_def by blast
qed (simp_all add: abs_path_def is_cstr_def NUL_def)

lemma render_append:
  "render (xs @ ys) = (if xs = [] then render ys else if ys = [] then render xs
                       else render xs @ CHR ''/'' # render ys)"
  by (induction xs rule: render.induct) (auto, (cases ys, auto)+)

lemma within_iff_comps:
  assumes "canonical a" "canonical d"
  shows "espix_fs_within (Some a) (Some d) \<longleftrightarrow> prefix (segments d) (segments a)"
proof -
  obtain xs where xs: "\<forall>s \<in> set xs. plain_seg s" "a = CHR ''/'' # render xs" "segments a = xs"
    using assms(1) by (rule canonicalE)
  obtain ys where ys: "\<forall>s \<in> set ys. plain_seg s" "d = CHR ''/'' # render ys" "segments d = ys"
    using assms(2) by (rule canonicalE)
  show ?thesis
  proof (cases "ys = []")
    case True
    with ys show ?thesis by (simp add: espix_fs_within_def)
  next
    case False
    have ne: "render ys \<noteq> []" using False ys(1) render_eq_Nil[of ys] by (auto simp: plain_seg_def good_seg_def)
    have nn: "NUL \<notin> set (render xs)" using is_cstr_render[of xs] xs(1) plain_good by (auto simp: is_cstr_def)
    show ?thesis
    proof
      assume "espix_fs_within (Some a) (Some d)"
      then have "prefix (render ys) (render xs)" and
        e: "cchar a (length d) = NUL \<or> cchar a (length d) = CHR ''/''"
        using xs(2) ys(2) ne by (auto simp: espix_fs_within_def starts_with_iff_prefix split: if_splits)
      then obtain t where t: "render xs = render ys @ t" by (auto simp: prefix_def)
      then have "t = [] \<or> hd t = CHR ''/''"
        using e nn xs(2) ys(2) by (cases t) (auto simp: cchar_def nth_append)
      then have "segments (render xs) = segments (render ys) @ segments (tl t)"
        using t segments_append_slash[of "render ys" "tl t"] by (cases t) simp_all
      then show "prefix (segments d) (segments a)"
        using segments_render xs ys plain_good by (metis prefixI)
    next
      assume "prefix (segments d) (segments a)"
      then obtain zs where z: "xs = ys @ zs" using xs ys by (auto simp: prefix_def)
      then have "render xs = render ys @ (if zs = [] then [] else CHR ''/'' # render zs)"
        using False by (simp add: render_append)
      then show "espix_fs_within (Some a) (Some d)"
        using xs(2) ys(2) ne
        by (auto simp: espix_fs_within_def starts_with_iff_prefix cchar_def nth_append)
    qed
  qed
qed

text \<open>
  On canonical paths \<^verbatim>\<open>espix_fs_within()\<close> decides the prefix order on components:
  \<open>/mnt\<close> contains \<open>/mnt/a\<close> and not \<open>/mntx\<close>, and \<open>/\<close> contains everything.
\<close>

theorem within_iff_prefix:
  assumes "canonical a" "canonical d"
  shows "espix_fs_within (Some a) (Some d) \<longleftrightarrow> prefix (segments d) (segments a)"
  using within_iff_comps[OF assms] .

theorem within_iff_prefix_witness:
  "espix_fs_within (Some ''/mnt/a'') (Some ''/mnt'') \<and> prefix (segments ''/mnt'') (segments ''/mnt/a'')"
proof -
  have c: "canonical ''/mnt/a''" "canonical ''/mnt''"
    unfolding canonical_def
    by (rule exI[of _ "[''mnt'', ''a'']"], simp add: plain_seg_def good_seg_def NUL_def)
      (rule exI[of _ "[''mnt'']"], simp add: plain_seg_def good_seg_def NUL_def)
  moreover have "espix_fs_within (Some ''/mnt/a'') (Some ''/mnt'')"
    by (simp add: espix_fs_within_def starts_with_def cchar_def)
  ultimately show ?thesis using within_iff_prefix by blast
qed

end
