(* ===== verification/Fs_Mount.thy ===== *)
theory Fs_Mount
  imports Fs_Path
begin

text \<open>
  The tables of \<^verbatim>\<open>components/espix_fs/vfs.c\<close>: the mounts and the longest-prefix lookup,
  the descriptors espix hands out (its own numbers, with a reference count, so that two
  filesystems that both count from zero cannot collide), and the map from open directories to
  mounts. The operations that dispatch through them are in \<open>Fs_Vfs\<close>.

  A \<^verbatim>\<open>lower_t\<close> carries the driver's operations and context as one value of type
  \<open>'o\<close> (\<open>None\<close> is the null pointer) and the metadata operations as a value of type \<open>'m\<close>.
  A pointer to a mount is \<open>At i\<close>, or \<open>Dead\<close> for \<^verbatim>\<open>&s_dead\<close>, the sentinel whose
  operations are all null. The critical sections are atomic, so every operation is a function.
\<close>

section \<open>The code\<close>

abbreviation ESPIX_FS_MAX_MOUNTS :: nat where "ESPIX_FS_MAX_MOUNTS \<equiv> 4"
abbreviation ESPIX_FS_PREFIX_MAX :: nat where "ESPIX_FS_PREFIX_MAX \<equiv> 32"
abbreviation ESPIX_FS_FD_BASE :: nat where "ESPIX_FS_FD_BASE \<equiv> 128"
abbreviation ESPIX_FS_FD_MAX :: nat where "ESPIX_FS_FD_MAX \<equiv> 32"
abbreviation ESPIX_FS_DIRS :: nat where "ESPIX_FS_DIRS \<equiv> 8"
abbreviation ESPIX_SYNTH_FD_BASE :: nat where "ESPIX_SYNTH_FD_BASE \<equiv> 240"
abbreviation ESPIX_PID_NONE :: int where "ESPIX_PID_NONE \<equiv> -1"
abbreviation ESPIX_FS_OWNER_RULE :: u16 where "ESPIX_FS_OWNER_RULE \<equiv> 0xFFFF"

datatype fs_meta = META_NONE | META_ESPIX | META_LOWER

record ('o, 'm) lower =
  l_ops :: "'o option"
  l_prefix :: string
  l_len :: nat
  metadata :: fs_meta
  l_meta :: "'m option"
  l_used :: bool
  owner_uid :: u16
  owner_gid :: u16
  l_dead :: bool

record fd_slot =
  lower_fd :: int
  fd_mount :: nat
  fd_owner :: int
  refs :: int

text \<open>A directory handle is the pointer the driver returned; 0 is null.\<close>

record dir_slot =
  dirp :: nat
  dir_mount :: nat

datatype mount_ref = At nat | Dead

definition free_mount :: "('o, 'm) lower" where
  "free_mount = \<lparr>l_ops = None, l_prefix = [], l_len = 0, metadata = META_NONE, l_meta = None,
     l_used = False, owner_uid = 0, owner_gid = 0, l_dead = False\<rparr>"

definition free_fd :: fd_slot where
  "free_fd = \<lparr>lower_fd = -1, fd_mount = 0, fd_owner = ESPIX_PID_NONE, refs = 0\<rparr>"

definition fd_table_init :: "fd_slot list \<Rightarrow> fd_slot list" where
  "fd_table_init fds = map (\<lambda>s. s\<lparr>lower_fd := -1, fd_owner := ESPIX_PID_NONE\<rparr>) fds"

definition fd_ours :: "int \<Rightarrow> bool" where
  "fd_ours fd \<longleftrightarrow> int ESPIX_FS_FD_BASE \<le> fd \<and> fd < int (ESPIX_FS_FD_BASE + ESPIX_FS_FD_MAX)"

definition fd_slot_get :: "fd_slot list \<Rightarrow> int \<Rightarrow> fd_slot option" where
  "fd_slot_get fds fd =
     (if \<not> fd_ours fd then None
      else if 0 \<le> lower_fd (fds ! nat fd) then Some (fds ! nat fd) else None)"

text \<open>One turn of the loop of \<^verbatim>\<open>mount_by_path\<close>; \<open>m->len \<le> path_len\<close> is tested first, so
  \<^verbatim>\<open>strncmp\<close> compares that many bytes.\<close>

definition mount_step ::
  "('o, 'm) lower list \<Rightarrow> string \<Rightarrow> nat \<times> nat \<Rightarrow> nat \<Rightarrow> nat \<times> nat" where
  "mount_step ms path best i =
     (let m = ms ! i in
      if \<not> l_used m \<or> l_len m \<le> snd best \<or> length path < l_len m then best
      else if take (l_len m) path = take (l_len m) (l_prefix m) \<and>
              (cchar path (l_len m) = NUL \<or> cchar path (l_len m) = CHR ''/'')
           then (i, l_len m) else best)"

definition mount_best :: "('o, 'm) lower list \<Rightarrow> string \<Rightarrow> nat" where
  "mount_best ms path = fst (foldl (mount_step ms path) (0, 0) [1..<ESPIX_FS_MAX_MOUNTS])"

definition mount_by_path :: "('o, 'm) lower list \<Rightarrow> string \<Rightarrow> mount_ref" where
  "mount_by_path ms path =
     (let best = mount_best ms path in if l_dead (ms ! best) then Dead else At best)"

definition mount_of_slot :: "('o, 'm) lower list \<Rightarrow> fd_slot \<Rightarrow> mount_ref" where
  "mount_of_slot ms s =
     (let i = fd_mount s - 1 in if l_dead (ms ! i) then Dead else At i)"

definition mounted_at :: "string \<Rightarrow> ('o, 'm) lower \<Rightarrow> bool" where
  "mounted_at path m \<longleftrightarrow> l_used m \<and> l_prefix m = path"

definition espix_fs_mount_dead ::
  "('o, 'm) lower list \<Rightarrow> string option \<Rightarrow> esp_err \<times> ('o, 'm) lower list" where
  "espix_fs_mount_dead ms path =
     (case path of
        None \<Rightarrow> (ESP_ERR_INVALID_ARG, ms)
      | Some p \<Rightarrow>
          (case find_from 1 (mounted_at p) ms of
             Some i \<Rightarrow> (ESP_OK, ms[i := (ms ! i)\<lparr>l_dead := True\<rparr>])
           | None \<Rightarrow> (ESP_ERR_NOT_FOUND, ms)))"

definition espix_vfs_mount_dead :: "('o, 'm) lower list \<Rightarrow> string \<Rightarrow> bool" where
  "espix_vfs_mount_dead ms path =
     (case find_from 1 (mounted_at path) ms of Some i \<Rightarrow> l_dead (ms ! i) | None \<Rightarrow> False)"

text \<open>\<open>out_len\<close> is the caller's buffer (\<open>None\<close> for a null pointer).\<close>

definition espix_fs_mount_at ::
  "('o, 'm) lower list \<Rightarrow> nat \<Rightarrow> nat option \<Rightarrow> esp_err + string" where
  "espix_fs_mount_at ms index out_len =
     (case out_len of
        None \<Rightarrow> Inl ESP_ERR_INVALID_ARG
      | Some n \<Rightarrow>
          if n = 0 then Inl ESP_ERR_INVALID_ARG
          else (let us = filter l_used (drop 1 ms) in
                if index < length us then Inr (strlcpy n (l_prefix (us ! index)))
                else Inl ESP_ERR_NOT_FOUND))"

definition fd_slot_alloc ::
  "fd_slot list \<Rightarrow> int \<Rightarrow> int \<Rightarrow> mount_ref \<Rightarrow> (fd_slot list \<times> nat) option" where
  "fd_slot_alloc fds self_pid lfd m =
     (case m of
        Dead \<Rightarrow> None
      | At i \<Rightarrow>
          (case find_from ESPIX_FS_FD_BASE (\<lambda>s. lower_fd s < 0) fds of
             None \<Rightarrow> None
           | Some k \<Rightarrow> Some (fds[k := \<lparr>lower_fd = lfd, fd_mount = i + 1, fd_owner = self_pid, refs = 1\<rparr>], k)))"

definition fd_slot_free :: "fd_slot list \<Rightarrow> int \<Rightarrow> fd_slot list" where
  "fd_slot_free fds fd = (if \<not> fd_ours fd then fds else fds[nat fd := free_fd])"

text \<open>The slot as it was, whether it was the last reference, and the table; \<open>None\<close> for -1.\<close>

definition fd_slot_unref :: "fd_slot list \<Rightarrow> int \<Rightarrow> (fd_slot \<times> bool \<times> fd_slot list) option" where
  "fd_slot_unref fds fd =
     (if \<not> fd_ours fd then None
      else (let s = fds ! nat fd in
            if lower_fd s < 0 then None
            else if 1 < refs s then Some (s, False, fds[nat fd := s\<lparr>refs := refs s - 1\<rparr>])
            else Some (s, True, fds)))"

text \<open>\<^verbatim>\<open>mount_by_dir\<close> returns the mount itself, dead or not.\<close>

definition mount_by_dir :: "dir_slot list \<Rightarrow> nat \<Rightarrow> mount_ref option" where
  "mount_by_dir ds pdir =
     (case find_slot (\<lambda>d. dirp d = pdir \<and> dir_mount d \<noteq> 0) ds of
        Some i \<Rightarrow> Some (At (dir_mount (ds ! i) - 1))
      | None \<Rightarrow> None)"

definition dir_map_set :: "dir_slot list \<Rightarrow> nat \<Rightarrow> nat \<Rightarrow> dir_slot list" where
  "dir_map_set ds pdir i =
     (case find_slot (\<lambda>d. dirp d = pdir \<or> dir_mount d = 0) ds of
        Some k \<Rightarrow> ds[k := \<lparr>dirp = pdir, dir_mount = i + 1\<rparr>]
      | None \<Rightarrow> ds)"

definition dir_map_clear :: "dir_slot list \<Rightarrow> nat \<Rightarrow> dir_slot list" where
  "dir_map_clear ds pdir =
     (case find_slot (\<lambda>d. dirp d = pdir) ds of
        Some k \<Rightarrow> ds[k := \<lparr>dirp = 0, dir_mount = 0\<rparr>]
      | None \<Rightarrow> ds)"

text \<open>\<open>ops\<close> is \<open>None\<close> when the operations, their directory table or the context is null.\<close>

definition espix_vfs_register_root ::
  "('o, 'm) lower list \<Rightarrow> fd_slot list \<Rightarrow> 'o option \<Rightarrow> esp_err \<Rightarrow>
   esp_err \<times> ('o, 'm) lower list \<times> fd_slot list" where
  "espix_vfs_register_root ms fds ops idf_err =
     (case ops of
        None \<Rightarrow> (ESP_ERR_INVALID_ARG, ms, fds)
      | Some o' \<Rightarrow>
          (idf_err,
           ms[0 := (ms ! 0)\<lparr>l_ops := Some o', l_prefix := [], l_len := 0, metadata := META_ESPIX,
                    owner_uid := ESPIX_FS_OWNER_RULE, owner_gid := ESPIX_FS_OWNER_RULE, l_used := True\<rparr>],
           fd_table_init fds))"

definition espix_vfs_add_mount ::
  "('o, 'm) lower list \<Rightarrow> string option \<Rightarrow> 'o option \<Rightarrow> fs_meta \<Rightarrow> 'm option \<Rightarrow> u16 \<Rightarrow> u16 \<Rightarrow>
   esp_err \<times> ('o, 'm) lower list" where
  "espix_vfs_add_mount ms pfx ops md meta uid gid =
     (case (pfx, ops) of
        (Some p, Some o') \<Rightarrow>
          (let n = length p in
           if n < 1 \<or> ESPIX_FS_PREFIX_MAX \<le> n \<or> hd p \<noteq> CHR ''/'' \<or> last p = CHR ''/''
           then (ESP_ERR_INVALID_ARG, ms)
           else if find_from 1 (mounted_at p) ms \<noteq> None then (ESP_ERR_INVALID_STATE, ms)
           else (case find_from 1 (\<lambda>m. \<not> l_used m) ms of
                   None \<Rightarrow> (ESP_ERR_NO_MEM, ms)
                 | Some i \<Rightarrow>
                     (ESP_OK,
                      ms[i := (ms ! i)\<lparr>l_ops := Some o', l_prefix := strlcpy ESPIX_FS_PREFIX_MAX p,
                               l_len := n, metadata := md, l_meta := meta, owner_uid := uid,
                               owner_gid := gid, l_used := True\<rparr>])))
      | _ \<Rightarrow> (ESP_ERR_INVALID_ARG, ms))"

text \<open>
  The loop over \<^verbatim>\<open>s_fds\<close> runs to \<^verbatim>\<open>ESPIX_SYNTH_FD_BASE\<close>, past the end of the
  array; \<open>beyond i\<close> is what lies in memory where element \<open>i\<close> would be.
\<close>

definition fd_mem :: "(nat \<Rightarrow> fd_slot) \<Rightarrow> fd_slot list \<Rightarrow> nat \<Rightarrow> fd_slot" where
  "fd_mem beyond fds i = (if i < length fds then fds ! i else beyond i)"

definition fds_busy :: "(nat \<Rightarrow> fd_slot) \<Rightarrow> fd_slot list \<Rightarrow> nat \<Rightarrow> bool" where
  "fds_busy beyond fds m \<longleftrightarrow>
     (\<exists>fd \<in> set [0..<ESPIX_SYNTH_FD_BASE].
        0 \<le> lower_fd (fd_mem beyond fds fd) \<and> fd_mount (fd_mem beyond fds fd) = m)"

definition dirs_busy :: "dir_slot list \<Rightarrow> nat \<Rightarrow> bool" where
  "dirs_busy ds m \<longleftrightarrow> (\<exists>d \<in> set ds. dir_mount d = m)"

definition espix_vfs_del_mount ::
  "(nat \<Rightarrow> fd_slot) \<Rightarrow> ('o, 'm) lower list \<Rightarrow> fd_slot list \<Rightarrow> dir_slot list \<Rightarrow> string option \<Rightarrow>
   esp_err \<times> ('o, 'm) lower list" where
  "espix_vfs_del_mount beyond ms fds ds pfx =
     (case pfx of
        None \<Rightarrow> (ESP_ERR_INVALID_ARG, ms)
      | Some p \<Rightarrow>
          (case find_from 1 (mounted_at p) ms of
             None \<Rightarrow> (ESP_ERR_NOT_FOUND, ms)
           | Some i \<Rightarrow>
               if fds_busy beyond fds (i + 1) then (ESP_ERR_INVALID_STATE, ms)
               else if dirs_busy ds (i + 1) then (ESP_ERR_INVALID_STATE, ms)
               else (ESP_OK, ms[i := (ms ! i)\<lparr>l_used := False, l_ops := None, l_len := 0,
                                      l_dead := False, l_prefix := []\<rparr>])))"

definition espix_vfs_metadata :: "('o, 'm) lower list \<Rightarrow> string \<Rightarrow> fs_meta" where
  "espix_vfs_metadata ms path =
     (case mount_by_path ms path of Dead \<Rightarrow> META_NONE | At i \<Rightarrow> metadata (ms ! i))"

definition espix_vfs_meta_ops :: "('o, 'm) lower list \<Rightarrow> string \<Rightarrow> 'm option" where
  "espix_vfs_meta_ops ms path =
     (case mount_by_path ms path of Dead \<Rightarrow> None | At i \<Rightarrow> l_meta (ms ! i))"

definition espix_fs_on_rootfs :: "('o, 'm) lower list \<Rightarrow> string option \<Rightarrow> bool" where
  "espix_fs_on_rootfs ms path =
     (case path of
        None \<Rightarrow> False
      | Some p \<Rightarrow> cchar p 0 = CHR ''/'' \<and> mount_by_path ms p = At 0)"

text \<open>The sentinel's owner fields are zero, so a pulled volume is owned by root.\<close>

definition espix_vfs_mount_owner :: "('o, 'm) lower list \<Rightarrow> string \<Rightarrow> (u16 \<times> u16) option" where
  "espix_vfs_mount_owner ms path =
     (case mount_by_path ms path of
        Dead \<Rightarrow> Some (0, 0)
      | At i \<Rightarrow> if owner_uid (ms ! i) = ESPIX_FS_OWNER_RULE then None
                else Some (owner_uid (ms ! i), owner_gid (ms ! i)))"

section \<open>The mount table\<close>

definition mount_entry_ok :: "('o, 'm) lower \<Rightarrow> bool" where
  "mount_entry_ok m \<longleftrightarrow>
     (if l_used m then l_len m = length (l_prefix m) \<and> 1 \<le> l_len m \<and> l_len m < ESPIX_FS_PREFIX_MAX \<and>
        hd (l_prefix m) = CHR ''/'' \<and> last (l_prefix m) \<noteq> CHR ''/'' \<and> l_ops m \<noteq> None
      else \<not> l_dead m)"

definition mounts_ok :: "('o, 'm) lower list \<Rightarrow> bool" where
  "mounts_ok ms \<longleftrightarrow> length ms = ESPIX_FS_MAX_MOUNTS \<and>
     l_used (ms ! 0) \<and> l_prefix (ms ! 0) = [] \<and> l_len (ms ! 0) = 0 \<and> \<not> l_dead (ms ! 0) \<and> l_ops (ms ! 0) \<noteq> None \<and>
     (\<forall>i \<in> {1..<ESPIX_FS_MAX_MOUNTS}. mount_entry_ok (ms ! i)) \<and>
     (\<forall>i \<in> {1..<ESPIX_FS_MAX_MOUNTS}. \<forall>j \<in> {1..<ESPIX_FS_MAX_MOUNTS}.
        l_used (ms ! i) \<longrightarrow> l_used (ms ! j) \<longrightarrow> l_prefix (ms ! i) = l_prefix (ms ! j) \<longrightarrow> i = j)"

lemma mounts_ok_entry: "mounts_ok ms \<Longrightarrow> 1 \<le> i \<Longrightarrow> i < ESPIX_FS_MAX_MOUNTS \<Longrightarrow> mount_entry_ok (ms ! i)"
  by (simp add: mounts_ok_def)

text \<open>A mount claims the paths within its prefix.\<close>

definition claims :: "('o, 'm) lower \<Rightarrow> string \<Rightarrow> bool" where
  "claims m path \<longleftrightarrow> l_used m \<and> espix_fs_within (Some path) (Some (l_prefix m))"

lemma mount_step_claims:
  assumes "mounts_ok ms" "1 \<le> i" "i < ESPIX_FS_MAX_MOUNTS"
  shows "mount_step ms path best i =
    (if claims (ms ! i) path \<and> snd best < l_len (ms ! i) then (i, l_len (ms ! i)) else best)"
proof -
  have e: "mount_entry_ok (ms ! i)" using assms by (rule mounts_ok_entry)
  have "l_used (ms ! i) \<Longrightarrow> l_prefix (ms ! i) \<noteq> [] \<and> l_prefix (ms ! i) \<noteq> ''/''"
    using e by (auto simp: mount_entry_ok_def)
  moreover have "starts_with path (l_prefix (ms ! i)) \<Longrightarrow> length (l_prefix (ms ! i)) \<le> length path"
    by (auto simp: starts_with_def dest!: arg_cong[of _ _ length])
  ultimately show ?thesis
    using e by (auto simp: mount_step_def claims_def espix_fs_within_def starts_with_def mount_entry_ok_def Let_def)
qed

definition best_so_far :: "('o, 'm) lower list \<Rightarrow> string \<Rightarrow> nat \<Rightarrow> nat \<times> nat \<Rightarrow> bool" where
  "best_so_far ms path n b \<longleftrightarrow>
     (fst b = 0 \<and> snd b = 0 \<or> 1 \<le> fst b \<and> fst b < n \<and> claims (ms ! fst b) path \<and> snd b = l_len (ms ! fst b)) \<and>
     (\<forall>j \<in> {1..<n}. claims (ms ! j) path \<longrightarrow> l_len (ms ! j) \<le> snd b)"

lemma mount_fold_best:
  assumes "mounts_ok ms" "1 \<le> n" "n \<le> ESPIX_FS_MAX_MOUNTS"
  shows "best_so_far ms path n (foldl (mount_step ms path) (0, 0) [1..<n])"
  using assms(2,3)
proof (induction n)
  case (Suc n)
  show ?case
  proof (cases "n = 0")
    case True
    then show ?thesis by (simp add: best_so_far_def)
  next
    case False
    define b where "b = foldl (mount_step ms path) (0, 0) [1..<n]"
    have b: "best_so_far ms path n b" unfolding b_def using Suc False by simp
    have "foldl (mount_step ms path) (0, 0) [1..<Suc n] =
      (if claims (ms ! n) path \<and> snd b < l_len (ms ! n) then (n, l_len (ms ! n)) else b)"
      using mount_step_claims[OF assms(1), of n path b] Suc.prems False by (simp add: b_def)
    then show ?thesis using b False by (auto simp: best_so_far_def less_Suc_eq)
  qed
qed simp

lemma claims_same_length:
  assumes "mounts_ok ms" "i \<in> {1..<ESPIX_FS_MAX_MOUNTS}" "j \<in> {1..<ESPIX_FS_MAX_MOUNTS}"
    "claims (ms ! i) path" "claims (ms ! j) path" "l_len (ms ! i) = l_len (ms ! j)"
  shows "i = j"
proof -
  have e: "mount_entry_ok (ms ! i)" "mount_entry_ok (ms ! j)"
    using assms(1-3) mounts_ok_entry by auto
  have "take (l_len (ms ! i)) path = l_prefix (ms ! i)" "take (l_len (ms ! j)) path = l_prefix (ms ! j)"
    using assms(4,5) e
    by (auto simp: claims_def espix_fs_within_def starts_with_def mount_entry_ok_def split: if_splits)
  then have "l_prefix (ms ! i) = l_prefix (ms ! j)" using assms(6) by simp
  then show ?thesis using assms(1-5) by (auto simp: mounts_ok_def claims_def)
qed

lemma mount_best_facts:
  assumes "mounts_ok ms"
  shows "mount_best ms path < ESPIX_FS_MAX_MOUNTS"
    "mount_best ms path = 0 \<or> claims (ms ! mount_best ms path) path"
    "1 \<le> j \<Longrightarrow> j < ESPIX_FS_MAX_MOUNTS \<Longrightarrow> claims (ms ! j) path \<Longrightarrow>
       mount_best ms path \<noteq> 0 \<and> (l_len (ms ! j) < l_len (ms ! mount_best ms path) \<or> j = mount_best ms path)"
proof -
  let ?b = "foldl (mount_step ms path) (0, 0) [1..<ESPIX_FS_MAX_MOUNTS]"
  have b: "best_so_far ms path ESPIX_FS_MAX_MOUNTS ?b" by (rule mount_fold_best[OF assms]) simp_all
  show "mount_best ms path < ESPIX_FS_MAX_MOUNTS"
    "mount_best ms path = 0 \<or> claims (ms ! mount_best ms path) path"
    using b by (auto simp: best_so_far_def mount_best_def)
  assume j: "1 \<le> j" "j < ESPIX_FS_MAX_MOUNTS" "claims (ms ! j) path"
  then have le: "l_len (ms ! j) \<le> snd ?b" using b by (auto simp: best_so_far_def)
  have "1 \<le> l_len (ms ! j)" using mounts_ok_entry[OF assms j(1,2)] j(3) by (auto simp: mount_entry_ok_def claims_def)
  with le b have "1 \<le> fst ?b" "fst ?b < ESPIX_FS_MAX_MOUNTS" "claims (ms ! fst ?b) path" "snd ?b = l_len (ms ! fst ?b)"
    by (auto simp: best_so_far_def)
  then show "mount_best ms path \<noteq> 0 \<and>
      (l_len (ms ! j) < l_len (ms ! mount_best ms path) \<or> j = mount_best ms path)"
    using le j claims_same_length[OF assms, of j "fst ?b" path] unfolding mount_best_def
    by (auto simp: order.strict_iff_order)
qed

lemma mount_best_unique:
  assumes "mounts_ok ms" "i = 0 \<or> 1 \<le> i \<and> i < ESPIX_FS_MAX_MOUNTS \<and> claims (ms ! i) path"
    "\<forall>j \<in> {1..<ESPIX_FS_MAX_MOUNTS}. claims (ms ! j) path \<longrightarrow> i \<noteq> 0 \<and> (l_len (ms ! j) < l_len (ms ! i) \<or> j = i)"
  shows "mount_best ms path = i"
proof (cases "mount_best ms path = 0")
  case True
  with assms(2) mount_best_facts(3)[OF assms(1), of i path] show ?thesis by auto
next
  case False
  let ?b = "mount_best ms path"
  have c: "claims (ms ! ?b) path" "?b \<in> {1..<ESPIX_FS_MAX_MOUNTS}"
    using False mount_best_facts(1,2)[OF assms(1), of path] by auto
  then have i: "i \<noteq> 0" "l_len (ms ! ?b) < l_len (ms ! i) \<or> ?b = i" using assms(3) by auto
  with assms(2) mount_best_facts(3)[OF assms(1), of i path] show ?thesis by auto
qed


text \<open>
  C17. Of the mounts that claim a path, the lookup picks the one with the longest prefix, and the
  root only when none does: \<open>/mnt/usb/x\<close> never goes to a mount on \<open>/mnt\<close> while one on
  \<open>/mnt/usb\<close> exists, and \<open>/mntx\<close> never goes to \<open>/mnt\<close>. A pulled volume still claims its
  paths but answers with the sentinel instead of letting them fall through to the root.
\<close>

theorem mount_by_path_longest:
  assumes "mounts_ok ms"
  shows "\<exists>i < ESPIX_FS_MAX_MOUNTS. mount_by_path ms path = (if l_dead (ms ! i) then Dead else At i) \<and>
    (i = 0 \<or> claims (ms ! i) path) \<and>
    (\<forall>j \<in> {1..<ESPIX_FS_MAX_MOUNTS}. claims (ms ! j) path \<longrightarrow>
       i \<noteq> 0 \<and> (l_len (ms ! j) < l_len (ms ! i) \<or> j = i))"
  using mount_best_facts[OF assms, where path = path]
  by (intro exI[of _ "mount_best ms path"]) (auto simp: mount_by_path_def Let_def)

text \<open>A table with two nested mounts, for the witnesses.\<close>

definition mnt_ex :: "string \<Rightarrow> (nat, nat) lower" where
  "mnt_ex p = \<lparr>l_ops = Some 7, l_prefix = p, l_len = length p, metadata = META_NONE, l_meta = None,
     l_used = True, owner_uid = 0, owner_gid = 0, l_dead = False\<rparr>"

definition tab_ex :: "(nat, nat) lower list" where
  "tab_ex = [mnt_ex [], mnt_ex ''/mnt'', free_mount, mnt_ex ''/mnt/usb'']"

lemma tab_ex_ok: "mounts_ok tab_ex"
proof -
  have "{1..<4::nat} = {1, 2, 3}" by auto
  then show ?thesis
    by (simp add: mounts_ok_def mount_entry_ok_def tab_ex_def mnt_ex_def free_mount_def)
qed

theorem mount_by_path_longest_witness:
  "mount_by_path tab_ex ''/mnt/usb/x'' = At 3 \<and> claims (tab_ex ! 1) ''/mnt/usb/x''"
proof -
  have c: "claims (tab_ex ! 1) ''/mnt/usb/x''" "claims (tab_ex ! 3) ''/mnt/usb/x''"
    by (simp_all add: tab_ex_def mnt_ex_def claims_def espix_fs_within_def starts_with_def cchar_def)
  obtain i where i: "i < 4" "mount_by_path tab_ex ''/mnt/usb/x'' = (if l_dead (tab_ex ! i) then Dead else At i)"
    "\<forall>j \<in> {1..<4}. claims (tab_ex ! j) ''/mnt/usb/x'' \<longrightarrow>
       i \<noteq> 0 \<and> (l_len (tab_ex ! j) < l_len (tab_ex ! i) \<or> j = i)"
    using mount_by_path_longest[OF tab_ex_ok, of "''/mnt/usb/x''"] by blast
  have "l_len (tab_ex ! 3) < l_len (tab_ex ! i) \<or> 3 = i" using bspec[OF i(3), of 3] c(2) by auto
  moreover have "i = 0 \<or> i = 1 \<or> i = 2 \<or> i = 3" using i(1) by auto
  ultimately have "i = 3" by (auto simp: tab_ex_def mnt_ex_def free_mount_def)
  with i(2) c(1) show ?thesis by (simp add: tab_ex_def mnt_ex_def)
qed

lemma mounts_ok_update:
  assumes "mounts_ok ms" "1 \<le> i" "i < ESPIX_FS_MAX_MOUNTS" "mount_entry_ok m"
    "\<forall>j \<in> {1..<ESPIX_FS_MAX_MOUNTS}. j \<noteq> i \<longrightarrow> l_used (ms ! j) \<longrightarrow> l_used m \<longrightarrow> l_prefix (ms ! j) \<noteq> l_prefix m"
  shows "mounts_ok (ms[i := m])"
proof -
  have n: "length ms = ESPIX_FS_MAX_MOUNTS" using assms(1) by (simp add: mounts_ok_def)
  have "mount_entry_ok (ms[i := m] ! j)" if "j \<in> {1..<ESPIX_FS_MAX_MOUNTS}" for j
    using that assms n mounts_ok_entry[OF assms(1), of j] by (cases "j = i") auto
  moreover have "a = b" if "a \<in> {1..<ESPIX_FS_MAX_MOUNTS}" "b \<in> {1..<ESPIX_FS_MAX_MOUNTS}"
    "l_used (ms[i := m] ! a)" "l_used (ms[i := m] ! b)" "l_prefix (ms[i := m] ! a) = l_prefix (ms[i := m] ! b)" for a b
    using that assms n by (cases "a = i"; cases "b = i") (auto simp: mounts_ok_def)
  ultimately show ?thesis using assms(1,2) n by (simp add: mounts_ok_def)
qed

lemma add_mount_cases:
  assumes "espix_vfs_add_mount ms pfx ops md meta uid gid = (e, ms')"
  obtains "e \<noteq> ESP_OK" "ms' = ms"
  | p o' i where "e = ESP_OK" "pfx = Some p" "ops = Some o'" "1 \<le> length p" "length p < ESPIX_FS_PREFIX_MAX"
      "hd p = CHR ''/''" "last p \<noteq> CHR ''/''" "find_from 1 (mounted_at p) ms = None"
      "find_from 1 (\<lambda>m. \<not> l_used m) ms = Some i"
      "ms' = ms[i := (ms ! i)\<lparr>l_ops := Some o', l_prefix := p, l_len := length p, metadata := md,
        l_meta := meta, owner_uid := uid, owner_gid := gid, l_used := True\<rparr>]"
proof (cases "pfx = None \<or> ops = None")
  case True
  then show ?thesis using assms that(1) by (auto simp: espix_vfs_add_mount_def split: option.splits)
next
  case False
  then obtain p o' where po: "pfx = Some p" "ops = Some o'" by auto
  show ?thesis
  proof (cases "length p < 1 \<or> ESPIX_FS_PREFIX_MAX \<le> length p \<or> hd p \<noteq> CHR ''/'' \<or> last p = CHR ''/'' \<or>
      find_from 1 (mounted_at p) ms \<noteq> None \<or> find_from 1 (\<lambda>m. \<not> l_used m) ms = None")
    case True
    then show ?thesis
      using assms po that(1) by (auto simp: espix_vfs_add_mount_def Let_def split: if_splits)
  next
    case f: False
    then obtain i where "find_from 1 (\<lambda>m. \<not> l_used m) ms = Some i" by auto
    with f assms po that(2)[of p o' i] show ?thesis by (simp add: espix_vfs_add_mount_def Let_def Suc_le_eq)
  qed
qed

lemma add_mount_ok:
  assumes "mounts_ok ms" "espix_vfs_add_mount ms pfx ops md meta uid gid = (e, ms')"
  shows "mounts_ok ms'"
  using assms(2)
proof (cases rule: add_mount_cases)
  case (2 p o' i)
  have i: "1 \<le> i" "i < ESPIX_FS_MAX_MOUNTS" "\<not> l_used (ms ! i)"
    using find_from_Some[OF 2(9)] assms(1) by (auto simp: mounts_ok_def)
  have "\<not> l_dead (ms ! i)" using mounts_ok_entry[OF assms(1) i(1,2)] i(3) by (simp add: mount_entry_ok_def)
  then show ?thesis
    unfolding 2(10) using 2 i assms(1)
    by (intro mounts_ok_update) (auto simp: mount_entry_ok_def mounts_ok_def mounted_at_def find_from_None)
qed (use assms(1) in simp)

lemma del_mount_cases:
  assumes "espix_vfs_del_mount beyond ms fds ds pfx = (e, ms')"
  obtains "e \<noteq> ESP_OK" "ms' = ms"
  | p i where "e = ESP_OK" "pfx = Some p" "find_from 1 (mounted_at p) ms = Some i"
      "ms' = ms[i := (ms ! i)\<lparr>l_used := False, l_ops := None, l_len := 0, l_dead := False, l_prefix := []\<rparr>]"
      "\<not> fds_busy beyond fds (i + 1)" "\<not> dirs_busy ds (i + 1)"
proof (cases pfx)
  case None
  with assms that(1) show ?thesis by (simp add: espix_vfs_del_mount_def)
next
  case (Some p)
  show ?thesis
  proof (cases "find_from 1 (mounted_at p) ms")
    case None
    with Some assms that(1) show ?thesis by (simp add: espix_vfs_del_mount_def)
  next
    case i: (Some i)
    show ?thesis
    proof (cases "fds_busy beyond fds (i + 1) \<or> dirs_busy ds (i + 1)")
      case True
      with Some i assms that(1) show ?thesis
        by (cases "fds_busy beyond fds (i + 1)") (simp_all add: espix_vfs_del_mount_def)
    next
      case False
      with that(2)[of p i] assms Some i show ?thesis by (simp add: espix_vfs_del_mount_def)
    qed
  qed
qed

lemma del_mount_ok:
  assumes "mounts_ok ms" "espix_vfs_del_mount beyond ms fds ds pfx = (e, ms')"
  shows "mounts_ok ms'"
  using assms(2)
proof (cases rule: del_mount_cases)
  case (2 p i)
  have "1 \<le> i" "i < ESPIX_FS_MAX_MOUNTS" using find_from_Some[OF 2(3)] assms(1) by (auto simp: mounts_ok_def)
  then show ?thesis unfolding 2(4) using assms(1) by (intro mounts_ok_update) (auto simp: mount_entry_ok_def)
qed (use assms(1) in simp)

lemma mount_dead_ok:
  assumes "mounts_ok ms"
  shows "mounts_ok (snd (espix_fs_mount_dead ms path))"
proof (cases "\<exists>p i. path = Some p \<and> find_from 1 (mounted_at p) ms = Some i")
  case True
  then obtain p i where p: "path = Some p" "find_from 1 (mounted_at p) ms = Some i" by blast
  note f = find_from_Some[OF p(2)]
  have i: "1 \<le> i" "i < ESPIX_FS_MAX_MOUNTS" using f assms by (auto simp: mounts_ok_def)
  have "mounts_ok (ms[i := (ms ! i)\<lparr>l_dead := True\<rparr>])"
    using f(3) i assms mounts_ok_entry[OF assms i]
    by (intro mounts_ok_update) (auto simp: mount_entry_ok_def mounted_at_def mounts_ok_def)
  then show ?thesis using p by (simp add: espix_fs_mount_dead_def)
qed (auto simp: assms espix_fs_mount_dead_def split: option.split)

lemma add_mount_claims:
  assumes "mounts_ok ms" "1 \<le> i" "i < ESPIX_FS_MAX_MOUNTS" "j < ESPIX_FS_MAX_MOUNTS"
    "ms' = ms[i := (ms ! i)\<lparr>l_ops := Some o', l_prefix := p, l_len := length p, metadata := md,
        l_meta := meta, owner_uid := uid, owner_gid := gid, l_used := True\<rparr>]"
  shows "claims (ms' ! j) path = (if j = i then espix_fs_within (Some path) (Some p) else claims (ms ! j) path)"
    "l_len (ms' ! j) = (if j = i then length p else l_len (ms ! j))"
    "l_dead (ms' ! j) = l_dead (ms ! j)"
  using assms by (auto simp: claims_def mounts_ok_def nth_list_update)

text \<open>Whether a mount on \<open>p\<close> would be the deepest one for a path.\<close>

definition deepest :: "('o, 'm) lower list \<Rightarrow> string \<Rightarrow> string \<Rightarrow> bool" where
  "deepest ms p path \<longleftrightarrow> espix_fs_within (Some path) (Some p) \<and>
     (\<forall>j \<in> {1..<ESPIX_FS_MAX_MOUNTS}. claims (ms ! j) path \<longrightarrow> l_len (ms ! j) < length p)"

lemma mount_best_add:
  assumes ok: "mounts_ok ms" "mounts_ok ms'" and i: "1 \<le> i" "i < ESPIX_FS_MAX_MOUNTS" "\<not> claims (ms ! i) path"
    and c: "\<And>j. j < ESPIX_FS_MAX_MOUNTS \<Longrightarrow> claims (ms' ! j) path = (if j = i then espix_fs_within (Some path) (Some p) else claims (ms ! j) path)"
      "\<And>j. j < ESPIX_FS_MAX_MOUNTS \<Longrightarrow> l_len (ms' ! j) = (if j = i then length p else l_len (ms ! j))"
  shows "mount_best ms' path = (if deepest ms p path then i else mount_best ms path)"
proof (cases "deepest ms p path")
  case True
  then have "mount_best ms' path = i"
    using c i by (intro mount_best_unique[OF ok(2)]) (auto simp: deepest_def)
  with True show ?thesis by simp
next
  case False
  let ?b = "mount_best ms path"
  note f = mount_best_facts[OF ok(1), where path = path]
  have bi: "?b \<noteq> i" using f(2) i by auto
  have "?b \<noteq> 0 \<and> (l_len (ms' ! j) < l_len (ms' ! ?b) \<or> j = ?b)"
    if j: "j \<in> {1..<ESPIX_FS_MAX_MOUNTS}" "claims (ms' ! j) path" for j
  proof (cases "j = i")
    case True
    then have w: "espix_fs_within (Some path) (Some p)" using j c(1)[of j] by simp
    then obtain k where k: "k \<in> {1..<ESPIX_FS_MAX_MOUNTS}" "claims (ms ! k) path" "length p \<le> l_len (ms ! k)"
      using False by (auto simp: deepest_def not_less)
    have ki: "k \<noteq> i" using k(2) i(3) by auto
    then have "length p \<noteq> l_len (ms ! k)"
      using claims_same_length[OF ok(2), of i k path] k i(1,2) c[of i] c[of k] w by auto
    with k f(3)[of k] True c(2)[of i] c(2)[of ?b] f(1) bi i show ?thesis by auto
  next
    case ji: False
    with j f(3)[of j] c[of j] c(2)[of ?b] f(1) bi show ?thesis by auto
  qed
  moreover have "?b = 0 \<or> 1 \<le> ?b \<and> ?b < ESPIX_FS_MAX_MOUNTS \<and> claims (ms' ! ?b) path"
    using f(1,2) c(1)[of ?b] bi by auto
  ultimately have "mount_best ms' path = ?b" by (intro mount_best_unique[OF ok(2)]) blast+
  with False show ?thesis by simp
qed

lemma add_mount_by_path:
  assumes ok: "mounts_ok ms" and add: "espix_vfs_add_mount ms (Some p) (Some o') md meta uid gid = (ESP_OK, ms')"
  obtains i where "1 \<le> i" "i < ESPIX_FS_MAX_MOUNTS" "\<not> l_used (ms ! i)" "l_ops (ms' ! i) = Some o'"
    "\<And>path. mount_by_path ms' path = (if deepest ms p path then At i else mount_by_path ms path)"
    "mounted_at p (ms' ! i)" "\<And>j. j \<noteq> i \<Longrightarrow> ms' ! j = ms ! j"
  using add
proof (cases rule: add_mount_cases)
  case (2 q oq i)
  have n: "length ms = ESPIX_FS_MAX_MOUNTS" using ok by (simp add: mounts_ok_def)
  have i: "1 \<le> i" "i < ESPIX_FS_MAX_MOUNTS" "\<not> l_used (ms ! i)"
    using find_from_Some[OF 2(9)] n by auto
  have nd: "\<not> l_dead (ms ! i)" and nc: "\<not> claims (ms ! i) path" for path
    using mounts_ok_entry[OF ok i(1,2)] i(3) by (simp_all add: mount_entry_ok_def claims_def)
  have q: "q = p" "oq = o'" using 2(2,3) by simp_all
  note c = add_mount_claims[OF ok i(1,2) _ 2(10)[unfolded q]]
  note b = mount_best_add[OF ok add_mount_ok[OF ok add] i(1,2) nc c(1,2)]
  have "mount_by_path ms' path = (if deepest ms p path then At i else mount_by_path ms path)" for path
    using b[of path] c(3)[OF i(2)] c(3)[OF mount_best_facts(1)[OF ok], of path] nd
    by (simp add: mount_by_path_def Let_def)
  moreover have "l_ops (ms' ! i) = Some o'" "mounted_at p (ms' ! i)" "\<And>j. j \<noteq> i \<Longrightarrow> ms' ! j = ms ! j"
    using 2(10) q n i(2) by (simp_all add: mounted_at_def)
  ultimately show ?thesis using i that by blast
qed simp

text \<open>
  C18. A successful \<^verbatim>\<open>espix_vfs_add_mount()\<close> takes over exactly the paths within its prefix that
  no deeper mount claims, and the new mount is live even if the slot held a pulled volume before;
  every other path still goes where it went. The table stays well formed.
\<close>

theorem add_mount_routes:
  assumes "mounts_ok ms" "espix_vfs_add_mount ms (Some p) (Some o') md meta uid gid = (ESP_OK, ms')"
  shows "mounts_ok ms' \<and> (\<exists>i. \<not> l_used (ms ! i) \<and> l_ops (ms' ! i) = Some o' \<and>
    (\<forall>path. mount_by_path ms' path = (if deepest ms p path then At i else mount_by_path ms path)))"
  using add_mount_ok[OF assms] add_mount_by_path[OF assms] by metis

theorem add_mount_routes_witness:
  "\<exists>ms'. espix_vfs_add_mount tab_ex (Some ''/sd'') (Some 9) META_NONE None 5 5 = (ESP_OK, ms') \<and>
     (\<exists>i. l_ops (ms' ! i) = Some 9 \<and> mount_by_path ms' ''/sd/a'' = At i)"
proof -
  obtain ms' where a: "espix_vfs_add_mount tab_ex (Some ''/sd'') (Some 9) META_NONE None 5 5 = (ESP_OK, ms')"
    by (simp add: espix_vfs_add_mount_def tab_ex_def mnt_ex_def free_mount_def find_from_def mounted_at_def)
  have "deepest tab_ex ''/sd'' ''/sd/a''"
  proof -
    have "{1..<4::nat} = {1, 2, 3}" by auto
    then show ?thesis
      by (simp add: deepest_def claims_def espix_fs_within_def starts_with_def cchar_def tab_ex_def mnt_ex_def free_mount_def)
  qed
  with add_mount_routes[OF tab_ex_ok a] a show ?thesis by metis
qed

lemma find_mounted:
  assumes "mounts_ok ms" "1 \<le> i" "i < ESPIX_FS_MAX_MOUNTS" "mounted_at p (ms ! i)"
  shows "find_from 1 (mounted_at p) ms = Some i"
proof (cases "find_from 1 (mounted_at p) ms")
  case None
  then show ?thesis using assms by (auto simp: find_from_None mounts_ok_def)
next
  case (Some k)
  have "1 \<le> k" "k < ESPIX_FS_MAX_MOUNTS" "mounted_at p (ms ! k)"
    using find_from_Some[OF Some] assms(1) by (auto simp: mounts_ok_def)
  with assms Some show ?thesis by (auto simp: mounts_ok_def mounted_at_def)
qed

text \<open>
  C19. Unmounting undoes mounting: after a mount and its unmount every path goes exactly where it
  went before, dead or live.
\<close>

theorem mount_unmount_roundtrip:
  assumes ok: "mounts_ok ms"
    and add: "espix_vfs_add_mount ms (Some p) (Some o') md meta uid gid = (ESP_OK, ms1)"
    and del: "espix_vfs_del_mount beyond ms1 fds ds (Some p) = (ESP_OK, ms2)"
  shows "mounts_ok ms2 \<and> mount_by_path ms2 path = mount_by_path ms path"
proof -
  obtain i where i: "1 \<le> i" "i < ESPIX_FS_MAX_MOUNTS" "\<not> l_used (ms ! i)" "mounted_at p (ms1 ! i)"
    and o: "\<And>j. j \<noteq> i \<Longrightarrow> ms1 ! j = ms ! j"
    using add_mount_by_path[OF ok add] by metis
  have ok1: "mounts_ok ms1" using add_mount_ok[OF ok add] .
  have ok2: "mounts_ok ms2" using del_mount_ok[OF ok1 del] .
  have m2: "ms2 = ms1[i := (ms1 ! i)\<lparr>l_used := False, l_ops := None, l_len := 0, l_dead := False, l_prefix := []\<rparr>]"
    using del find_mounted[OF ok1 i(1,2,4)] by (cases rule: del_mount_cases) auto
  have n: "length ms1 = ESPIX_FS_MAX_MOUNTS" using ok1 by (simp add: mounts_ok_def)
  have eq: "j \<noteq> i \<Longrightarrow> ms2 ! j = ms ! j" for j using m2 o by simp
  have nc: "\<not> claims (ms2 ! i) path" "\<not> claims (ms ! i) path"
    using m2 n i(2,3) by (simp_all add: claims_def)
  have bi: "mount_best ms path \<noteq> i" using mount_best_facts(2)[OF ok, of path] nc(2) i(1) by auto
  have "mount_best ms2 path = mount_best ms path"
  proof (rule mount_best_unique[OF ok2])
    show "mount_best ms path = 0 \<or> 1 \<le> mount_best ms path \<and> mount_best ms path < ESPIX_FS_MAX_MOUNTS \<and>
        claims (ms2 ! mount_best ms path) path"
      using mount_best_facts(1,2)[OF ok, of path] eq[OF bi] by auto
    show "\<forall>j \<in> {1..<ESPIX_FS_MAX_MOUNTS}. claims (ms2 ! j) path \<longrightarrow> mount_best ms path \<noteq> 0 \<and>
        (l_len (ms2 ! j) < l_len (ms2 ! mount_best ms path) \<or> j = mount_best ms path)"
      using mount_best_facts(3)[OF ok, where path = path] eq eq[OF bi] nc(1) by (metis atLeastLessThan_iff)
  qed
  then show ?thesis using ok2 eq[OF bi] by (simp add: mount_by_path_def Let_def)
qed

lemma not_fds_busy:
  assumes "\<forall>k < length fds. 0 \<le> lower_fd (fds ! k) \<longrightarrow> fd_mount (fds ! k) \<noteq> m" "\<forall>k. lower_fd (beyond k) < 0"
  shows "\<not> fds_busy beyond fds m"
  using assms by (auto simp: fds_busy_def fd_mem_def not_le)

lemma fds_busyI:
  assumes "k < length fds" "length fds \<le> ESPIX_SYNTH_FD_BASE" "0 \<le> lower_fd (fds ! k)" "fd_mount (fds ! k) = m"
  shows "fds_busy beyond fds m"
  using assms by (auto simp: fds_busy_def fd_mem_def intro!: exI[of _ k])

lemma del_mount_idle:
  assumes "find_from 1 (mounted_at p) ms = Some i" "\<not> fds_busy beyond fds (i + 1)" "\<not> dirs_busy ds (i + 1)"
  shows "fst (espix_vfs_del_mount beyond ms fds ds (Some p)) = ESP_OK"
  using assms by (simp add: espix_vfs_del_mount_def)

theorem mount_unmount_roundtrip_witness:
  "\<exists>ms1 ms2. espix_vfs_add_mount tab_ex (Some ''/sd'') (Some 9) META_NONE None 5 5 = (ESP_OK, ms1) \<and>
     espix_vfs_del_mount (\<lambda>_. free_fd) ms1 [] [] (Some ''/sd'') = (ESP_OK, ms2) \<and>
     mount_by_path ms2 ''/sd/a'' = mount_by_path tab_ex ''/sd/a''"
proof -
  obtain ms1 where a: "espix_vfs_add_mount tab_ex (Some ''/sd'') (Some 9) META_NONE None 5 5 = (ESP_OK, ms1)"
    by (simp add: espix_vfs_add_mount_def tab_ex_def mnt_ex_def free_mount_def find_from_def mounted_at_def)
  have ok1: "mounts_ok ms1" using add_mount_ok[OF tab_ex_ok a] .
  obtain i where i: "1 \<le> i" "i < ESPIX_FS_MAX_MOUNTS" "mounted_at ''/sd'' (ms1 ! i)"
    using add_mount_by_path[OF tab_ex_ok a] by metis
  have "fst (espix_vfs_del_mount (\<lambda>_. free_fd) ms1 [] [] (Some ''/sd'')) = ESP_OK"
    by (intro del_mount_idle[OF find_mounted[OF ok1 i]] not_fds_busy) (simp_all add: free_fd_def dirs_busy_def)
  then obtain ms2 where d: "espix_vfs_del_mount (\<lambda>_. free_fd) ms1 [] [] (Some ''/sd'') = (ESP_OK, ms2)"
    by (metis prod.collapse)
  from a d mount_unmount_roundtrip[OF tab_ex_ok a d, of "''/sd/a''"] show ?thesis by blast
qed



section \<open>The descriptor table\<close>

definition fds_ok :: "fd_slot list \<Rightarrow> bool" where
  "fds_ok fds \<longleftrightarrow> length fds = ESPIX_FS_FD_BASE + ESPIX_FS_FD_MAX \<and>
     (\<forall>k < length fds. 0 \<le> lower_fd (fds ! k) \<longrightarrow>
        ESPIX_FS_FD_BASE \<le> k \<and> 1 \<le> refs (fds ! k) \<and> 1 \<le> fd_mount (fds ! k) \<and> fd_mount (fds ! k) \<le> ESPIX_FS_MAX_MOUNTS)"

text \<open>What an open just put in a slot.\<close>

definition fresh_fd :: "fd_slot \<Rightarrow> bool" where
  "fresh_fd s \<longleftrightarrow> 0 \<le> lower_fd s \<and> refs s = 1 \<and> 1 \<le> fd_mount s \<and> fd_mount s \<le> ESPIX_FS_MAX_MOUNTS"

lemma fds_okD:
  assumes "fds_ok fds" "fd_slot_get fds fd = Some s"
  shows "fd_ours fd" "nat fd < length fds" "s = fds ! nat fd" "0 \<le> lower_fd s" "1 \<le> refs s"
    "1 \<le> fd_mount s" "fd_mount s \<le> ESPIX_FS_MAX_MOUNTS"
  using assms by (auto simp: fds_ok_def fd_slot_get_def fd_ours_def split: if_splits)

lemma fds_ok_update:
  assumes "fds_ok fds" "ESPIX_FS_FD_BASE \<le> k" "k < length fds"
    "0 \<le> lower_fd s \<Longrightarrow> 1 \<le> refs s \<and> 1 \<le> fd_mount s \<and> fd_mount s \<le> ESPIX_FS_MAX_MOUNTS"
  shows "fds_ok (fds[k := s])"
  using assms by (auto simp: fds_ok_def nth_list_update)

lemma fd_slot_get_update:
  assumes "fds_ok fds" "ESPIX_FS_FD_BASE \<le> k" "k < length fds"
  shows "fd_slot_get (fds[k := s]) (int j) =
    (if j = k then if 0 \<le> lower_fd s then Some s else None else fd_slot_get fds (int j))"
  using assms by (auto simp: fds_ok_def fd_slot_get_def fd_ours_def nth_list_update)

lemma fd_slot_alloc_Some:
  assumes "fds_ok fds" "fd_slot_alloc fds pid lfd m = Some (fds', k)"
  obtains i where "m = At i" "ESPIX_FS_FD_BASE \<le> k" "k < length fds" "lower_fd (fds ! k) < 0"
    "fds' = fds[k := \<lparr>lower_fd = lfd, fd_mount = i + 1, fd_owner = pid, refs = 1\<rparr>]"
  using assms find_from_Some[of ESPIX_FS_FD_BASE "\<lambda>s. lower_fd s < 0" fds k]
  by (auto simp: fd_slot_alloc_def split: mount_ref.splits option.splits)

interpretation fdt: handle_table
  "\<lambda>fds (v :: fd_slot). fd_slot_alloc fds (fd_owner v) (lower_fd v) (At (fd_mount v - 1))"
  "\<lambda>fds k. fd_slot_free fds (int k)" "\<lambda>fds k. fd_slot_get fds (int k)" fds_ok fresh_fd
proof
  fix t t' and v :: fd_slot and k :: nat
  assume i: "fds_ok t" and a: "fd_slot_alloc t (fd_owner v) (lower_fd v) (At (fd_mount v - 1)) = Some (t', k)"
  from i a obtain m where s: "At (fd_mount v - 1) = At m" "ESPIX_FS_FD_BASE \<le> k" "k < length t" "lower_fd (t ! k) < 0"
    "t' = t[k := \<lparr>lower_fd = lower_fd v, fd_mount = m + 1, fd_owner = fd_owner v, refs = 1\<rparr>]"
    by (rule fd_slot_alloc_Some)
  show "fd_slot_get t (int k) = None" using s by (simp add: fd_slot_get_def)
  assume f: "fresh_fd v"
  then have v: "\<lparr>lower_fd = lower_fd v, fd_mount = m + 1, fd_owner = fd_owner v, refs = 1\<rparr> = v"
    using s(1) by (cases v) (auto simp: fresh_fd_def)
  show "fd_slot_get t' (int j) = (if j = k then Some v else fd_slot_get t (int j))" for j
    using fd_slot_get_update[OF i s(2,3)] s(5) v f by (simp add: fresh_fd_def)
  show "fds_ok t'" unfolding s(5) v using f by (intro fds_ok_update[OF i s(2,3)]) (simp add: fresh_fd_def)
next
  fix t and k :: nat assume i: "fds_ok t"
  have free: "fd_ours (int k) \<Longrightarrow> ESPIX_FS_FD_BASE \<le> k \<and> k < length t" using i by (simp add: fd_ours_def fds_ok_def)
  show "fd_slot_get (fd_slot_free t (int k)) (int j) = (if j = k then None else fd_slot_get t (int j))" for j
    using fd_slot_get_update[OF i, of k free_fd j] free
    by (auto simp: fd_slot_free_def fd_slot_get_def free_fd_def)
  show "fds_ok (fd_slot_free t (int k))"
    using fds_ok_update[OF i, of k free_fd] free i by (auto simp: fd_slot_free_def free_fd_def)
qed

text \<open>
  C25. Two open files never share a number: whatever numbers the filesystems below chose for them,
  even the same one, each of espix's two keys finds its own file and mount, and closing one leaves
  the other in place.
\<close>

theorem fd_alloc_isolated:
  assumes "fds_ok fds" "0 \<le> a" "0 \<le> b" "i < ESPIX_FS_MAX_MOUNTS" "j < ESPIX_FS_MAX_MOUNTS"
    "fd_slot_alloc fds pid a (At i) = Some (fds1, k)" "fd_slot_alloc fds1 pid' b (At j) = Some (fds2, l)"
  shows "k \<noteq> l \<and>
    fd_slot_get fds2 (int k) = Some \<lparr>lower_fd = a, fd_mount = i + 1, fd_owner = pid, refs = 1\<rparr> \<and>
    fd_slot_get fds2 (int l) = Some \<lparr>lower_fd = b, fd_mount = j + 1, fd_owner = pid', refs = 1\<rparr> \<and>
    fd_slot_get (fd_slot_free fds2 (int k)) (int k) = None \<and>
    fd_slot_get (fd_slot_free fds2 (int k)) (int l) = fd_slot_get fds2 (int l)"
proof -
  let ?v = "\<lparr>lower_fd = a, fd_mount = i + 1, fd_owner = pid, refs = 1\<rparr>"
  let ?w = "\<lparr>lower_fd = b, fd_mount = j + 1, fd_owner = pid', refs = 1\<rparr>"
  have v: "fresh_fd ?v" "fresh_fd ?w" using assms(2-5) by (simp_all add: fresh_fd_def)
  have d: "k \<noteq> l \<and> fd_slot_get fds2 (int k) = Some ?v \<and> fd_slot_get fds2 (int l) = Some ?w"
    using fdt.alloc_distinct[OF assms(1) v, of fds1 k fds2 l] assms(6,7) by simp
  have "fds_ok fds1" using fdt.alloc_inv[OF assms(1) v(1)] assms(6) by simp
  then have "fds_ok fds2" using fdt.alloc_inv[OF _ v(2)] assms(7) by simp
  then show ?thesis using d fdt.release_look by simp
qed

lemma fds_ok_init: "fds_ok (replicate 160 free_fd)"
  by (simp add: fds_ok_def free_fd_def)

lemma fd_alloc_replicate:
  "fd_slot_alloc (replicate 160 free_fd) pid a (At i) =
    Some ((replicate 160 free_fd)[128 := \<lparr>lower_fd = a, fd_mount = i + 1, fd_owner = pid, refs = 1\<rparr>], 128)"
  by (simp add: fd_slot_alloc_def find_from_def numeral_eq_Suc free_fd_def)

theorem fd_alloc_isolated_witness:
  "\<exists>fds1 k fds2 l. fd_slot_alloc (replicate 160 free_fd) 5 0 (At 0) = Some (fds1, k) \<and>
     fd_slot_alloc fds1 5 0 (At 1) = Some (fds2, l) \<and> k \<noteq> l"
proof -
  obtain fds1 k where a: "fd_slot_alloc (replicate 160 free_fd) 5 0 (At 0) = Some (fds1, k)"
    by (simp add: fd_alloc_replicate)
  have "lower_fd (fds1 ! 129) < 0" "length fds1 = 160"
    using a unfolding fd_alloc_replicate by (auto simp: free_fd_def)
  then obtain fds2 l where b: "fd_slot_alloc fds1 5 0 (At 1) = Some (fds2, l)"
    by (cases "find_from 128 (\<lambda>s. lower_fd s < 0) fds1") (auto simp: fd_slot_alloc_def find_from_None)
  show ?thesis using fd_alloc_isolated[OF fds_ok_init _ _ _ _ a b] a b by auto
qed

section \<open>The directory map\<close>

definition dirs_ok :: "dir_slot list \<Rightarrow> bool" where
  "dirs_ok ds \<longleftrightarrow> length ds = ESPIX_FS_DIRS \<and>
     (\<forall>i < length ds. (dir_mount (ds ! i) = 0) = (dirp (ds ! i) = 0)) \<and>
     (\<forall>i < length ds. \<forall>j < length ds. dirp (ds ! i) = dirp (ds ! j) \<longrightarrow> dirp (ds ! i) \<noteq> 0 \<longrightarrow> i = j)"

lemma dir_map_set_slot:
  assumes "\<exists>d \<in> set ds. dir_mount d = 0" "p \<notin> dirp ` set ds"
  obtains k where "k < length ds" "dir_mount (ds ! k) = 0" "dir_map_set ds p i = ds[k := \<lparr>dirp = p, dir_mount = i + 1\<rparr>]"
proof (cases "find_slot (\<lambda>d. dirp d = p \<or> dir_mount d = 0) ds")
  case None
  then show ?thesis using assms(1) by (auto simp: find_slot_None)
next
  case (Some k)
  note f = find_slot_Some[OF Some]
  then have "dirp (ds ! k) \<noteq> p" using assms(2) by (metis image_eqI nth_mem)
  with f Some that[of k] show ?thesis by (simp add: dir_map_set_def)
qed

lemma dir_map_set_found:
  assumes "dirs_ok ds" "p \<noteq> 0" "\<exists>d \<in> set ds. dir_mount d = 0" "p \<notin> dirp ` set ds"
  shows "mount_by_dir (dir_map_set ds p i) p = Some (At i)"
    "q \<noteq> p \<Longrightarrow> mount_by_dir (dir_map_set ds p i) q = mount_by_dir ds q"
    "dir_map_clear (dir_map_set ds p i) p = ds"
proof -
  obtain k where k: "k < length ds" "dir_mount (ds ! k) = 0" "dir_map_set ds p i = ds[k := \<lparr>dirp = p, dir_mount = i + 1\<rparr>]"
    using dir_map_set_slot[OF assms(3,4)] by blast
  have np: "j < length ds \<Longrightarrow> dirp (ds ! j) \<noteq> p" for j using assms(4) by (metis image_eqI nth_mem)
  have "find_slot (\<lambda>d. dirp d = p \<and> dir_mount d \<noteq> 0) (dir_map_set ds p i) = Some k"
    using k np by (auto simp: find_slot_Some_iff nth_list_update)
  then show "mount_by_dir (dir_map_set ds p i) p = Some (At i)" using k by (simp add: mount_by_dir_def)
  have "find_slot (\<lambda>d. dirp d = p) (dir_map_set ds p i) = Some k"
    using k np by (auto simp: find_slot_Some_iff nth_list_update)
  moreover have "ds ! k = \<lparr>dirp = 0, dir_mount = 0\<rparr>" using assms(1) k(1,2) by (cases "ds ! k") (auto simp: dirs_ok_def)
  ultimately show "dir_map_clear (dir_map_set ds p i) p = ds"
    using k by (simp add: dir_map_clear_def list_update_same_conv)
  assume q: "q \<noteq> p"
  have "find_slot (\<lambda>d. dirp d = q \<and> dir_mount d \<noteq> 0) (dir_map_set ds p i) = find_slot (\<lambda>d. dirp d = q \<and> dir_mount d \<noteq> 0) ds"
    unfolding k(3) using k q by (intro find_slot_cong) (auto simp: nth_list_update)
  moreover have "j \<noteq> k" if "find_slot (\<lambda>d. dirp d = q \<and> dir_mount d \<noteq> 0) ds = Some j" for j
    using find_slot_Some[OF that] k(2) by auto
  ultimately show "mount_by_dir (dir_map_set ds p i) q = mount_by_dir ds q"
    using k(3) by (auto simp: mount_by_dir_def split: option.split)
qed

lemma dir_map_full:
  assumes "\<forall>d \<in> set ds. dir_mount d \<noteq> 0" "p \<notin> dirp ` set ds"
  shows "dir_map_set ds p i = ds" "mount_by_dir ds p = None"
proof -
  have "find_slot (\<lambda>d. dirp d = p \<or> dir_mount d = 0) ds = None" "find_slot (\<lambda>d. dirp d = p \<and> dir_mount d \<noteq> 0) ds = None"
    using assms by (auto simp: find_slot_None)
  then show "dir_map_set ds p i = ds" "mount_by_dir ds p = None"
    by (simp_all add: dir_map_set_def mount_by_dir_def)
qed

end
