(* ===== verification/Fs_Synth.thy ===== *)
theory Fs_Synth
  imports Fs_Path
begin

text \<open>
  \<^verbatim>\<open>components/espix_fs/synth.c\<close>: the trees whose files are not on any disk
  (\<^verbatim>\<open>/dev\<close>, \<^verbatim>\<open>/proc\<close>). Path classification, the table of open synthetic files with
  their positions, reading and seeking, and directory listing.

  A tree is a table of nodes and the optional callbacks of \<^verbatim>\<open>dev.c\<close> and \<^verbatim>\<open>proc.c\<close>.
  The flash partitions a node may show are ESP-IDF's: \<open>app\<close> maps a subtype to the partition's
  size and its read function. Offsets and sizes are integers: they stay below \<open>2^31\<close> on the target.
\<close>

section \<open>The code\<close>

abbreviation ESPIX_SYNTH_FD_COUNT :: nat where "ESPIX_SYNTH_FD_COUNT \<equiv> 16"
abbreviation ESPIX_SYNTH_DIR_MAX :: nat where "ESPIX_SYNTH_DIR_MAX \<equiv> 8"
abbreviation ESPIX_SYNTH_TREES_MAX :: nat where "ESPIX_SYNTH_TREES_MAX \<equiv> 4"
abbreviation SYNTH_BASE :: nat where "SYNTH_BASE \<equiv> 240"
abbreviation SYNTH_TEXT_MAX :: nat where "SYNTH_TEXT_MAX \<equiv> 512"
abbreviation SYNTH_PATH_MAX :: nat where "SYNTH_PATH_MAX \<equiv> 32"

datatype synth_kind = SYNTH_NULL | SYNTH_APP | SYNTH_BLOCK | SYNTH_TEXT | SYNTH_DIR

text \<open>\<open>n_gen cap\<close> is what the node's generator writes into a buffer of \<open>cap\<close> bytes
  (\<^verbatim>\<open>gen_key\<close> with its key, or \<^verbatim>\<open>gen\<close>); \<open>None\<close> when it has neither.\<close>

record synth_node =
  n_path :: string
  n_kind :: synth_kind
  n_mode :: u32
  n_size :: nat
  n_subtype :: nat
  n_gen :: "(nat \<Rightarrow> string) option"

record synth_tree =
  t_prefix :: string
  t_nodes :: "synth_node list"
  dyn_at :: "(int \<Rightarrow> synth_node option) option"
  dyn_lookup :: "(string \<Rightarrow> synth_node option) option"
  dyn_isdir :: "(string \<Rightarrow> bool) option"
  dyn_dir_at :: "string \<Rightarrow> int \<Rightarrow> synth_node option"

record partition =
  p_size :: nat
  p_read :: "nat \<Rightarrow> nat \<Rightarrow> string option"

record synth_slot =
  s_node :: "synth_node option"
  s_pos :: int

record synth_dir =
  d_tree :: "synth_tree option"
  d_cursor :: int
  d_in_use :: bool
  d_path :: string

type_synonym apps = "nat \<Rightarrow> partition option"

definition espix_synth_register_tree :: "synth_tree list \<Rightarrow> synth_tree option \<Rightarrow> synth_tree list" where
  "espix_synth_register_tree trees tree =
     (case tree of
        None \<Rightarrow> trees
      | Some t \<Rightarrow> if ESPIX_SYNTH_TREES_MAX \<le> length trees then trees else trees @ [t])"

definition app_of :: "apps \<Rightarrow> synth_node \<Rightarrow> partition option" where
  "app_of app n = (if n_kind n \<noteq> SYNTH_APP then None else app (n_subtype n))"

definition dir_tree :: "synth_tree list \<Rightarrow> string \<Rightarrow> synth_tree option" where
  "dir_tree trees path = find (\<lambda>t. path = t_prefix t) trees"

text \<open>\<^verbatim>\<open>prefix_len\<close> is the length of \<^verbatim>\<open>prefix\<close> in every tree.\<close>

definition under_tree :: "synth_tree list \<Rightarrow> string \<Rightarrow> synth_tree option" where
  "under_tree trees path =
     find (\<lambda>t. starts_with path (t_prefix t) \<and> cchar path (length (t_prefix t)) = CHR ''/'') trees"

definition espix_synth_lookup :: "apps \<Rightarrow> synth_tree list \<Rightarrow> string \<Rightarrow> synth_node option" where
  "espix_synth_lookup app trees path =
     (case under_tree trees path of
        None \<Rightarrow> None
      | Some tr \<Rightarrow>
          (case find (\<lambda>n. path = n_path n) (t_nodes tr) of
             Some n \<Rightarrow> if n_kind n = SYNTH_APP \<and> Option.is_none (app_of app n) then None else Some n
           | None \<Rightarrow> (case dyn_lookup tr of Some f \<Rightarrow> f path | None \<Rightarrow> None)))"

definition subdir_tree :: "synth_tree list \<Rightarrow> string \<Rightarrow> synth_tree option" where
  "subdir_tree trees path =
     (case under_tree trees path of
        None \<Rightarrow> None
      | Some tr \<Rightarrow> (case dyn_isdir tr of Some f \<Rightarrow> if f path then Some tr else None | None \<Rightarrow> None))"

definition espix_synth_isdir :: "synth_tree list \<Rightarrow> string \<Rightarrow> bool" where
  "espix_synth_isdir trees path \<longleftrightarrow> \<not> Option.is_none (dir_tree trees path) \<or> \<not> Option.is_none (subdir_tree trees path)"

definition espix_synth_under :: "synth_tree list \<Rightarrow> string \<Rightarrow> bool" where
  "espix_synth_under trees path \<longleftrightarrow> \<not> Option.is_none (under_tree trees path)"

definition node_size :: "apps \<Rightarrow> synth_node \<Rightarrow> int" where
  "node_size app n =
     (case n_kind n of
        SYNTH_BLOCK \<Rightarrow> int (n_size n)
      | SYNTH_APP \<Rightarrow> (case app_of app n of Some p \<Rightarrow> int (p_size p) | None \<Rightarrow> 0)
      | _ \<Rightarrow> 0)"

definition espix_synth_mode :: "apps \<Rightarrow> synth_tree list \<Rightarrow> string \<Rightarrow> u32 option" where
  "espix_synth_mode app trees path =
     (case espix_synth_lookup app trees path of
        None \<Rightarrow> None
      | Some n \<Rightarrow> Some (n_mode n AND ESPIX_MODE_BITS))"

text \<open>The access mode of the flags (\<^verbatim>\<open>O_RDONLY\<close> 0, \<^verbatim>\<open>O_WRONLY\<close> 1, \<^verbatim>\<open>O_RDWR\<close> 2).\<close>

definition espix_synth_open ::
  "synth_slot list \<Rightarrow> synth_node \<Rightarrow> u32 \<Rightarrow> errno + (synth_slot list \<times> nat)" where
  "espix_synth_open slots n flags =
     (if n_kind n = SYNTH_BLOCK then Inl EOPNOTSUPP
      else if (n_kind n = SYNTH_APP \<or> n_kind n = SYNTH_TEXT) \<and>
              (flags AND 3 = 1 \<or> flags AND 3 = 2) then Inl EROFS
      else (case find_slot (\<lambda>s. Option.is_none (s_node s)) slots of
              Some i \<Rightarrow> Inr (slots[i := \<lparr>s_node = Some n, s_pos = 0\<rparr>], SYNTH_BASE + i)
            | None \<Rightarrow> Inl EMFILE))"

definition slot_of :: "synth_slot list \<Rightarrow> int \<Rightarrow> (nat \<times> synth_node \<times> int) option" where
  "slot_of slots fd =
     (let i = fd - int SYNTH_BASE in
      if i < 0 \<or> int ESPIX_SYNTH_FD_COUNT \<le> i then None
      else (case s_node (slots ! nat i) of
              None \<Rightarrow> None
            | Some n \<Rightarrow> Some (nat i, n, s_pos (slots ! nat i))))"

definition espix_synth_close :: "synth_slot list \<Rightarrow> int \<Rightarrow> (errno + unit) \<times> synth_slot list" where
  "espix_synth_close slots fd =
     (case slot_of slots fd of
        None \<Rightarrow> (Inl EBADF, slots)
      | Some (i, n, pos) \<Rightarrow> (Inr (), slots[i := \<lparr>s_node = None, s_pos = 0\<rparr>]))"

text \<open>The part of a text of \<open>len\<close> bytes that a read of \<open>sz\<close> at \<open>off\<close> gets.\<close>

definition want_of :: "int \<Rightarrow> nat \<Rightarrow> int \<Rightarrow> nat" where
  "want_of len sz off = (if len < off + int sz then nat (len - off) else sz)"

definition read_at :: "apps \<Rightarrow> synth_node \<Rightarrow> nat \<Rightarrow> int \<Rightarrow> errno + string" where
  "read_at app n sz off =
     (if n_kind n = SYNTH_NULL then Inr []
      else if n_kind n = SYNTH_TEXT then
        (let buf = (case n_gen n of Some g \<Rightarrow> g SYNTH_TEXT_MAX | None \<Rightarrow> []) in
         if off < 0 \<or> int (length buf) \<le> off then Inr []
         else Inr (take (want_of (int (length buf)) sz off) (drop (nat off) buf)))
      else (case app_of app n of
              None \<Rightarrow> Inl EIO
            | Some p \<Rightarrow>
                if off < 0 \<or> int (p_size p) \<le> off then Inr []
                else (case p_read p (nat off) (want_of (int (p_size p)) sz off) of
                        None \<Rightarrow> Inl EIO
                      | Some bs \<Rightarrow> Inr bs)))"

definition espix_synth_read ::
  "apps \<Rightarrow> synth_slot list \<Rightarrow> int \<Rightarrow> nat \<Rightarrow> (errno + string) \<times> synth_slot list" where
  "espix_synth_read app slots fd sz =
     (case slot_of slots fd of
        None \<Rightarrow> (Inl EBADF, slots)
      | Some (i, n, pos) \<Rightarrow>
          (case read_at app n sz pos of
             Inl e \<Rightarrow> (Inl e, slots)
           | Inr bs \<Rightarrow> (Inr bs, if bs = [] then slots
                                 else slots[i := \<lparr>s_node = Some n, s_pos = pos + int (length bs)\<rparr>])))"

definition espix_synth_pread ::
  "apps \<Rightarrow> synth_slot list \<Rightarrow> int \<Rightarrow> nat \<Rightarrow> int \<Rightarrow> errno + string" where
  "espix_synth_pread app slots fd sz off =
     (case slot_of slots fd of
        None \<Rightarrow> Inl EBADF
      | Some (i, n, pos) \<Rightarrow> read_at app n sz off)"

definition espix_synth_write :: "synth_slot list \<Rightarrow> int \<Rightarrow> string \<Rightarrow> errno + nat" where
  "espix_synth_write slots fd data =
     (case slot_of slots fd of
        None \<Rightarrow> Inl EBADF
      | Some (i, n, pos) \<Rightarrow> if n_kind n \<noteq> SYNTH_NULL then Inl EROFS else Inr (length data))"

datatype whence = SEEK_SET | SEEK_CUR | SEEK_END | SEEK_OTHER

definition espix_synth_lseek ::
  "apps \<Rightarrow> synth_slot list \<Rightarrow> int \<Rightarrow> int \<Rightarrow> whence \<Rightarrow> (errno + int) \<times> synth_slot list" where
  "espix_synth_lseek app slots fd off wh =
     (case slot_of slots fd of
        None \<Rightarrow> (Inl EBADF, slots)
      | Some (i, n, pos) \<Rightarrow>
          (case (case wh of
                   SEEK_SET \<Rightarrow> Some off
                 | SEEK_CUR \<Rightarrow> Some (pos + off)
                 | SEEK_END \<Rightarrow> Some (node_size app n + off)
                 | SEEK_OTHER \<Rightarrow> None) of
             None \<Rightarrow> (Inl EINVAL, slots)
           | Some to \<Rightarrow> if to < 0 then (Inl EINVAL, slots)
                        else (Inr to, slots[i := \<lparr>s_node = Some n, s_pos = to\<rparr>])))"

definition espix_synth_fsync :: "synth_slot list \<Rightarrow> int \<Rightarrow> errno + unit" where
  "espix_synth_fsync slots fd = (if Option.is_none (slot_of slots fd) then Inl EBADF else Inr ())"

text \<open>A directory handle of this file is the index of its slot.\<close>

definition dir_of :: "synth_dir list \<Rightarrow> nat \<Rightarrow> synth_dir option" where
  "dir_of dirs i = (if i < length dirs \<and> d_in_use (dirs ! i) then Some (dirs ! i) else None)"

definition synth_dir_alloc ::
  "synth_dir list \<Rightarrow> synth_tree \<Rightarrow> string \<Rightarrow> errno + (synth_dir list \<times> nat)" where
  "synth_dir_alloc dirs tr path =
     (case find_slot (\<lambda>d. \<not> d_in_use d) dirs of
        Some i \<Rightarrow> Inr (dirs[i := \<lparr>d_tree = Some tr, d_cursor = 0, d_in_use = True,
                              d_path = strlcpy SYNTH_PATH_MAX path\<rparr>], i)
      | None \<Rightarrow> Inl ENFILE)"

definition espix_synth_opendir ::
  "synth_tree list \<Rightarrow> synth_dir list \<Rightarrow> string option \<Rightarrow> errno + (synth_dir list \<times> nat)" where
  "espix_synth_opendir trees dirs path =
     (case path of
        None \<Rightarrow> Inl ENOTDIR
      | Some p \<Rightarrow>
          (case dir_tree trees p of
             Some tr \<Rightarrow> synth_dir_alloc dirs tr []
           | None \<Rightarrow>
               (case subdir_tree trees p of
                  None \<Rightarrow> Inl ENOTDIR
                | Some sub \<Rightarrow> if SYNTH_PATH_MAX \<le> length p then Inl ENAMETOOLONG
                              else synth_dir_alloc dirs sub p)))"

text \<open>The static part of a listing: the first node from the cursor on whose partition exists, and the
  cursor after it.\<close>

function next_static :: "apps \<Rightarrow> synth_node list \<Rightarrow> int \<Rightarrow> synth_node option \<times> int" where
  "next_static app nodes c =
     (if c < int (length nodes) then
        (let cand = nodes ! nat c in
         if n_kind cand = SYNTH_APP \<and> Option.is_none (app_of app cand) then next_static app nodes (c + 1)
         else (Some cand, c + 1))
      else (None, c))"
  by pat_completeness auto
termination by (relation "measure (\<lambda>(app, nodes, c). nat (int (length nodes) - c))") auto

datatype dirent_type = DT_CHR | DT_BLK | DT_DIR | DT_REG

definition node_dirent :: "synth_node \<Rightarrow> string \<times> dirent_type" where
  "node_dirent n =
     ((case strrchr (n_path n) (CHR ''/'') of Some i \<Rightarrow> drop (Suc i) (n_path n) | None \<Rightarrow> n_path n),
      (case n_kind n of SYNTH_NULL \<Rightarrow> DT_CHR | SYNTH_BLOCK \<Rightarrow> DT_BLK | SYNTH_DIR \<Rightarrow> DT_DIR | _ \<Rightarrow> DT_REG))"

definition readdir_node :: "apps \<Rightarrow> synth_dir \<Rightarrow> synth_tree \<Rightarrow> synth_node option \<times> int" where
  "readdir_node app d tr =
     (if d_path d \<noteq> [] then
        (case dyn_dir_at tr (d_path d) (d_cursor d) of
           Some n \<Rightarrow> (Some n, d_cursor d + 1)
         | None \<Rightarrow> (None, d_cursor d))
      else
        (case next_static app (t_nodes tr) (d_cursor d) of
           (Some n, c) \<Rightarrow> (Some n, c)
         | (None, c) \<Rightarrow>
             (case dyn_at tr of
                None \<Rightarrow> (None, c)
              | Some f \<Rightarrow> (case f (c - int (length (t_nodes tr))) of
                             Some n \<Rightarrow> (Some n, c + 1)
                           | None \<Rightarrow> (None, c)))))"

definition espix_synth_readdir_r ::
  "apps \<Rightarrow> synth_dir list \<Rightarrow> nat \<Rightarrow> (errno + (string \<times> dirent_type) option) \<times> synth_dir list" where
  "espix_synth_readdir_r app dirs i =
     (case dir_of dirs i of
        None \<Rightarrow> (Inl EBADF, dirs)
      | Some d \<Rightarrow>
          (case d_tree d of
             None \<Rightarrow> (Inl EBADF, dirs)
           | Some tr \<Rightarrow>
               (let (n, c) = readdir_node app d tr in
                (Inr (map_option node_dirent n), dirs[i := d\<lparr>d_cursor := c\<rparr>]))))"

definition espix_synth_telldir :: "synth_dir list \<Rightarrow> nat \<Rightarrow> int" where
  "espix_synth_telldir dirs i = (case dir_of dirs i of Some d \<Rightarrow> d_cursor d | None \<Rightarrow> -1)"

definition espix_synth_seekdir :: "synth_dir list \<Rightarrow> nat \<Rightarrow> int \<Rightarrow> synth_dir list" where
  "espix_synth_seekdir dirs i off =
     (case dir_of dirs i of
        Some d \<Rightarrow> if 0 \<le> off then dirs[i := d\<lparr>d_cursor := off\<rparr>] else dirs
      | None \<Rightarrow> dirs)"

definition espix_synth_closedir :: "synth_dir list \<Rightarrow> nat \<Rightarrow> (errno + unit) \<times> synth_dir list" where
  "espix_synth_closedir dirs i =
     (case dir_of dirs i of
        None \<Rightarrow> (Inl EBADF, dirs)
      | Some d \<Rightarrow> (Inr (), dirs[i := d\<lparr>d_in_use := False, d_cursor := 0, d_tree := None\<rparr>]))"

section \<open>The table of open files\<close>

definition slots_ok :: "synth_slot list \<Rightarrow> bool" where
  "slots_ok slots \<longleftrightarrow> length slots = ESPIX_SYNTH_FD_COUNT"

definition synth_alloc :: "synth_slot list \<Rightarrow> synth_slot \<Rightarrow> (synth_slot list \<times> nat) option" where
  "synth_alloc slots v =
     (case s_node v of
        None \<Rightarrow> None
      | Some n \<Rightarrow> (case espix_synth_open slots n 0 of Inr r \<Rightarrow> Some r | Inl _ \<Rightarrow> None))"

definition synth_look :: "synth_slot list \<Rightarrow> nat \<Rightarrow> synth_slot option" where
  "synth_look slots k = map_option (\<lambda>(i, n, pos). \<lparr>s_node = Some n, s_pos = pos\<rparr>) (slot_of slots (int k))"

lemma synth_open_Inr:
  assumes "espix_synth_open slots n fl = Inr (slots', k)"
  obtains i where "i < length slots" "s_node (slots ! i) = None" "k = SYNTH_BASE + i"
    "slots' = slots[i := \<lparr>s_node = Some n, s_pos = 0\<rparr>]"
  using assms find_slot_Some[of "\<lambda>s. Option.is_none (s_node s)" slots]
  by (auto simp: espix_synth_open_def Option.is_none_def split: option.splits if_splits)

lemma slot_of_int:
  "slot_of slots (int j) = (if SYNTH_BASE \<le> j \<and> j < SYNTH_BASE + ESPIX_SYNTH_FD_COUNT
     then map_option (\<lambda>n. (j - SYNTH_BASE, n, s_pos (slots ! (j - SYNTH_BASE)))) (s_node (slots ! (j - SYNTH_BASE)))
     else None)"
proof (cases "SYNTH_BASE \<le> j")
  case True
  then obtain k where "j = SYNTH_BASE + k" using le_Suc_ex by blast
  then show ?thesis by (auto simp: slot_of_def Let_def split: option.split)
qed (simp add: slot_of_def)

lemma slot_of_update:
  assumes "slots_ok slots" "i < ESPIX_SYNTH_FD_COUNT"
  shows "slot_of (slots[i := s]) (int j) =
    (if j = SYNTH_BASE + i then map_option (\<lambda>n. (i, n, s_pos s)) (s_node s) else slot_of slots (int j))"
proof (cases "j = SYNTH_BASE + i")
  case True
  then show ?thesis unfolding slot_of_int using assms by (simp add: slots_ok_def)
next
  case False
  then have "slots[i := s] ! (j - SYNTH_BASE) = slots ! (j - SYNTH_BASE)" if "SYNTH_BASE \<le> j" using that by auto
  with False show ?thesis unfolding slot_of_int by auto
qed

lemma slot_of_Some:
  assumes "slot_of slots fd = Some (i, n, pos)"
  shows "i < ESPIX_SYNTH_FD_COUNT" "fd = int (SYNTH_BASE + i)" "s_node (slots ! i) = Some n" "s_pos (slots ! i) = pos"
  using assms by (auto simp: slot_of_def Let_def split: option.splits if_splits)

interpretation synth_table: handle_table synth_alloc "\<lambda>slots k. snd (espix_synth_close slots (int k))"
  synth_look slots_ok "\<lambda>v. s_pos v = 0"
proof
  fix t t' v k
  assume i: "slots_ok t" and a: "synth_alloc t v = Some (t', k)"
  then obtain n where n: "s_node v = Some n" "espix_synth_open t n 0 = Inr (t', k)"
    by (auto simp: synth_alloc_def split: option.splits sum.splits)
  obtain m where m: "m < length t" "s_node (t ! m) = None" "k = SYNTH_BASE + m"
    "t' = t[m := \<lparr>s_node = Some n, s_pos = 0\<rparr>]"
    using synth_open_Inr[OF n(2)] by blast
  show "synth_look t k = None" unfolding synth_look_def slot_of_int using m by simp
  assume v: "s_pos v = 0"
  have m16: "m < ESPIX_SYNTH_FD_COUNT" using m(1) i by (simp add: slots_ok_def)
  show "synth_look t' j = (if j = k then Some v else synth_look t j)" for j
    using slot_of_update[OF i m16, of _ j] m(3,4) n(1) v by (cases v) (simp add: synth_look_def)
  show "slots_ok t'" using i m(4) by (simp add: slots_ok_def)
next
  fix t k assume i: "slots_ok t"
  show "synth_look (snd (espix_synth_close t (int k))) j = (if j = k then None else synth_look t j)" for j
  proof (cases "slot_of t (int k)")
    case None
    then show ?thesis by (simp add: espix_synth_close_def synth_look_def)
  next
    case (Some r)
    obtain m n pos where r: "r = (m, n, pos)" by (cases r)
    note f = slot_of_Some[OF Some[unfolded r]]
    show ?thesis
      using slot_of_update[OF i f(1), of _ j] f(2) Some r by (auto simp: espix_synth_close_def synth_look_def)
  qed
  show "slots_ok (snd (espix_synth_close t (int k)))"
    using i by (auto simp: espix_synth_close_def slots_ok_def split: option.split)
qed

section \<open>Reading\<close>

text \<open>The bytes a series of reads of the given sizes returns.\<close>

fun reads :: "apps \<Rightarrow> synth_slot list \<Rightarrow> int \<Rightarrow> nat list \<Rightarrow> string" where
  "reads app slots fd [] = []"
| "reads app slots fd (sz # szs) =
     (case espix_synth_read app slots fd sz of
        (Inl e, slots') \<Rightarrow> reads app slots' fd szs
      | (Inr bs, slots') \<Rightarrow> bs @ reads app slots' fd szs)"

lemma read_at_text:
  assumes "n_kind n = SYNTH_TEXT" "n_gen n = Some g" "0 \<le> pos"
  shows "read_at app n sz pos = Inr (take sz (drop (nat pos) (g SYNTH_TEXT_MAX)))"
  using assms by (auto simp: read_at_def want_of_def Let_def not_le)

lemma synth_read_text:
  assumes "slots_ok slots" "slot_of slots fd = Some (i, n, pos)" "n_kind n = SYNTH_TEXT" "n_gen n = Some g" "0 \<le> pos"
  shows "\<exists>slots'. espix_synth_read app slots fd sz = (Inr (take sz (drop (nat pos) (g SYNTH_TEXT_MAX))), slots') \<and>
    slots_ok slots' \<and> slot_of slots' fd = Some (i, n, pos + int (length (take sz (drop (nat pos) (g SYNTH_TEXT_MAX)))))"
proof -
  note f = slot_of_Some[OF assms(2)]
  define bs where "bs = take sz (drop (nat pos) (g SYNTH_TEXT_MAX))"
  define s where "s = slots[i := \<lparr>s_node = Some n, s_pos = pos + int (length bs)\<rparr>]"
  have r: "espix_synth_read app slots fd sz = (Inr bs, if bs = [] then slots else s)"
    using assms(2) read_at_text[OF assms(3-5)] by (simp add: espix_synth_read_def bs_def s_def)
  have "slot_of s fd = Some (i, n, pos + int (length bs))" "slots_ok s"
    using slot_of_update[OF assms(1) f(1), of _ "SYNTH_BASE + i"] f(2) assms(1)
    by (simp_all add: s_def slots_ok_def)
  with r assms(1,2) show ?thesis unfolding bs_def[symmetric] by (cases "bs = []") auto
qed

lemma reads_text:
  assumes "slots_ok slots" "slot_of slots fd = Some (i, n, pos)" "n_kind n = SYNTH_TEXT" "n_gen n = Some g" "0 \<le> pos"
  shows "reads app slots fd szs = take (sum_list szs) (drop (nat pos) (g SYNTH_TEXT_MAX))"
  using assms
proof (induction szs arbitrary: slots pos)
  case (Cons sz szs)
  let ?d = "drop (nat pos) (g SYNTH_TEXT_MAX)"
  obtain slots' where s: "espix_synth_read app slots fd sz = (Inr (take sz ?d), slots')"
    "slots_ok slots'" "slot_of slots' fd = Some (i, n, pos + int (length (take sz ?d)))"
    using synth_read_text[OF Cons.prems] by blast
  have "reads app slots' fd szs = take (sum_list szs) (drop (length (take sz ?d)) ?d)"
    using Cons.IH[OF s(2,3) Cons.prems(3,4)] Cons.prems(5) by (simp add: nat_add_distrib add.commute)
  also have "\<dots> = take (sum_list szs) (drop sz ?d)" by (cases "sz \<le> length ?d") (simp_all add: min_def)
  finally show ?case using s(1) by (simp add: take_add)
qed simp

text \<open>
  Reading a synthetic text file from its start gives the text, however the reader slices it:
  after any series of reads the bytes returned are that many first bytes of what the generator
  produces (all of it, once the sizes add up to its length), and further reads return nothing.
\<close>

theorem synth_reads_text:
  assumes "slots_ok slots" "espix_synth_open slots n fl = Inr (slots', fd)" "n_kind n = SYNTH_TEXT" "n_gen n = Some g"
  shows "reads app slots' (int fd) szs = take (sum_list szs) (g SYNTH_TEXT_MAX)"
proof -
  obtain i where i: "i < length slots" "fd = SYNTH_BASE + i" "slots' = slots[i := \<lparr>s_node = Some n, s_pos = 0\<rparr>]"
    using synth_open_Inr[OF assms(2)] by blast
  then have "slot_of slots' (int fd) = Some (i, n, 0)"
    using slot_of_update[OF assms(1), of i _ fd] assms(1) by (simp add: slots_ok_def)
  moreover have "slots_ok slots'" using assms(1) i(3) by (simp add: slots_ok_def)
  ultimately show ?thesis using reads_text[of slots' "int fd" i n 0 g app szs] assms(3,4) by simp
qed

definition node_ex :: synth_node where
  "node_ex = \<lparr>n_path = ''/proc/version'', n_kind = SYNTH_TEXT, n_mode = 0x8124, n_size = 0, n_subtype = 0,
     n_gen = Some (\<lambda>_. ''espix 1'')\<rparr>"

theorem synth_reads_text_witness:
  "\<exists>slots' fd. espix_synth_open (replicate 16 \<lparr>s_node = None, s_pos = 0\<rparr>) node_ex 0 = Inr (slots', fd) \<and>
     reads (\<lambda>_. None) slots' (int fd) [3, 0, 9, 4] = ''espix 1''"
proof -
  obtain slots' fd where o: "espix_synth_open (replicate 16 \<lparr>s_node = None, s_pos = 0\<rparr>) node_ex 0 = Inr (slots', fd)"
    by (simp add: espix_synth_open_def node_ex_def numeral_eq_Suc)
  have "reads (\<lambda>_. None) slots' (int fd) [3, 0, 9, 4] = take (sum_list [3, 0, 9, 4]) ''espix 1''"
    using synth_reads_text[OF _ o, of "\<lambda>_. ''espix 1''" "\<lambda>_. None" "[3, 0, 9, 4]"] by (simp add: slots_ok_def node_ex_def)
  with o show ?thesis by simp
qed

section \<open>Listing\<close>

declare next_static.simps [simp del]

fun listing :: "apps \<Rightarrow> synth_dir list \<Rightarrow> nat \<Rightarrow> nat \<Rightarrow> (string \<times> dirent_type) list" where
  "listing app dirs i 0 = []"
| "listing app dirs i (Suc k) =
     (case espix_synth_readdir_r app dirs i of
        (Inr (Some e), dirs') \<Rightarrow> e # listing app dirs' i k
      | _ \<Rightarrow> [])"

definition visible :: "apps \<Rightarrow> synth_node list \<Rightarrow> synth_node list" where
  "visible app nodes = filter (\<lambda>n. \<not> (n_kind n = SYNTH_APP \<and> Option.is_none (app_of app n))) nodes"

text \<open>\<open>es\<close> are the nodes the tree's \<^verbatim>\<open>dyn_at\<close> callback enumerates.\<close>

definition dyn_list :: "synth_tree \<Rightarrow> synth_node list \<Rightarrow> bool" where
  "dyn_list tr es \<longleftrightarrow> (case dyn_at tr of
      None \<Rightarrow> es = []
    | Some f \<Rightarrow> \<forall>k. f (int k) = (if k < length es then Some (es ! k) else None))"

definition remaining :: "apps \<Rightarrow> synth_node list \<Rightarrow> synth_node list \<Rightarrow> nat \<Rightarrow> synth_node list" where
  "remaining app nodes es c = visible app (drop c nodes) @ drop (c - length nodes) es"

lemma next_static_visible:
  "c \<le> length nodes \<Longrightarrow>
   (case visible app (drop c nodes) of
      [] \<Rightarrow> next_static app nodes (int c) = (None, int (length nodes))
    | x # xs \<Rightarrow> \<exists>c' \<le> length nodes. next_static app nodes (int c) = (Some x, int c') \<and> visible app (drop c' nodes) = xs)"
proof (induction "length nodes - c" arbitrary: c)
  case 0
  then show ?case by (simp add: visible_def next_static.simps)
next
  case (Suc m)
  then have c: "c < length nodes" by simp
  let ?n = "nodes ! c"
  have d: "drop c nodes = ?n # drop (Suc c) nodes" using c by (simp add: Cons_nth_drop_Suc)
  show ?case
  proof (cases "n_kind ?n = SYNTH_APP \<and> Option.is_none (app_of app ?n)")
    case True
    then have "next_static app nodes (int c) = next_static app nodes (int (Suc c))"
      using c by (subst next_static.simps) (simp add: add.commute)
    moreover have "visible app (drop c nodes) = visible app (drop (Suc c) nodes)" using True d by (simp add: visible_def)
    moreover have "m = length nodes - Suc c" "Suc c \<le> length nodes" using Suc.hyps(2) c by simp_all
    ultimately show ?thesis using Suc.hyps(1)[of "Suc c"] by (simp only:)
  next
    case False
    then have "next_static app nodes (int c) = (Some ?n, int (Suc c))"
      using c by (subst next_static.simps) (auto simp: add.commute)
    moreover have "visible app (drop c nodes) = ?n # visible app (drop (Suc c) nodes)" using False d by (simp add: visible_def)
    ultimately show ?thesis using c by (auto intro!: exI[of _ "Suc c"])
  qed
qed

lemma next_static_past: "length nodes \<le> c \<Longrightarrow> next_static app nodes (int c) = (None, int c)"
  by (simp add: next_static.simps)

lemma remaining_past: "length nodes \<le> q \<Longrightarrow> remaining app nodes es q = drop (q - length nodes) es"
  by (simp add: remaining_def visible_def)

lemma readdir_node_dyn:
  assumes "d_path d = []" "dyn_list tr es" "length (t_nodes tr) \<le> e"
    "next_static app (t_nodes tr) (d_cursor d) = (None, int e)"
  shows "\<exists>c'. readdir_node app d tr =
      (case drop (e - length (t_nodes tr)) es of [] \<Rightarrow> None | x # xs \<Rightarrow> Some x, int c') \<and>
    remaining app (t_nodes tr) es c' = tl (drop (e - length (t_nodes tr)) es)"
proof (cases "dyn_at tr")
  case None
  then have "readdir_node app d tr = (None, int e)" "es = []"
    using assms by (simp_all add: readdir_node_def dyn_list_def)
  then show ?thesis using remaining_past[OF assms(3), of app es] by (intro exI[of _ e]) simp
next
  case (Some f)
  define k where "k = e - length (t_nodes tr)"
  have k: "int e - int (length (t_nodes tr)) = int k" using assms(3) by (simp add: k_def)
  have f: "f (int k) = (if k < length es then Some (es ! k) else None)"
    using assms(2) Some by (simp add: dyn_list_def)
  show ?thesis
  proof (cases "k < length es")
    case True
    then have "readdir_node app d tr = (Some (es ! k), int (Suc e))"
      using assms Some f k by (simp add: readdir_node_def)
    moreover have "drop k es = es ! k # drop (Suc k) es" using True by (simp add: Cons_nth_drop_Suc)
    moreover have "remaining app (t_nodes tr) es (Suc e) = drop (Suc k) es"
      using remaining_past[of "t_nodes tr" "Suc e" app es] assms(3) by (simp add: k_def Suc_diff_le)
    ultimately show ?thesis unfolding k_def[symmetric] by (intro exI[of _ "Suc e"]) simp
  next
    case False
    then have "readdir_node app d tr = (None, int e)" using assms Some f k by (simp add: readdir_node_def)
    with False show ?thesis
      using remaining_past[OF assms(3), of app es] unfolding k_def[symmetric] by (intro exI[of _ e]) simp
  qed
qed

lemma readdir_node_remaining:
  assumes "d_path d = []" "d_cursor d = int c" "dyn_list tr es"
  shows "\<exists>c'. readdir_node app d tr =
      (case remaining app (t_nodes tr) es c of [] \<Rightarrow> None | x # xs \<Rightarrow> Some x, int c') \<and>
    remaining app (t_nodes tr) es c' = tl (remaining app (t_nodes tr) es c)"
proof (cases "c \<le> length (t_nodes tr) \<and> visible app (drop c (t_nodes tr)) \<noteq> []")
  case True
  then obtain x xs where x: "visible app (drop c (t_nodes tr)) = x # xs" by (meson neq_Nil_conv)
  obtain c' where c': "c' \<le> length (t_nodes tr)" "next_static app (t_nodes tr) (int c) = (Some x, int c')"
    "visible app (drop c' (t_nodes tr)) = xs"
    using next_static_visible[of c "t_nodes tr" app] True x by auto
  then show ?thesis using assms True x by (intro exI[of _ c']) (simp add: readdir_node_def remaining_def)
next
  case False
  show ?thesis
  proof (cases "c \<le> length (t_nodes tr)")
    case True
    with False have v: "visible app (drop c (t_nodes tr)) = []" by simp
    then have n: "next_static app (t_nodes tr) (d_cursor d) = (None, int (length (t_nodes tr)))"
      using next_static_visible[OF True, of app] assms(2) by simp
    have "remaining app (t_nodes tr) es c = es" using v True by (simp add: remaining_def)
    then show ?thesis using readdir_node_dyn[OF assms(1,3) order_refl n] by simp
  next
    case c: False
    then have n: "next_static app (t_nodes tr) (d_cursor d) = (None, int c)"
      using next_static_past[of "t_nodes tr" c app] assms(2) by simp
    then show ?thesis using readdir_node_dyn[OF assms(1,3) _ n] remaining_past[of "t_nodes tr" c app es] c by simp
  qed
qed

lemma listing_remaining:
  assumes "i < length dirs" "dirs ! i = d" "d_in_use d" "d_path d = []" "d_cursor d = int c" "d_tree d = Some tr" "dyn_list tr es"
  shows "listing app dirs i k = map node_dirent (take k (remaining app (t_nodes tr) es c))"
  using assms
proof (induction k arbitrary: dirs d c)
  case (Suc k)
  obtain c' where c': "readdir_node app d tr =
      (case remaining app (t_nodes tr) es c of [] \<Rightarrow> None | x # xs \<Rightarrow> Some x, int c')"
    "remaining app (t_nodes tr) es c' = tl (remaining app (t_nodes tr) es c)"
    using readdir_node_remaining[OF Suc.prems(4,5,7)] by blast
  have r: "espix_synth_readdir_r app dirs i =
      (Inr (map_option node_dirent (case remaining app (t_nodes tr) es c of [] \<Rightarrow> None | x # xs \<Rightarrow> Some x)), dirs[i := d\<lparr>d_cursor := int c'\<rparr>])"
    using Suc.prems c'(1) by (simp add: espix_synth_readdir_r_def dir_of_def)
  have "listing app (dirs[i := d\<lparr>d_cursor := int c'\<rparr>]) i k = map node_dirent (take k (remaining app (t_nodes tr) es c'))"
    using Suc.prems by (intro Suc.IH[of _ "d\<lparr>d_cursor := int c'\<rparr>"]) simp_all
  then show ?case using r c'(2) by (cases "remaining app (t_nodes tr) es c") simp_all
qed simp

text \<open>
  Listing a synthetic tree enumerates exactly its entries, in order and each once: the static
  nodes whose flash partition exists, then what the tree's callback enumerates; enough calls return
  all of them and further ones nothing.
\<close>

theorem synth_listing_complete:
  assumes "espix_synth_opendir trees dirs (Some p) = Inr (dirs', i)" "dir_tree trees p = Some tr" "dyn_list tr es"
  shows "listing app dirs' i k = map node_dirent (take k (visible app (t_nodes tr) @ es))"
proof -
  have a: "synth_dir_alloc dirs tr [] = Inr (dirs', i)" using assms(1,2) by (simp add: espix_synth_opendir_def)
  then have f: "find_slot (\<lambda>d. \<not> d_in_use d) dirs = Some i"
    "dirs' = dirs[i := \<lparr>d_tree = Some tr, d_cursor = 0, d_in_use = True, d_path = []\<rparr>]"
    by (auto simp: synth_dir_alloc_def strlcpy_def split: option.splits)
  then have "i < length dirs'" "dirs' ! i = \<lparr>d_tree = Some tr, d_cursor = 0, d_in_use = True, d_path = []\<rparr>"
    using find_slot_in_range by fastforce+
  then show ?thesis
    using listing_remaining[of i dirs' "dirs' ! i" 0 tr es app k] assms(3) by (simp add: remaining_def)
qed

definition tree_ex :: synth_tree where
  "tree_ex = \<lparr>t_prefix = ''/dev'', t_nodes =
       [\<lparr>n_path = ''/dev/ota0'', n_kind = SYNTH_APP, n_mode = 0, n_size = 0, n_subtype = 16, n_gen = None\<rparr>,
        \<lparr>n_path = ''/dev/null'', n_kind = SYNTH_NULL, n_mode = 0, n_size = 0, n_subtype = 0, n_gen = None\<rparr>],
     dyn_at = None, dyn_lookup = None, dyn_isdir = None, dyn_dir_at = (\<lambda>_ _. None)\<rparr>"

theorem synth_listing_complete_witness:
  "\<exists>dirs' i. espix_synth_opendir [tree_ex] [\<lparr>d_tree = None, d_cursor = 0, d_in_use = False, d_path = []\<rparr>] (Some ''/dev'')
     = Inr (dirs', i) \<and> listing (\<lambda>_. None) dirs' i 5 = [(''null'', DT_CHR)]"
proof -
  obtain dirs' i where o: "espix_synth_opendir [tree_ex] [\<lparr>d_tree = None, d_cursor = 0, d_in_use = False, d_path = []\<rparr>] (Some ''/dev'')
      = Inr (dirs', i)"
    by (simp add: espix_synth_opendir_def synth_dir_alloc_def dir_tree_def tree_ex_def)
  have "listing (\<lambda>_. None) dirs' i 5 = map node_dirent (take 5 (visible (\<lambda>_. None) (t_nodes tree_ex) @ []))"
    by (rule synth_listing_complete[OF o]) (simp_all add: dir_tree_def tree_ex_def dyn_list_def)
  with o show ?thesis by (simp add: tree_ex_def visible_def app_of_def node_dirent_def)
qed

end
