(* ===== verification/Fs_Mode.thy ===== *)
theory Fs_Mode
  imports Fs_Mount Fs_Synth
begin

text \<open>
  \<^verbatim>\<open>components/espix_fs/mode.c\<close>: what a path's mode and owner are. The filesystem's own
  values where it keeps them, else the stored attribute, else a rule.

  \<open>fsctx\<close> gathers what the file consults: the mount and synthetic tables, the attributes littlefs
  stores (a map from paths, as its user attributes are), the installed ownership rule, the first
  four bytes of a file (\<open>None\<close> when it cannot be opened) and the state \<open>'w\<close> of the filesystems
  below. littlefs may fail to write an attribute: \<open>cx_attr_err\<close> is the error it then gives.
  \<^verbatim>\<open>stat(2)\<close> as the calling task sees it is an argument where the code calls it.
\<close>

section \<open>The code\<close>

record stat =
  st_mode :: u32
  st_uid :: u16
  st_gid :: u16

record posix_attr =
  a_mode :: u16
  a_uid :: u16
  a_gid :: u16

text \<open>\<^verbatim>\<open>espix_fs_meta_ops_t\<close>: the setter of a filesystem that keeps its own metadata.\<close>

type_synonym 'w meta_ops = "string \<Rightarrow> posix_attr \<Rightarrow> 'w \<Rightarrow> errno option \<times> 'w"

record ('o, 'w) fsctx =
  cx_mounts :: "('o, 'w meta_ops) lower list"
  cx_trees :: "synth_tree list"
  cx_app :: apps
  cx_attrs :: "string \<Rightarrow> posix_attr option"
  cx_attr_err :: "string \<Rightarrow> esp_err option"
  cx_owner_rule :: "(string \<Rightarrow> (u16 \<times> u16) option) option"
  cx_head4 :: "'w \<Rightarrow> string \<Rightarrow> string option"
  cx_world :: 'w

definition S_ISDIR :: "u32 \<Rightarrow> bool" where
  "S_ISDIR m \<longleftrightarrow> m AND 0xF000 = 0x4000"

definition S_ISREG :: "u32 \<Rightarrow> bool" where
  "S_ISREG m \<longleftrightarrow> m AND 0xF000 = 0x8000"

definition S_ISCHR :: "u32 \<Rightarrow> bool" where
  "S_ISCHR m \<longleftrightarrow> m AND 0xF000 = 0x2000"

definition looks_executable :: "('o, 'w) fsctx \<Rightarrow> string \<Rightarrow> bool" where
  "looks_executable cx path =
     (case cx_head4 cx (cx_world cx) path of None \<Rightarrow> False | Some magic \<Rightarrow> magic = CHR 0x7F # ''ELF'')"

text \<open>01777, 0755 and 0644.\<close>

definition mode_from_rule :: "('o, 'w) fsctx \<Rightarrow> string \<Rightarrow> stat \<Rightarrow> u16" where
  "mode_from_rule cx path st =
     (if S_ISDIR (st_mode st) then if path = ''/tmp'' then 0x3FF else 0x1ED
      else if looks_executable cx path then 0x1ED else 0x1A4)"

definition owner_from_rule :: "('o, 'w) fsctx \<Rightarrow> string \<Rightarrow> u16 \<times> u16" where
  "owner_from_rule cx path =
     (case espix_vfs_mount_owner (cx_mounts cx) path of
        Some ug \<Rightarrow> ug
      | None \<Rightarrow> (case cx_owner_rule cx of
                   None \<Rightarrow> (0, 0)
                 | Some rule \<Rightarrow> (case rule path of Some ug \<Rightarrow> ug | None \<Rightarrow> (0, 0))))"

definition attr_read :: "('o, 'w) fsctx \<Rightarrow> string \<Rightarrow> posix_attr option" where
  "attr_read cx path =
     (if espix_vfs_metadata (cx_mounts cx) path \<noteq> META_ESPIX then None else cx_attrs cx path)"

definition attr_from_rule :: "('o, 'w) fsctx \<Rightarrow> string \<Rightarrow> stat \<Rightarrow> posix_attr" where
  "attr_from_rule cx path st =
     (let (u, g) = owner_from_rule cx path in
      \<lparr>a_mode = mode_from_rule cx path st, a_uid = u, a_gid = g\<rparr>)"

definition attr_effective :: "('o, 'w) fsctx \<Rightarrow> string \<Rightarrow> stat \<Rightarrow> posix_attr" where
  "attr_effective cx path st =
     (if espix_vfs_metadata (cx_mounts cx) path = META_LOWER then
        \<lparr>a_mode = ucast (st_mode st AND ESPIX_MODE_BITS), a_uid = st_uid st, a_gid = st_gid st\<rparr>
      else (case attr_read cx path of
              Some a \<Rightarrow> a
            | None \<Rightarrow> attr_from_rule cx path st))"

text \<open>The error, the \<^verbatim>\<open>errno\<close> it leaves (\<open>None\<close> for 0 or untouched) and the context after.\<close>

definition attr_store ::
  "('o, 'w) fsctx \<Rightarrow> string \<Rightarrow> stat \<Rightarrow> posix_attr \<Rightarrow> esp_err \<times> errno option \<times> ('o, 'w) fsctx" where
  "attr_store cx path st attr =
     (case espix_vfs_meta_ops (cx_mounts cx) path of
        Some setattr \<Rightarrow>
          (case setattr path attr (cx_world cx) of
             (Some e, w) \<Rightarrow> (ESP_ERR_NOT_ALLOWED, Some e, cx\<lparr>cx_world := w\<rparr>)
           | (None, w) \<Rightarrow> (ESP_OK, None, cx\<lparr>cx_world := w\<rparr>))
      | None \<Rightarrow>
          if espix_vfs_metadata (cx_mounts cx) path \<noteq> META_ESPIX
          then (ESP_ERR_NOT_ALLOWED, Some EPERM, cx)
          else if attr = attr_from_rule cx path st then
            (case cx_attrs cx path of
               None \<Rightarrow> (ESP_OK, None, cx)
             | Some _ \<Rightarrow>
                 (case cx_attr_err cx path of
                    Some e \<Rightarrow> (if e = ESP_ERR_NOT_FOUND then ESP_OK else e, None, cx)
                  | None \<Rightarrow> (ESP_OK, None, cx\<lparr>cx_attrs := (cx_attrs cx)(path := None)\<rparr>)))
          else
            (case cx_attr_err cx path of
               Some e \<Rightarrow> (e, None, cx)
             | None \<Rightarrow> (ESP_OK, None, cx\<lparr>cx_attrs := (cx_attrs cx)(path := Some attr)\<rparr>)))"

text \<open>\<open>st\<close> is what the caller passed, \<open>statf\<close> is \<^verbatim>\<open>stat(2)\<close>.\<close>

definition the_stat :: "(string \<Rightarrow> stat option) \<Rightarrow> string \<Rightarrow> stat option \<Rightarrow> stat option" where
  "the_stat statf path st = (case st of Some s \<Rightarrow> Some s | None \<Rightarrow> statf path)"

definition espix_fs_mode ::
  "('o, 'w) fsctx \<Rightarrow> (string \<Rightarrow> stat option) \<Rightarrow> string option \<Rightarrow> stat option \<Rightarrow> u16" where
  "espix_fs_mode cx statf path st =
     (case path of
        None \<Rightarrow> 0
      | Some p \<Rightarrow>
          (case the_stat statf p st of
             None \<Rightarrow> 0
           | Some s \<Rightarrow>
               (case espix_synth_mode (cx_app cx) (cx_trees cx) p of
                  Some m \<Rightarrow> ucast m
                | None \<Rightarrow> a_mode (attr_effective cx p s) AND ESPIX_MODE_BITS)))"

definition espix_fs_owner ::
  "('o, 'w) fsctx \<Rightarrow> (string \<Rightarrow> stat option) \<Rightarrow> string option \<Rightarrow> stat option \<Rightarrow> u16 \<times> u16" where
  "espix_fs_owner cx statf path st =
     (case path of
        None \<Rightarrow> (0, 0)
      | Some p \<Rightarrow>
          (case the_stat statf p st of
             None \<Rightarrow> (0, 0)
           | Some s \<Rightarrow> (a_uid (attr_effective cx p s), a_gid (attr_effective cx p s))))"

definition espix_fs_is_executable ::
  "('o, 'w) fsctx \<Rightarrow> (string \<Rightarrow> stat option) \<Rightarrow> string option \<Rightarrow> bool" where
  "espix_fs_is_executable cx statf path =
     (case path of
        None \<Rightarrow> False
      | Some p \<Rightarrow>
          (case statf p of
             None \<Rightarrow> False
           | Some st \<Rightarrow> S_ISREG (st_mode st) \<and> espix_fs_mode cx statf (Some p) (Some st) AND 0x40 \<noteq> 0))"

definition espix_fs_stamp ::
  "('o, 'w) fsctx \<Rightarrow> (string \<Rightarrow> stat option) \<Rightarrow> string option \<Rightarrow> u32 \<Rightarrow> u16 \<Rightarrow> u16 \<Rightarrow>
   esp_err \<times> errno option \<times> ('o, 'w) fsctx" where
  "espix_fs_stamp cx statf path mode uid gid =
     (case path of
        None \<Rightarrow> (ESP_ERR_NOT_FOUND, None, cx)
      | Some p \<Rightarrow>
          (case statf p of
             None \<Rightarrow> (ESP_ERR_NOT_FOUND, None, cx)
           | Some st \<Rightarrow> attr_store cx p st
               \<lparr>a_mode = ucast (mode AND ESPIX_MODE_BITS), a_uid = uid, a_gid = gid\<rparr>))"

text \<open>\<^verbatim>\<open>espix_fs_mode_str\<close>: the ten characters \<^verbatim>\<open>ls -l\<close> shows.\<close>

definition mode_char :: "u32 \<Rightarrow> nat \<Rightarrow> char" where
  "mode_char mode i = (if bit mode (8 - i) then ''rwx'' ! (i mod 3) else CHR ''-'')"

definition espix_fs_mode_str :: "u32 \<Rightarrow> bool \<Rightarrow> nat \<Rightarrow> string" where
  "espix_fs_mode_str mode is_dir len =
     (let s0 = (if is_dir then CHR ''d'' else if S_ISCHR mode then CHR ''c'' else CHR ''-'')
                 # map (mode_char mode) [0..<9];
          s1 = (if bit mode 11 then s0[3 := if bit mode 6 then CHR ''s'' else CHR ''S''] else s0);
          s2 = (if bit mode 10 then s1[6 := if bit mode 3 then CHR ''s'' else CHR ''S''] else s1);
          s3 = (if bit mode 9 then s2[9 := if bit mode 0 then CHR ''t'' else CHR ''T''] else s2)
      in strlcpy len s3)"

section \<open>What is stored is what is read\<close>

definition keeps_attrs :: "('o, 'w) fsctx \<Rightarrow> string \<Rightarrow> bool" where
  "keeps_attrs cx path \<longleftrightarrow> espix_vfs_metadata (cx_mounts cx) path = META_ESPIX \<and>
     espix_vfs_meta_ops (cx_mounts cx) path = None"

lemma rule_attrs_indep: "attr_from_rule (cx\<lparr>cx_attrs := a\<rparr>) path st = attr_from_rule cx path st"
proof -
  have "owner_from_rule (cx\<lparr>cx_attrs := a\<rparr>) path = owner_from_rule cx path"
    by (simp add: owner_from_rule_def split: option.split)
  then show ?thesis by (simp add: attr_from_rule_def mode_from_rule_def looks_executable_def)
qed

lemma attr_store_rootfs:
  assumes "keeps_attrs cx path" "attr_store cx path st attr = (ESP_OK, e, cx')" "cx_attr_err cx path = None"
  shows "cx' = cx\<lparr>cx_attrs := (cx_attrs cx)(path := if attr = attr_from_rule cx path st then None else Some attr)\<rparr>"
  using assms by (auto simp: attr_store_def keeps_attrs_def fun_upd_idem split: if_splits option.splits)

text \<open>
  C22. A mode and owner written on the root filesystem are what every later question about that path
  answers, other paths keep theirs, and nothing is left stored when the new values are what the rule
  says anyway: a chmod and its reverse leave no trace.
\<close>

theorem attr_store_effective:
  assumes "keeps_attrs cx path" "attr_store cx path st attr = (ESP_OK, e, cx')" "cx_attr_err cx path = None"
  shows "attr_effective cx' path st = attr \<and>
    (\<forall>q st'. q \<noteq> path \<longrightarrow> attr_effective cx' q st' = attr_effective cx q st') \<and>
    (cx_attrs cx' path = None \<longleftrightarrow> attr = attr_from_rule cx path st)"
proof -
  note cx' = attr_store_rootfs[OF assms]
  have "attr_effective cx' path st = attr"
    using assms(1) by (simp add: cx' attr_effective_def attr_read_def keeps_attrs_def rule_attrs_indep)
  moreover have "attr_effective cx' q st' = attr_effective cx q st'" if "q \<noteq> path" for q st'
    using that by (simp add: cx' attr_effective_def attr_read_def rule_attrs_indep split: option.split)
  ultimately show ?thesis by (simp add: cx')
qed

definition cx_ex :: "(nat, unit) fsctx" where
  "cx_ex = \<lparr>cx_mounts = [free_mount\<lparr>l_ops := Some 1, l_used := True, metadata := META_ESPIX, owner_uid := 0xFFFF\<rparr>,
       free_mount, free_mount, free_mount],
     cx_trees = [], cx_app = (\<lambda>_. None), cx_attrs = (\<lambda>_. None), cx_attr_err = (\<lambda>_. None),
     cx_owner_rule = None, cx_head4 = (\<lambda>_ _. None), cx_world = ()\<rparr>"

lemma cx_ex_mount: "mount_by_path (cx_mounts cx_ex) p = At 0"
  by (simp add: mount_by_path_def mount_best_def mount_step_def cx_ex_def free_mount_def upt_conv_Cons Let_def)

lemma cx_ex_keeps: "keeps_attrs cx_ex p"
  by (simp add: keeps_attrs_def espix_vfs_metadata_def espix_vfs_meta_ops_def cx_ex_mount)
    (simp add: cx_ex_def free_mount_def)

theorem attr_store_effective_witness:
  "\<exists>cx'. attr_store cx_ex ''/a'' \<lparr>st_mode = 0x8000, st_uid = 0, st_gid = 0\<rparr> \<lparr>a_mode = 0x1C0, a_uid = 7, a_gid = 7\<rparr>
     = (ESP_OK, None, cx') \<and>
   attr_effective cx' ''/a'' \<lparr>st_mode = 0x8000, st_uid = 0, st_gid = 0\<rparr> = \<lparr>a_mode = 0x1C0, a_uid = 7, a_gid = 7\<rparr>"
proof -
  let ?st = "\<lparr>st_mode = 0x8000, st_uid = 0, st_gid = 0\<rparr>"
  let ?a = "\<lparr>a_mode = 0x1C0, a_uid = 7, a_gid = 7\<rparr>"
  have "?a \<noteq> attr_from_rule cx_ex ''/a'' ?st"
    by (simp add: attr_from_rule_def mode_from_rule_def S_ISDIR_def looks_executable_def cx_ex_def split: prod.split)
  moreover have "cx_attr_err cx_ex ''/a'' = None" by (simp add: cx_ex_def)
  ultimately obtain cx' where s: "attr_store cx_ex ''/a'' ?st ?a = (ESP_OK, None, cx')"
    using cx_ex_keeps[of "''/a''"] by (simp add: attr_store_def keeps_attrs_def)
  then show ?thesis using attr_store_effective[OF cx_ex_keeps s] by (simp add: cx_ex_def)
qed

section \<open>The mode string\<close>

text \<open>Reading back bit \<open>b\<close> of the mode from what \<^verbatim>\<open>ls -l\<close> shows.\<close>

definition shown_bit :: "string \<Rightarrow> nat \<Rightarrow> bool" where
  "shown_bit s b =
     (if b = 11 then s ! 3 \<in> {CHR ''s'', CHR ''S''}
      else if b = 10 then s ! 6 \<in> {CHR ''s'', CHR ''S''}
      else if b = 9 then s ! 9 \<in> {CHR ''t'', CHR ''T''}
      else s ! (9 - b) \<notin> {CHR ''-'', CHR ''S'', CHR ''T''})"

lemma nine: "[0..<9] = [0, 1, 2, 3, 4, 5, 6, 7, 8 :: nat]"
  by (simp add: upt_conv_Cons)

lemma mode_str_eq:
  assumes "11 \<le> len"
  shows "espix_fs_mode_str mode is_dir len =
    [if is_dir then CHR ''d'' else if S_ISCHR mode then CHR ''c'' else CHR ''-'',
     mode_char mode 0, mode_char mode 1,
     if bit mode 11 then if bit mode 6 then CHR ''s'' else CHR ''S'' else mode_char mode 2,
     mode_char mode 3, mode_char mode 4,
     if bit mode 10 then if bit mode 3 then CHR ''s'' else CHR ''S'' else mode_char mode 5,
     mode_char mode 6, mode_char mode 7,
     if bit mode 9 then if bit mode 0 then CHR ''t'' else CHR ''T'' else mode_char mode 8]"
  using assms
  by (cases "bit mode 11"; cases "bit mode 10"; cases "bit mode 9")
    (simp_all add: espix_fs_mode_str_def nine strlcpy_def Let_def)

text \<open>
  The string \<^verbatim>\<open>ls -l\<close> shows determines the mode: each of the twelve permission bits,
  setuid, setgid and sticky included, can be read back from the ten characters.
\<close>

theorem mode_str_faithful:
  assumes "b < 12" "11 \<le> len"
  shows "shown_bit (espix_fs_mode_str mode is_dir len) b = bit mode b"
proof -
  have "b \<in> set [0..<12]" using assms(1) by simp
  then have "b = 0 \<or> b = 1 \<or> b = 2 \<or> b = 3 \<or> b = 4 \<or> b = 5 \<or> b = 6 \<or> b = 7 \<or> b = 8 \<or> b = 9 \<or> b = 10 \<or> b = 11"
    by (auto simp: upt_conv_Cons)
  then show ?thesis
    unfolding mode_str_eq[OF assms(2)] by (elim disjE) (simp_all add: shown_bit_def mode_char_def)
qed

theorem mode_str_faithful_witness:
  "espix_fs_mode_str 0x9ED False 11 = ''-rwsr-xr-x'' \<and> shown_bit (espix_fs_mode_str 0x9ED False 11) 11 = bit (0x9ED :: u32) 11"
  using mode_str_faithful[of 11 11 "0x9ED" False]
  by (simp add: espix_fs_mode_str_def nine mode_char_def S_ISCHR_def strlcpy_def)

end
