(* ===== verification/Fs_Access.thy ===== *)
theory Fs_Access
  imports Fs_Mode
begin

text \<open>
  \<^verbatim>\<open>components/espix_fs/access.c\<close> and the operations of \<^verbatim>\<open>mode.c\<close> that ask it: who the
  caller is, what the permission bits allow it, the root a process is confined to, and
  chmod, chown and the stamp a creator leaves.

  A task is what the checks read of the calling task: its privilege depth (thread-local), its
  process's working directory and root (empty when unconfined), its process credentials and its
  session. The identity \<^verbatim>\<open>espix_fs_act_as()\<close> sets is global, as in the code.
  Results are \<^verbatim>\<open>errno\<close> values, \<open>None\<close> for 0.
\<close>

section \<open>The code\<close>

abbreviation ESPIX_FS_KEEP_ID :: u16 where "ESPIX_FS_KEEP_ID \<equiv> 0xFFFF"
abbreviation O_WRONLY :: u32 where "O_WRONLY \<equiv> 1"
abbreviation O_RDWR :: u32 where "O_RDWR \<equiv> 2"
abbreviation O_APPEND :: u32 where "O_APPEND \<equiv> 8"
abbreviation O_CREAT :: u32 where "O_CREAT \<equiv> 0x200"
abbreviation O_TRUNC :: u32 where "O_TRUNC \<equiv> 0x400"
abbreviation S_IRUSR :: u16 where "S_IRUSR \<equiv> 0x100"
abbreviation S_IWUSR :: u16 where "S_IWUSR \<equiv> 0x80"
abbreviation S_IXUSR :: u16 where "S_IXUSR \<equiv> 0x40"

datatype access_op = ACC_OPEN | ACC_OPENDIR | ACC_UNLINK | ACC_RENAME | ACC_MKDIR | ACC_RMDIR | ACC_TRUNCATE

record subject_t =
  s_uid :: u16
  s_gid :: u16
  s_groups :: "u16 list"

record task =
  t_priv :: nat
  t_cwd :: string
  t_root :: string
  t_cred :: "subject_t option"
  t_session :: "subject_t option"

type_synonym act_as = "(u16 \<times> u16) option"

definition espix_fs_priv_begin :: "task \<Rightarrow> task" where
  "espix_fs_priv_begin t = t\<lparr>t_priv := t_priv t + 1\<rparr>"

definition espix_fs_priv_end :: "task \<Rightarrow> task" where
  "espix_fs_priv_end t = (if 0 < t_priv t then t\<lparr>t_priv := t_priv t - 1\<rparr> else t)"

definition privileged :: "task \<Rightarrow> bool" where
  "privileged t \<longleftrightarrow> t_priv t \<noteq> 0"

definition espix_fs_root_permits :: "task \<Rightarrow> string option \<Rightarrow> bool" where
  "espix_fs_root_permits t path =
     (case path of
        None \<Rightarrow> True
      | Some p \<Rightarrow> if privileged t then True
                  else if t_root t = [] then True
                  else espix_fs_within (Some p) (Some (t_root t)))"

definition subject :: "act_as \<Rightarrow> task \<Rightarrow> subject_t option" where
  "subject act t =
     (case act of
        Some (u, g) \<Rightarrow> Some \<lparr>s_uid = u, s_gid = g, s_groups = []\<rparr>
      | None \<Rightarrow> (case t_cred t of
                   Some c \<Rightarrow> Some c
                 | None \<Rightarrow> t_session t))"

definition holds_group :: "subject_t \<Rightarrow> u16 \<Rightarrow> bool" where
  "holds_group who gid \<longleftrightarrow> s_gid who = gid \<or> gid \<in> set (s_groups who)"

definition permitted :: "u16 \<Rightarrow> u16 \<Rightarrow> u16 \<Rightarrow> subject_t \<Rightarrow> u16 \<Rightarrow> bool" where
  "permitted mode f_uid f_gid who want =
     (let shift = (if s_uid who = f_uid then 0 else if holds_group who f_gid then 3 else 6)
      in mode AND drop_bit shift want = drop_bit shift want)"

definition parent_of :: "string \<Rightarrow> nat \<Rightarrow> string" where
  "parent_of path len =
     (let out = strlcpy len path in
      case strrchr out (CHR ''/'') of
        None \<Rightarrow> strlcpy len ''/''
      | Some i \<Rightarrow> if i = 0 then strlcpy len ''/'' else take i out)"

definition may ::
  "('o, 'w) fsctx \<Rightarrow> (string \<Rightarrow> stat option) \<Rightarrow> string \<Rightarrow> subject_t \<Rightarrow> u16 \<Rightarrow> bool" where
  "may cx statf path who want =
     (case statf path of
        None \<Rightarrow> True
      | Some st \<Rightarrow>
          (let (f_uid, f_gid) = espix_fs_owner cx statf (Some path) (Some st) in
           permitted (espix_fs_mode cx statf (Some path) (Some st)) f_uid f_gid who want))"

definition sticky_permits ::
  "('o, 'w) fsctx \<Rightarrow> (string \<Rightarrow> stat option) \<Rightarrow> string \<Rightarrow> string \<Rightarrow> u16 \<Rightarrow> bool" where
  "sticky_permits cx statf parent path uid =
     (case statf parent of
        None \<Rightarrow> True
      | Some pst \<Rightarrow>
          if espix_fs_mode cx statf (Some parent) (Some pst) AND 0x200 = 0 then True
          else if uid = fst (espix_fs_owner cx statf (Some parent) (Some pst)) then True
          else (case statf path of
                  None \<Rightarrow> True
                | Some st \<Rightarrow> uid = fst (espix_fs_owner cx statf (Some path) (Some st))))"

definition espix_fs_admin_check ::
  "('o, 'w) fsctx \<Rightarrow> act_as \<Rightarrow> task \<Rightarrow> (string \<Rightarrow> stat option) \<Rightarrow> string option \<Rightarrow> bool \<Rightarrow> errno option" where
  "espix_fs_admin_check cx act t statf path changing_owner =
     (case path of
        None \<Rightarrow> Some EINVAL
      | Some p \<Rightarrow>
          if \<not> espix_fs_root_permits t (Some p) then Some ENOENT
          else if privileged t then None
          else (case subject act t of
                  None \<Rightarrow> None
                | Some who \<Rightarrow>
                    if s_uid who = 0 then None
                    else if changing_owner then Some EPERM
                    else if s_uid who = fst (espix_fs_owner cx statf (Some p) None) then None
                    else Some EPERM))"

definition espix_fs_access_check ::
  "('o, 'w) fsctx \<Rightarrow> act_as \<Rightarrow> task \<Rightarrow> (string \<Rightarrow> stat option) \<Rightarrow> string option \<Rightarrow> access_op \<Rightarrow> u32 \<Rightarrow> errno option" where
  "espix_fs_access_check cx act t statf path op flags =
     (case path of
        None \<Rightarrow> Some EINVAL
      | Some p \<Rightarrow>
          if privileged t then None
          else (case subject act t of
                  None \<Rightarrow> None
                | Some who \<Rightarrow>
                    if s_uid who = 0 then None
                    else
                      (let parent = parent_of p ESPIX_PATH_MAX;
                           on_file = (\<lambda>want. if may cx statf p who want then None else Some EACCES);
                           on_parent = (\<lambda>sticky.
                             if \<not> may cx statf parent who (S_IWUSR OR S_IXUSR) then Some EACCES
                             else if sticky \<and> \<not> sticky_permits cx statf parent p (s_uid who) then Some EACCES
                             else None)
                       in case op of
                            ACC_OPEN \<Rightarrow>
                              if flags AND O_CREAT \<noteq> 0 \<and> statf p = None \<and>
                                 \<not> may cx statf parent who (S_IWUSR OR S_IXUSR) then Some EACCES
                              else on_file (if flags AND (O_WRONLY OR O_RDWR OR O_APPEND OR O_TRUNC) \<noteq> 0
                                            then S_IWUSR else S_IRUSR)
                          | ACC_OPENDIR \<Rightarrow> on_file (S_IRUSR OR S_IXUSR)
                          | ACC_TRUNCATE \<Rightarrow> on_file S_IWUSR
                          | ACC_MKDIR \<Rightarrow> on_parent False
                          | _ \<Rightarrow> on_parent True)))"

text \<open>The creator's mode goes through the umask 022. The code raises privilege around the stamp; the
  path was just found, so the raise changes nothing the stamp reads.\<close>

definition espix_fs_claim ::
  "('o, 'w) fsctx \<Rightarrow> act_as \<Rightarrow> task \<Rightarrow> (string \<Rightarrow> stat option) \<Rightarrow> string option \<Rightarrow> u32 \<Rightarrow> ('o, 'w) fsctx" where
  "espix_fs_claim cx act t statf path mode =
     (case path of
        None \<Rightarrow> cx
      | Some p \<Rightarrow>
          if privileged t then cx
          else (case subject act t of
                  None \<Rightarrow> cx
                | Some who \<Rightarrow>
                    (case statf p of
                       None \<Rightarrow> cx
                     | Some st \<Rightarrow>
                         (let want = mode AND ESPIX_MODE_BITS AND NOT 0x12 in
                          if espix_fs_owner cx statf (Some p) (Some st) = (s_uid who, s_gid who) \<and>
                             ucast want = espix_fs_mode cx statf (Some p) (Some st) then cx
                          else snd (snd (espix_fs_stamp cx statf (Some p) want (s_uid who) (s_gid who)))))))"

definition is_synth :: "('o, 'w) fsctx \<Rightarrow> string \<Rightarrow> bool" where
  "is_synth cx p \<longleftrightarrow> \<not> Option.is_none (espix_synth_lookup (cx_app cx) (cx_trees cx) p) \<or>
     espix_synth_isdir (cx_trees cx) p"

definition espix_fs_chmod ::
  "('o, 'w) fsctx \<Rightarrow> act_as \<Rightarrow> task \<Rightarrow> (string \<Rightarrow> stat option) \<Rightarrow> string option \<Rightarrow> u32 \<Rightarrow> esp_err \<times> ('o, 'w) fsctx" where
  "espix_fs_chmod cx act t statf path mode =
     (case path of
        None \<Rightarrow> (ESP_ERR_INVALID_ARG, cx)
      | Some p \<Rightarrow>
          if mode AND NOT ESPIX_MODE_BITS \<noteq> 0 then (ESP_ERR_INVALID_ARG, cx)
          else if is_synth cx p then (ESP_ERR_NOT_ALLOWED, cx)
          else (case espix_fs_admin_check cx act t statf (Some p) False of
                  Some e \<Rightarrow> (if e = ENOENT then ESP_ERR_NOT_FOUND else ESP_ERR_NOT_ALLOWED, cx)
                | None \<Rightarrow>
                    (case statf p of
                       None \<Rightarrow> (ESP_ERR_NOT_FOUND, cx)
                     | Some st \<Rightarrow>
                         (case attr_store cx p st ((attr_effective cx p st)\<lparr>a_mode := ucast mode\<rparr>) of
                            (e, _, cx') \<Rightarrow> (e, cx')))))"

definition espix_fs_ensure_mode ::
  "('o, 'w) fsctx \<Rightarrow> act_as \<Rightarrow> task \<Rightarrow> (string \<Rightarrow> stat option) \<Rightarrow> string option \<Rightarrow> u32 \<Rightarrow> esp_err \<times> ('o, 'w) fsctx" where
  "espix_fs_ensure_mode cx act t statf path mode =
     (case path of
        None \<Rightarrow> (ESP_ERR_INVALID_ARG, cx)
      | Some p \<Rightarrow>
          if mode AND NOT ESPIX_MODE_BITS \<noteq> 0 then (ESP_ERR_INVALID_ARG, cx)
          else (case statf p of
                  None \<Rightarrow> (ESP_ERR_NOT_FOUND, cx)
                | Some st \<Rightarrow>
                    if ucast (espix_fs_mode cx statf (Some p) (Some st)) = mode then (ESP_OK, cx)
                    else espix_fs_chmod cx act t statf (Some p) mode))"

text \<open>chown drops setuid and setgid (06000).\<close>

definition espix_fs_chown ::
  "('o, 'w) fsctx \<Rightarrow> act_as \<Rightarrow> task \<Rightarrow> (string \<Rightarrow> stat option) \<Rightarrow> string option \<Rightarrow> u16 \<Rightarrow> u16 \<Rightarrow> esp_err \<times> ('o, 'w) fsctx" where
  "espix_fs_chown cx act t statf path uid gid =
     (case path of
        None \<Rightarrow> (ESP_ERR_INVALID_ARG, cx)
      | Some p \<Rightarrow>
          if is_synth cx p then (ESP_ERR_NOT_ALLOWED, cx)
          else (case espix_fs_admin_check cx act t statf (Some p) (uid \<noteq> ESPIX_FS_KEEP_ID) of
                  Some e \<Rightarrow> (if e = ENOENT then ESP_ERR_NOT_FOUND else ESP_ERR_NOT_ALLOWED, cx)
                | None \<Rightarrow>
                    (case statf p of
                       None \<Rightarrow> (ESP_ERR_NOT_FOUND, cx)
                     | Some st \<Rightarrow>
                         (let a = attr_effective cx p st;
                              a' = \<lparr>a_mode = a_mode a AND NOT 0xC00,
                                    a_uid = (if uid \<noteq> ESPIX_FS_KEEP_ID then uid else a_uid a),
                                    a_gid = (if gid \<noteq> ESPIX_FS_KEEP_ID then gid else a_gid a)\<rparr>
                          in case attr_store cx p st a' of (e, _, cx') \<Rightarrow> (e, cx')))))"

section \<open>The reference: Unix permission classes\<close>

datatype perm = R | W | X

fun perm_bit :: "perm \<Rightarrow> nat" where
  "perm_bit R = 8"
| "perm_bit W = 7"
| "perm_bit X = 6"

text \<open>Owner beats group beats other: how far below the owner's the triad lies.\<close>

definition triad :: "subject_t \<Rightarrow> u16 \<times> u16 \<Rightarrow> nat" where
  "triad who own = (if s_uid who = fst own then 0 else if holds_group who (snd own) then 3 else 6)"

definition has_perm :: "('o, 'w) fsctx \<Rightarrow> (string \<Rightarrow> stat option) \<Rightarrow> subject_t \<Rightarrow> string \<Rightarrow> perm \<Rightarrow> bool" where
  "has_perm cx statf who path p =
     (case statf path of
        None \<Rightarrow> True
      | Some st \<Rightarrow> bit (espix_fs_mode cx statf (Some path) (Some st))
          (perm_bit p - triad who (espix_fs_owner cx statf (Some path) (Some st))))"

definition sticky_ok :: "('o, 'w) fsctx \<Rightarrow> (string \<Rightarrow> stat option) \<Rightarrow> subject_t \<Rightarrow> string \<Rightarrow> string \<Rightarrow> bool" where
  "sticky_ok cx statf who dir path \<longleftrightarrow>
     (\<forall>ds fs. statf dir = Some ds \<longrightarrow> bit (espix_fs_mode cx statf (Some dir) (Some ds)) 9 \<longrightarrow> statf path = Some fs \<longrightarrow>
        s_uid who = fst (espix_fs_owner cx statf (Some dir) (Some ds)) \<or>
        s_uid who = fst (espix_fs_owner cx statf (Some path) (Some fs)))"

definition unix_allows ::
  "('o, 'w) fsctx \<Rightarrow> (string \<Rightarrow> stat option) \<Rightarrow> subject_t \<Rightarrow> string \<Rightarrow> access_op \<Rightarrow> u32 \<Rightarrow> bool" where
  "unix_allows cx statf who path op flags =
     (let dir = parent_of path ESPIX_PATH_MAX; on = has_perm cx statf who in
      case op of
        ACC_OPEN \<Rightarrow>
          (flags AND O_CREAT \<noteq> 0 \<and> statf path = None \<longrightarrow> on dir W \<and> on dir X) \<and>
          on path (if flags AND (O_WRONLY OR O_RDWR OR O_APPEND OR O_TRUNC) \<noteq> 0 then W else R)
      | ACC_OPENDIR \<Rightarrow> on path R \<and> on path X
      | ACC_TRUNCATE \<Rightarrow> on path W
      | ACC_MKDIR \<Rightarrow> on dir W \<and> on dir X
      | _ \<Rightarrow> on dir W \<and> on dir X \<and> sticky_ok cx statf who dir path)"

lemma and_eq_self_iff: "(a :: 'a::len word) AND b = b \<longleftrightarrow> (\<forall>n < LENGTH('a). bit b n \<longrightarrow> bit a n)"
  by (auto simp: bit_eq_iff bit_and_iff dest: bit_imp_le_length)

lemma and_one_bit: "n < 16 \<Longrightarrow> (m :: u16) AND 2 ^ n = 2 ^ n \<longleftrightarrow> bit m n"
  by (auto simp: and_eq_self_iff bit_exp_iff possible_bit_word)

lemma and_no_bit: "n < 16 \<Longrightarrow> (m :: u16) AND 2 ^ n = 0 \<longleftrightarrow> \<not> bit m n"
  by (auto simp: bit_eq_iff[of "m AND 2 ^ n"] bit_and_iff bit_exp_iff possible_bit_word)

lemma and_or_self: "(m :: u16) AND (a OR b) = a OR b \<longleftrightarrow> m AND a = a \<and> m AND b = b"
  by (auto simp: and_eq_self_iff bit_or_iff)

lemma shifted_perms:
  "sh \<in> {0, 3, 6} \<Longrightarrow> drop_bit sh S_IRUSR = 2 ^ (8 - sh)"
  "sh \<in> {0, 3, 6} \<Longrightarrow> drop_bit sh S_IWUSR = 2 ^ (7 - sh)"
  "sh \<in> {0, 3, 6} \<Longrightarrow> drop_bit sh S_IXUSR = 2 ^ (6 - sh)"
  by auto

lemma triad_in: "triad who own \<in> {0, 3, 6}"
  by (simp add: triad_def)

lemma may_perms:
  "may cx statf path who S_IRUSR = has_perm cx statf who path R"
  "may cx statf path who S_IWUSR = has_perm cx statf who path W"
  "may cx statf path who (S_IRUSR OR S_IXUSR) = (has_perm cx statf who path R \<and> has_perm cx statf who path X)"
  "may cx statf path who (S_IWUSR OR S_IXUSR) = (has_perm cx statf who path W \<and> has_perm cx statf who path X)"
proof -
  have p: "permitted m (fst own) (snd own) who S_IRUSR = bit m (8 - triad who own)"
    "permitted m (fst own) (snd own) who S_IWUSR = bit m (7 - triad who own)"
    "permitted m (fst own) (snd own) who (S_IRUSR OR S_IXUSR) = (bit m (8 - triad who own) \<and> bit m (6 - triad who own))"
    "permitted m (fst own) (snd own) who (S_IWUSR OR S_IXUSR) = (bit m (7 - triad who own) \<and> bit m (6 - triad who own))"
    for m own
    unfolding permitted_def Let_def triad_def[symmetric] drop_bit_or and_or_self
    by (simp_all add: shifted_perms[OF triad_in] and_one_bit)
  show "may cx statf path who S_IRUSR = has_perm cx statf who path R"
  "may cx statf path who S_IWUSR = has_perm cx statf who path W"
  "may cx statf path who (S_IRUSR OR S_IXUSR) = (has_perm cx statf who path R \<and> has_perm cx statf who path X)"
  "may cx statf path who (S_IWUSR OR S_IXUSR) = (has_perm cx statf who path W \<and> has_perm cx statf who path X)"
    unfolding may_def has_perm_def case_prod_beta Let_def p by (auto split: option.split)
qed

lemma sticky_permits_iff: "sticky_permits cx statf dir path (s_uid who) = sticky_ok cx statf who dir path"
proof -
  have "(m :: u16) AND 0x200 = 0 \<longleftrightarrow> \<not> bit m 9" for m
    using and_no_bit[of 9 m] by simp
  then show ?thesis by (auto simp: sticky_permits_def sticky_ok_def split: option.split)
qed

lemma access_check_eq:
  assumes "\<not> privileged t" "subject act t = Some who" "s_uid who \<noteq> 0"
  shows "espix_fs_access_check cx act t statf (Some path) op flags =
    (if unix_allows cx statf who path op flags then None else Some EACCES)"
  using assms unfolding espix_fs_access_check_def unix_allows_def Let_def may_perms sticky_permits_iff
  by (cases op) (auto simp: may_perms)


text \<open>
  Opening a file for both reading and writing asks for the write bit only: a caller whose triad
  has write but not read passes the check with \<^verbatim>\<open>O_RDWR\<close>, although the same caller is refused
  the file with \<^verbatim>\<open>O_RDONLY\<close>.
\<close>

theorem open_rdwr_skips_read:
  assumes "\<not> privileged t" "subject act t = Some who" "s_uid who \<noteq> 0" "statf path = Some st"
    "has_perm cx statf who path W" "\<not> has_perm cx statf who path R"
  shows "espix_fs_access_check cx act t statf (Some path) ACC_OPEN O_RDWR = None \<and>
    espix_fs_access_check cx act t statf (Some path) ACC_OPEN 0 = Some EACCES"
  using access_check_eq[OF assms(1-3), of cx statf path ACC_OPEN] assms(4-6) by (simp add: unix_allows_def Let_def)

definition user_ex :: "u16 \<Rightarrow> subject_t" where
  "user_ex u = \<lparr>s_uid = u, s_gid = u, s_groups = []\<rparr>"

definition task_ex :: "u16 \<Rightarrow> task" where
  "task_ex u = \<lparr>t_priv = 0, t_cwd = ''/'', t_root = [], t_cred = Some (user_ex u), t_session = None\<rparr>"

text \<open>A root filesystem whose \<open>/a\<close> is owned by user 7 with the given mode.\<close>

definition cx_mode :: "u16 \<Rightarrow> (nat, unit) fsctx" where
  "cx_mode m = cx_ex\<lparr>cx_attrs := [''/a'' \<mapsto> \<lparr>a_mode = m, a_uid = 7, a_gid = 7\<rparr>]\<rparr>"

definition stat_reg :: "string \<Rightarrow> stat option" where
  "stat_reg p = (if p = ''/a'' then Some \<lparr>st_mode = 0x8000, st_uid = 0, st_gid = 0\<rparr> else None)"

lemma cx_mode_attr: "attr_effective (cx_mode m) ''/a'' st = \<lparr>a_mode = m, a_uid = 7, a_gid = 7\<rparr>"
proof -
  have "mount_by_path (cx_mounts (cx_mode m)) ''/a'' = At 0" using cx_ex_mount by (simp add: cx_mode_def)
  then show ?thesis
    by (simp add: attr_effective_def attr_read_def espix_vfs_metadata_def)
      (simp add: cx_mode_def cx_ex_def free_mount_def)
qed

lemma cx_mode_facts:
  "espix_fs_mode (cx_mode m) stat_reg (Some ''/a'') (Some st) = m AND ESPIX_MODE_BITS"
  "espix_fs_owner (cx_mode m) stat_reg (Some ''/a'') (Some st) = (7, 7)"
  "espix_fs_owner (cx_mode m) stat_reg (Some ''/a'') None = (7, 7)"
proof -
  have "cx_trees (cx_mode m) = []" by (simp add: cx_mode_def cx_ex_def)
  then show "espix_fs_mode (cx_mode m) stat_reg (Some ''/a'') (Some st) = m AND ESPIX_MODE_BITS"
    by (simp add: espix_fs_mode_def the_stat_def cx_mode_attr espix_synth_mode_def espix_synth_lookup_def under_tree_def)
qed (simp_all add: espix_fs_owner_def the_stat_def cx_mode_attr stat_reg_def)

theorem open_rdwr_skips_read_witness:
  "espix_fs_access_check (cx_mode 0x80) None (task_ex 7) stat_reg (Some ''/a'') ACC_OPEN O_RDWR = None \<and>
   espix_fs_access_check (cx_mode 0x80) None (task_ex 7) stat_reg (Some ''/a'') ACC_OPEN 0 = Some EACCES"
  by (rule open_rdwr_skips_read[where who = "user_ex 7" and st = "\<lparr>st_mode = 0x8000, st_uid = 0, st_gid = 0\<rparr>"])
    (simp_all add: task_ex_def user_ex_def privileged_def subject_def has_perm_def cx_mode_facts triad_def stat_reg_def)

section \<open>Who may change a mode or an owner\<close>

lemma admin_check_user:
  assumes "\<not> privileged t" "subject act t = Some who" "s_uid who \<noteq> 0" "espix_fs_admin_check cx act t statf (Some p) ch = None"
  shows "\<not> ch" "s_uid who = fst (espix_fs_owner cx statf (Some p) None)"
  using assms by (auto simp: espix_fs_admin_check_def split: if_splits)



lemma attr_store_succeeds:
  assumes "keeps_attrs cx p" "cx_attr_err cx p = None"
  obtains e cx' where "attr_store cx p st a = (ESP_OK, e, cx')"
proof -
  have "\<exists>e cx'. attr_store cx p st a = (ESP_OK, e, cx')"
    using assms by (auto simp: attr_store_def keeps_attrs_def split: option.split)
  then show ?thesis using that by blast
qed

text \<open>
  The owner of a file may give it to any group, one it does not belong to included: with
  \<^verbatim>\<open>ESPIX_FS_KEEP_ID\<close> for the user the check asks for ownership only, and the file then has
  the group asked for.
\<close>

theorem chown_any_group:
  assumes "\<not> privileged t" "t_root t = []" "subject act t = Some who" "\<not> is_synth cx p" "keeps_attrs cx p" "cx_attr_err cx p = None"
    "statf p = Some st" "s_uid who = a_uid (attr_effective cx p st)" "gid \<noteq> ESPIX_FS_KEEP_ID"
  shows "\<exists>cx'. espix_fs_chown cx act t statf (Some p) ESPIX_FS_KEEP_ID gid = (ESP_OK, cx') \<and>
    a_gid (attr_effective cx' p st) = gid \<and> a_uid (attr_effective cx' p st) = s_uid who"
proof -
  let ?a = "\<lparr>a_mode = a_mode (attr_effective cx p st) AND NOT 0xC00, a_uid = a_uid (attr_effective cx p st), a_gid = gid\<rparr>"
  have adm: "espix_fs_admin_check cx act t statf (Some p) False = None"
    using assms by (simp add: espix_fs_admin_check_def espix_fs_root_permits_def espix_fs_owner_def the_stat_def)
  obtain e cx' where s: "attr_store cx p st ?a = (ESP_OK, e, cx')"
    using attr_store_succeeds[OF assms(5,6)] by blast
  then have "espix_fs_chown cx act t statf (Some p) ESPIX_FS_KEEP_ID gid = (ESP_OK, cx')"
    using assms adm by (simp add: espix_fs_chown_def)
  moreover have "cx' = cx\<lparr>cx_attrs := (cx_attrs cx)(p := if ?a = attr_from_rule cx p st then None else Some ?a)\<rparr>"
    by (rule attr_store_rootfs[OF assms(5) s assms(6)])
  then have "attr_effective cx' p st = ?a"
    using assms(5) by (simp add: attr_effective_def attr_read_def keeps_attrs_def rule_attrs_indep)
  ultimately show ?thesis using assms(8) by simp
qed

lemma cx_mode_keeps: "keeps_attrs (cx_mode m) p"
  using cx_ex_keeps[of p] by (simp add: keeps_attrs_def cx_mode_def)

lemma cx_mode_plain: "\<not> is_synth (cx_mode m) p"
  by (simp add: is_synth_def espix_synth_lookup_def espix_synth_isdir_def dir_tree_def subdir_tree_def under_tree_def cx_mode_def cx_ex_def)

theorem chown_any_group_witness:
  "\<exists>cx'. espix_fs_chown (cx_mode 0x1ED) None (task_ex 7) stat_reg (Some ''/a'') ESPIX_FS_KEEP_ID 0 = (ESP_OK, cx') \<and>
     a_gid (attr_effective cx' ''/a'' \<lparr>st_mode = 0x8000, st_uid = 0, st_gid = 0\<rparr>) = 0 \<and> \<not> holds_group (user_ex 7) 0"
proof -
  have "\<exists>cx'. espix_fs_chown (cx_mode 0x1ED) None (task_ex 7) stat_reg (Some ''/a'') ESPIX_FS_KEEP_ID 0 = (ESP_OK, cx') \<and>
     a_gid (attr_effective cx' ''/a'' \<lparr>st_mode = 0x8000, st_uid = 0, st_gid = 0\<rparr>) = 0 \<and>
     a_uid (attr_effective cx' ''/a'' \<lparr>st_mode = 0x8000, st_uid = 0, st_gid = 0\<rparr>) = s_uid (user_ex 7)"
    by (rule chown_any_group[OF _ _ _ cx_mode_plain cx_mode_keeps])
      (simp_all add: task_ex_def privileged_def subject_def cx_mode_attr stat_reg_def user_ex_def, simp add: cx_mode_def cx_ex_def)
  then show ?thesis by (auto simp: holds_group_def user_ex_def)
qed

text \<open>
  The identity the NFS server assumes is everybody's: between \<^verbatim>\<open>espix_fs_act_as()\<close> and
  \<^verbatim>\<open>espix_fs_act_as_none()\<close> the check answers every task in the system as the remote client.
  While that client is root, each of them passes every check; while it is somebody else, a local
  user is judged by that client's permissions and not by their own.
\<close>

theorem act_as_reaches_every_task:
  assumes "\<not> privileged t" "u \<noteq> 0"
  shows "espix_fs_access_check cx (Some (0, g)) t statf (Some path) op flags = None \<and>
    (espix_fs_access_check cx (Some (u, g)) t statf (Some path) op flags = None \<longleftrightarrow>
     unix_allows cx statf \<lparr>s_uid = u, s_gid = g, s_groups = []\<rparr> path op flags)"
proof -
  have "subject (Some (u, g)) t = Some \<lparr>s_uid = u, s_gid = g, s_groups = []\<rparr>" by (simp add: subject_def)
  from access_check_eq[OF assms(1) this, of cx statf path op flags] assms(2)
  have "espix_fs_access_check cx (Some (u, g)) t statf (Some path) op flags = None \<longleftrightarrow>
     unix_allows cx statf \<lparr>s_uid = u, s_gid = g, s_groups = []\<rparr> path op flags" by auto
  then show ?thesis using assms(1) by (simp add: espix_fs_access_check_def subject_def)
qed

theorem act_as_reaches_every_task_witness:
  "espix_fs_access_check (cx_mode 0x180) None (task_ex 8) stat_reg (Some ''/a'') ACC_OPEN 0 = Some EACCES \<and>
   espix_fs_access_check (cx_mode 0x180) (Some (0, 0)) (task_ex 8) stat_reg (Some ''/a'') ACC_OPEN 0 = None"
proof -
  have p: "\<not> privileged (task_ex 8)" by (simp add: task_ex_def privileged_def)
  have "\<not> unix_allows (cx_mode 0x180) stat_reg (user_ex 8) ''/a'' ACC_OPEN 0"
    by (simp add: unix_allows_def has_perm_def cx_mode_facts triad_def stat_reg_def user_ex_def holds_group_def)
  moreover have "subject None (task_ex 8) = Some (user_ex 8)" "s_uid (user_ex 8) \<noteq> 0"
    by (simp_all add: subject_def task_ex_def user_ex_def)
  ultimately show ?thesis
    using act_as_reaches_every_task[OF p, of 7 "cx_mode 0x180" 0 stat_reg "''/a''" ACC_OPEN 0]
      access_check_eq[OF p, of None "user_ex 8" "cx_mode 0x180" stat_reg "''/a''" ACC_OPEN 0] by simp
qed

end
