(* ===== verification/Fs_Vfs.thy ===== *)
theory Fs_Vfs
  imports Fs_Access
begin

text \<open>
  The operations of \<^verbatim>\<open>components/espix_fs/vfs.c\<close>: every file call of the system, from a path
  or a descriptor to the filesystem below. Each resolves the path and tests the caller's root, asks
  for permission, answers for the synthetic trees itself and dispatches the rest by mount.

  The filesystems below are ESP-IDF drivers: a record of optional functions on their state \<open>'w\<close>,
  each with its context. \<^verbatim>\<open>stat(2)\<close>, where the code calls it, is \<open>vfs_stat\<close> again, through
  the C library. Results are \<open>Inl errno\<close> or \<open>Inr value\<close>, with the state afterwards.
\<close>

section \<open>The code\<close>

type_synonym 'a sys = "errno + 'a"

record 'w fs_ops =
  open_p :: "(string \<Rightarrow> u32 \<Rightarrow> u32 \<Rightarrow> 'w \<Rightarrow> nat sys \<times> 'w) option"
  close_p :: "(int \<Rightarrow> 'w \<Rightarrow> unit sys \<times> 'w) option"
  read_p :: "(int \<Rightarrow> nat \<Rightarrow> 'w \<Rightarrow> string sys \<times> 'w) option"
  write_p :: "(int \<Rightarrow> string \<Rightarrow> 'w \<Rightarrow> nat sys \<times> 'w) option"
  pread_p :: "(int \<Rightarrow> nat \<Rightarrow> int \<Rightarrow> 'w \<Rightarrow> string sys \<times> 'w) option"
  pwrite_p :: "(int \<Rightarrow> string \<Rightarrow> int \<Rightarrow> 'w \<Rightarrow> nat sys \<times> 'w) option"
  lseek_p :: "(int \<Rightarrow> int \<Rightarrow> whence \<Rightarrow> 'w \<Rightarrow> int sys \<times> 'w) option"
  fstat_p :: "(int \<Rightarrow> 'w \<Rightarrow> (stat \<times> nat) sys) option"
  fsync_p :: "(int \<Rightarrow> 'w \<Rightarrow> unit sys \<times> 'w) option"
  fcntl_p :: "(int \<Rightarrow> int \<Rightarrow> int \<Rightarrow> 'w \<Rightarrow> int sys \<times> 'w) option"
  stat_p :: "(string \<Rightarrow> 'w \<Rightarrow> stat sys) option"
  unlink_p :: "(string \<Rightarrow> 'w \<Rightarrow> unit sys \<times> 'w) option"
  rename_p :: "(string \<Rightarrow> string \<Rightarrow> 'w \<Rightarrow> unit sys \<times> 'w) option"
  opendir_p :: "(string \<Rightarrow> 'w \<Rightarrow> nat sys \<times> 'w) option"
  readdir_p :: "(nat \<Rightarrow> 'w \<Rightarrow> (string \<times> dirent_type) option sys \<times> 'w) option"
  readdir_r_p :: "(nat \<Rightarrow> 'w \<Rightarrow> (string \<times> dirent_type) option sys \<times> 'w) option"
  closedir_p :: "(nat \<Rightarrow> 'w \<Rightarrow> unit sys \<times> 'w) option"
  telldir_p :: "(nat \<Rightarrow> 'w \<Rightarrow> int sys) option"
  seekdir_p :: "(nat \<Rightarrow> int \<Rightarrow> 'w \<Rightarrow> 'w) option"
  mkdir_p :: "(string \<Rightarrow> u32 \<Rightarrow> 'w \<Rightarrow> unit sys \<times> 'w) option"
  rmdir_p :: "(string \<Rightarrow> 'w \<Rightarrow> unit sys \<times> 'w) option"
  truncate_p :: "(string \<Rightarrow> int \<Rightarrow> 'w \<Rightarrow> unit sys \<times> 'w) option"
  ftruncate_p :: "(int \<Rightarrow> int \<Rightarrow> 'w \<Rightarrow> unit sys \<times> 'w) option"
  utime_p :: "(string \<Rightarrow> int \<Rightarrow> 'w \<Rightarrow> unit sys \<times> 'w) option"

text \<open>\<^verbatim>\<open>s_dead_ops\<close> and \<^verbatim>\<open>s_dead_dir\<close>.\<close>

definition dead_ops :: "'w fs_ops" where
  "dead_ops = \<lparr>open_p = None, close_p = None, read_p = None, write_p = None, pread_p = None, pwrite_p = None,
     lseek_p = None, fstat_p = None, fsync_p = None, fcntl_p = None, stat_p = None, unlink_p = None,
     rename_p = None, opendir_p = None, readdir_p = None, readdir_r_p = None, closedir_p = None, telldir_p = None,
     seekdir_p = None, mkdir_p = None, rmdir_p = None, truncate_p = None, ftruncate_p = None, utime_p = None\<rparr>"

record 'w vfs =
  v_cx :: "('w fs_ops, 'w) fsctx"
  v_fds :: "fd_slot list"
  v_dirs :: "dir_slot list"
  v_slots :: "synth_slot list"
  v_sdirs :: "synth_dir list"

record caller =
  c_task :: task
  c_act :: act_as
  c_pid :: int

definition ops_of :: "'w vfs \<Rightarrow> mount_ref \<Rightarrow> 'w fs_ops" where
  "ops_of v m =
     (case m of
        Dead \<Rightarrow> dead_ops
      | At i \<Rightarrow> (case l_ops (cx_mounts (v_cx v) ! i) of Some ops \<Rightarrow> ops | None \<Rightarrow> dead_ops))"

definition set_world :: "'w vfs \<Rightarrow> 'w \<Rightarrow> 'w vfs" where
  "set_world v w = v\<lparr>v_cx := (v_cx v)\<lparr>cx_world := w\<rparr>\<rparr>"

text \<open>A call of an operation of the layer below: ENOSYS when it has none.\<close>

definition lower_call :: "('w \<Rightarrow> 'a sys \<times> 'w) option \<Rightarrow> 'w vfs \<Rightarrow> 'a sys \<times> 'w vfs" where
  "lower_call f v =
     (case f of
        None \<Rightarrow> (Inl ENOSYS, v)
      | Some g \<Rightarrow> (let (r, w) = g (cx_world (v_cx v)) in (r, set_world v w)))"

definition resolve :: "caller \<Rightarrow> string option \<Rightarrow> string sys" where
  "resolve c path =
     (case path of
        None \<Rightarrow> Inl ENAMETOOLONG
      | Some p \<Rightarrow>
          (case espix_fs_resolve (Some (t_cwd (c_task c))) (Some p) (Some (replicate ESPIX_PATH_MAX NUL)) of
             Inl _ \<Rightarrow> Inl ENAMETOOLONG
           | Inr buf \<Rightarrow>
               if t_root (c_task c) \<noteq> [] \<and> \<not> espix_fs_root_permits (c_task c) (Some (cstr_of buf))
               then Inl ENOENT else Inr (cstr_of buf)))"

text \<open>The permission bits and the owner of what the layer below reports are replaced by espix's answer.\<close>

definition stat_fixup :: "('w fs_ops, 'w) fsctx \<Rightarrow> string \<Rightarrow> stat \<Rightarrow> stat" where
  "stat_fixup cx p st =
     (let m = (st_mode st AND NOT ESPIX_MODE_BITS) OR
              (ucast (espix_fs_mode cx (\<lambda>_. None) (Some p) (Some st)) AND ESPIX_MODE_BITS);
          st1 = st\<lparr>st_mode := m\<rparr>;
          (u, g) = espix_fs_owner cx (\<lambda>_. None) (Some p) (Some st1)
      in st1\<lparr>st_uid := u, st_gid := g\<rparr>)"

definition vfs_stat :: "'w vfs \<Rightarrow> caller \<Rightarrow> string option \<Rightarrow> stat sys" where
  "vfs_stat v c path =
     (case resolve c path of
        Inl e \<Rightarrow> Inl e
      | Inr p \<Rightarrow>
          (let cx = v_cx v in
           case espix_synth_lookup (cx_app cx) (cx_trees cx) p of
             Some n \<Rightarrow> Inr \<lparr>st_mode = n_mode n, st_uid = 0, st_gid = 0\<rparr>
           | None \<Rightarrow>
               if espix_synth_isdir (cx_trees cx) p then Inr \<lparr>st_mode = 0x41ED, st_uid = 0, st_gid = 0\<rparr>
               else if espix_synth_under (cx_trees cx) p then Inl ENOENT
               else (case stat_p (ops_of v (mount_by_path (cx_mounts cx) p)) of
                       None \<Rightarrow> Inl ENOSYS
                     | Some f \<Rightarrow> (case f p (cx_world cx) of
                                    Inl e \<Rightarrow> Inl e
                                  | Inr st \<Rightarrow> Inr (stat_fixup cx p st)))))"

definition statf :: "'w vfs \<Rightarrow> caller \<Rightarrow> string \<Rightarrow> stat option" where
  "statf v c p = (case vfs_stat v c (Some p) of Inl _ \<Rightarrow> None | Inr st \<Rightarrow> Some st)"

definition access_check :: "'w vfs \<Rightarrow> caller \<Rightarrow> string \<Rightarrow> access_op \<Rightarrow> u32 \<Rightarrow> errno option" where
  "access_check v c p op flags =
     espix_fs_access_check (v_cx v) (c_act c) (c_task c) (statf v c) (Some p) op flags"

definition claim :: "'w vfs \<Rightarrow> caller \<Rightarrow> string \<Rightarrow> u32 \<Rightarrow> 'w vfs" where
  "claim v c p mode = v\<lparr>v_cx := espix_fs_claim (v_cx v) (c_act c) (c_task c) (statf v c) (Some p) mode\<rparr>"

text \<open>What follows the open of the layer below: a number for the new file, or its release.\<close>

definition install_fd :: "'w vfs \<Rightarrow> caller \<Rightarrow> mount_ref \<Rightarrow> nat \<Rightarrow> nat sys \<times> 'w vfs" where
  "install_fd v c l fd =
     (let give_back = (case close_p (ops_of v l) of
                         None \<Rightarrow> v
                       | Some f \<Rightarrow> set_world v (snd (f (int fd) (cx_world (v_cx v)))))
      in if ESPIX_SYNTH_FD_BASE \<le> fd then (Inl EMFILE, give_back)
         else (case fd_slot_alloc (v_fds v) (c_pid c) (int fd) l of
                 None \<Rightarrow> (Inl EMFILE, give_back)
               | Some (fds, key) \<Rightarrow> (Inr key, v\<lparr>v_fds := fds\<rparr>)))"

definition vfs_open :: "'w vfs \<Rightarrow> caller \<Rightarrow> string option \<Rightarrow> u32 \<Rightarrow> u32 \<Rightarrow> nat sys \<times> 'w vfs" where
  "vfs_open v c path flags mode =
     (case resolve c path of
        Inl e \<Rightarrow> (Inl e, v)
      | Inr p \<Rightarrow>
          (case access_check v c p ACC_OPEN flags of
             Some e \<Rightarrow> (Inl e, v)
           | None \<Rightarrow>
               (case espix_synth_lookup (cx_app (v_cx v)) (cx_trees (v_cx v)) p of
                  Some n \<Rightarrow>
                    (case espix_synth_open (v_slots v) n flags of
                       Inl e \<Rightarrow> (Inl e, v)
                     | Inr (slots, fd) \<Rightarrow> (Inr fd, v\<lparr>v_slots := slots\<rparr>))
                | None \<Rightarrow>
                    if espix_synth_isdir (cx_trees (v_cx v)) p then (Inl EISDIR, v)
                    else if espix_synth_under (cx_trees (v_cx v)) p
                    then (Inl (if flags AND O_CREAT \<noteq> 0 then EROFS else ENOENT), v)
                    else
                      (let l = mount_by_path (cx_mounts (v_cx v)) p;
                           creating = (flags AND O_CREAT \<noteq> 0 \<and> Option.is_none (statf v c p)) in
                       case open_p (ops_of v l) of
                         None \<Rightarrow> (Inl ENOSYS, v)
                       | Some f \<Rightarrow>
                           (case f p flags mode (cx_world (v_cx v)) of
                              (Inl e, w) \<Rightarrow> (Inl e, set_world v w)
                            | (Inr fd, w) \<Rightarrow>
                                (case install_fd (set_world v w) c l fd of
                                   (Inl e, v') \<Rightarrow> (Inl e, v')
                                 | (Inr key, v') \<Rightarrow>
                                     (Inr key, if creating then claim v' c p mode else v')))))))"

definition vfs_close :: "'w vfs \<Rightarrow> int \<Rightarrow> unit sys \<times> 'w vfs" where
  "vfs_close v fd =
     (if int ESPIX_SYNTH_FD_BASE \<le> fd then
        (let (r, slots) = espix_synth_close (v_slots v) fd in (r, v\<lparr>v_slots := slots\<rparr>))
      else (case fd_slot_unref (v_fds v) fd of
              None \<Rightarrow> (Inl EBADF, v)
            | Some (slot, False, fds) \<Rightarrow> (Inr (), v\<lparr>v_fds := fds\<rparr>)
            | Some (slot, True, fds) \<Rightarrow>
                (let (r, v') = lower_call (map_option (\<lambda>f. f (lower_fd slot))
                       (close_p (ops_of v (mount_of_slot (cx_mounts (v_cx v)) slot)))) v
                 in (r, v'\<lparr>v_fds := fd_slot_free (v_fds v') fd\<rparr>))))"

text \<open>The operations on a descriptor of the layers below share one shape.\<close>

definition on_fd ::
  "'w vfs \<Rightarrow> int \<Rightarrow> ('w fs_ops \<Rightarrow> (int \<Rightarrow> 'w \<Rightarrow> 'a sys \<times> 'w) option) \<Rightarrow> 'a sys \<times> 'w vfs" where
  "on_fd v fd op =
     (case fd_slot_get (v_fds v) fd of
        None \<Rightarrow> (Inl EBADF, v)
      | Some slot \<Rightarrow> lower_call (map_option (\<lambda>f. f (lower_fd slot))
                           (op (ops_of v (mount_of_slot (cx_mounts (v_cx v)) slot)))) v)"

definition vfs_read :: "'w vfs \<Rightarrow> int \<Rightarrow> nat \<Rightarrow> string sys \<times> 'w vfs" where
  "vfs_read v fd sz =
     (if int ESPIX_SYNTH_FD_BASE \<le> fd then
        (let (r, slots) = espix_synth_read (cx_app (v_cx v)) (v_slots v) fd sz in (r, v\<lparr>v_slots := slots\<rparr>))
      else on_fd v fd (\<lambda>ops. map_option (\<lambda>f lfd. f lfd sz) (read_p ops)))"

definition vfs_write :: "'w vfs \<Rightarrow> int \<Rightarrow> string \<Rightarrow> nat sys \<times> 'w vfs" where
  "vfs_write v fd data =
     (if int ESPIX_SYNTH_FD_BASE \<le> fd then (espix_synth_write (v_slots v) fd data, v)
      else on_fd v fd (\<lambda>ops. map_option (\<lambda>f lfd. f lfd data) (write_p ops)))"

definition vfs_pread :: "'w vfs \<Rightarrow> int \<Rightarrow> nat \<Rightarrow> int \<Rightarrow> string sys \<times> 'w vfs" where
  "vfs_pread v fd sz off =
     (if int ESPIX_SYNTH_FD_BASE \<le> fd then (espix_synth_pread (cx_app (v_cx v)) (v_slots v) fd sz off, v)
      else on_fd v fd (\<lambda>ops. map_option (\<lambda>f lfd. f lfd sz off) (pread_p ops)))"

definition vfs_pwrite :: "'w vfs \<Rightarrow> int \<Rightarrow> string \<Rightarrow> int \<Rightarrow> nat sys \<times> 'w vfs" where
  "vfs_pwrite v fd data off =
     (if int ESPIX_SYNTH_FD_BASE \<le> fd then (espix_synth_write (v_slots v) fd data, v)
      else on_fd v fd (\<lambda>ops. map_option (\<lambda>f lfd. f lfd data off) (pwrite_p ops)))"

definition vfs_lseek :: "'w vfs \<Rightarrow> int \<Rightarrow> int \<Rightarrow> whence \<Rightarrow> int sys \<times> 'w vfs" where
  "vfs_lseek v fd off wh =
     (if int ESPIX_SYNTH_FD_BASE \<le> fd then
        (let (r, slots) = espix_synth_lseek (cx_app (v_cx v)) (v_slots v) fd off wh in (r, v\<lparr>v_slots := slots\<rparr>))
      else on_fd v fd (\<lambda>ops. map_option (\<lambda>f lfd. f lfd off wh) (lseek_p ops)))"

text \<open>The block size stdio sizes its buffers from is at least 4096.\<close>

definition vfs_fstat :: "'w vfs \<Rightarrow> int \<Rightarrow> (stat \<times> nat) sys" where
  "vfs_fstat v fd =
     (if int ESPIX_SYNTH_FD_BASE \<le> fd then
        (case slot_of (v_slots v) fd of
           None \<Rightarrow> Inl EBADF
         | Some (i, n, pos) \<Rightarrow> Inr (\<lparr>st_mode = n_mode n, st_uid = 0, st_gid = 0\<rparr>, 4096))
      else
        (case fd_slot_get (v_fds v) fd of
           None \<Rightarrow> Inl EBADF
         | Some slot \<Rightarrow>
             (case fstat_p (ops_of v (mount_of_slot (cx_mounts (v_cx v)) slot)) of
                None \<Rightarrow> Inl ENOSYS
              | Some f \<Rightarrow> (case f (lower_fd slot) (cx_world (v_cx v)) of
                             Inl e \<Rightarrow> Inl e
                           | Inr (st, blk) \<Rightarrow> Inr (st, if blk < 4096 then 4096 else blk)))))"

definition vfs_fsync :: "'w vfs \<Rightarrow> int \<Rightarrow> unit sys \<times> 'w vfs" where
  "vfs_fsync v fd =
     (if int ESPIX_SYNTH_FD_BASE \<le> fd then (espix_synth_fsync (v_slots v) fd, v)
      else on_fd v fd fsync_p)"

definition vfs_fcntl :: "'w vfs \<Rightarrow> int \<Rightarrow> int \<Rightarrow> int \<Rightarrow> int sys \<times> 'w vfs" where
  "vfs_fcntl v fd cmd arg =
     (if int ESPIX_SYNTH_FD_BASE \<le> fd then (Inr 0, v)
      else on_fd v fd (\<lambda>ops. map_option (\<lambda>f lfd. f lfd cmd arg) (fcntl_p ops)))"

definition vfs_ftruncate :: "'w vfs \<Rightarrow> int \<Rightarrow> int \<Rightarrow> unit sys \<times> 'w vfs" where
  "vfs_ftruncate v fd len =
     (if int ESPIX_SYNTH_FD_BASE \<le> fd then (Inl EINVAL, v)
      else on_fd v fd (\<lambda>ops. map_option (\<lambda>f lfd. f lfd len) (ftruncate_p ops)))"

definition synthetic :: "'w vfs \<Rightarrow> string \<Rightarrow> bool" where
  "synthetic v p \<longleftrightarrow> espix_synth_isdir (cx_trees (v_cx v)) p \<or> espix_synth_under (cx_trees (v_cx v)) p"

text \<open>The operations that change what is at a path: refused on the synthetic trees, then asked for,
  then dispatched.\<close>

definition on_path ::
  "'w vfs \<Rightarrow> caller \<Rightarrow> string option \<Rightarrow> access_op \<Rightarrow> ('w fs_ops \<Rightarrow> (string \<Rightarrow> 'w \<Rightarrow> unit sys \<times> 'w) option) \<Rightarrow>
   unit sys \<times> 'w vfs" where
  "on_path v c path aop op =
     (case resolve c path of
        Inl e \<Rightarrow> (Inl e, v)
      | Inr p \<Rightarrow>
          if synthetic v p then (Inl EROFS, v)
          else (case access_check v c p aop 0 of
                  Some e \<Rightarrow> (Inl e, v)
                | None \<Rightarrow> lower_call (map_option (\<lambda>f. f p)
                            (op (ops_of v (mount_by_path (cx_mounts (v_cx v)) p)))) v))"

definition vfs_unlink :: "'w vfs \<Rightarrow> caller \<Rightarrow> string option \<Rightarrow> unit sys \<times> 'w vfs" where
  "vfs_unlink v c path = on_path v c path ACC_UNLINK unlink_p"

definition vfs_rmdir :: "'w vfs \<Rightarrow> caller \<Rightarrow> string option \<Rightarrow> unit sys \<times> 'w vfs" where
  "vfs_rmdir v c path = on_path v c path ACC_RMDIR rmdir_p"

definition vfs_truncate :: "'w vfs \<Rightarrow> caller \<Rightarrow> string option \<Rightarrow> int \<Rightarrow> unit sys \<times> 'w vfs" where
  "vfs_truncate v c path len =
     on_path v c path ACC_TRUNCATE (\<lambda>ops. map_option (\<lambda>f p. f p len) (truncate_p ops))"

definition vfs_rename :: "'w vfs \<Rightarrow> caller \<Rightarrow> string option \<Rightarrow> string option \<Rightarrow> unit sys \<times> 'w vfs" where
  "vfs_rename v c src dst =
     (case resolve c src of
        Inl e \<Rightarrow> (Inl e, v)
      | Inr s \<Rightarrow>
          (case resolve c dst of
             Inl e \<Rightarrow> (Inl e, v)
           | Inr d \<Rightarrow>
               if synthetic v s \<or> synthetic v d then (Inl EROFS, v)
               else (case (case access_check v c s ACC_RENAME 0 of
                             None \<Rightarrow> access_check v c d ACC_RENAME 0
                           | Some e \<Rightarrow> Some e) of
                       Some e \<Rightarrow> (Inl e, v)
                     | None \<Rightarrow>
                         (let l = mount_by_path (cx_mounts (v_cx v)) s in
                          if mount_by_path (cx_mounts (v_cx v)) d \<noteq> l then (Inl EXDEV, v)
                          else lower_call (map_option (\<lambda>f. f s d) (rename_p (ops_of v l))) v))))"

definition vfs_mkdir :: "'w vfs \<Rightarrow> caller \<Rightarrow> string option \<Rightarrow> u32 \<Rightarrow> unit sys \<times> 'w vfs" where
  "vfs_mkdir v c path mode =
     (case resolve c path of
        Inl e \<Rightarrow> (Inl e, v)
      | Inr p \<Rightarrow>
          if espix_synth_under (cx_trees (v_cx v)) p then (Inl EROFS, v)
          else (case access_check v c p ACC_MKDIR 0 of
                  Some e \<Rightarrow> (Inl e, v)
                | None \<Rightarrow>
                    (case lower_call (map_option (\<lambda>f. f p mode)
                        (mkdir_p (ops_of v (mount_by_path (cx_mounts (v_cx v)) p)))) v of
                       (Inl e, v') \<Rightarrow> (Inl e, v')
                     | (Inr _, v') \<Rightarrow> (Inr (), claim v' c p mode))))"

text \<open>\<^verbatim>\<open>vfs_utime\<close> asks for no permission.\<close>

definition vfs_utime :: "'w vfs \<Rightarrow> caller \<Rightarrow> string option \<Rightarrow> int \<Rightarrow> unit sys \<times> 'w vfs" where
  "vfs_utime v c path tm =
     (case resolve c path of
        Inl e \<Rightarrow> (Inl e, v)
      | Inr p \<Rightarrow>
          if synthetic v p then (Inl EROFS, v)
          else lower_call (map_option (\<lambda>f. f p tm)
                 (utime_p (ops_of v (mount_by_path (cx_mounts (v_cx v)) p)))) v)"

text \<open>A directory handle: a slot of the synthetic table, or the pointer of a driver.\<close>

datatype dir_handle = Synth_Dir nat | Lower_Dir nat

definition vfs_opendir :: "'w vfs \<Rightarrow> caller \<Rightarrow> string option \<Rightarrow> dir_handle sys \<times> 'w vfs" where
  "vfs_opendir v c path =
     (case resolve c path of
        Inl e \<Rightarrow> (Inl e, v)
      | Inr p \<Rightarrow>
          (case access_check v c p ACC_OPENDIR 0 of
             Some e \<Rightarrow> (Inl e, v)
           | None \<Rightarrow>
               if espix_synth_isdir (cx_trees (v_cx v)) p then
                 (case espix_synth_opendir (cx_trees (v_cx v)) (v_sdirs v) (Some p) of
                    Inl e \<Rightarrow> (Inl e, v)
                  | Inr (sd, i) \<Rightarrow> (Inr (Synth_Dir i), v\<lparr>v_sdirs := sd\<rparr>))
               else if espix_synth_under (cx_trees (v_cx v)) p then (Inl ENOTDIR, v)
               else
                 (let l = mount_by_path (cx_mounts (v_cx v)) p in
                  case lower_call (map_option (\<lambda>f. f p) (opendir_p (ops_of v l))) v of
                    (Inl e, v') \<Rightarrow> (Inl e, v')
                  | (Inr pdir, v') \<Rightarrow>
                      (Inr (Lower_Dir pdir),
                       case l of Dead \<Rightarrow> v' | At i \<Rightarrow> v'\<lparr>v_dirs := dir_map_set (v_dirs v') pdir i\<rparr>))))"

text \<open>The layer below an open directory: \<open>None\<close> when the handle is nobody's.\<close>

definition dir_ops :: "'w vfs \<Rightarrow> dir_handle \<Rightarrow> 'w fs_ops option" where
  "dir_ops v h =
     (case h of
        Synth_Dir i \<Rightarrow> None
      | Lower_Dir p \<Rightarrow> map_option (ops_of v) (mount_by_dir (v_dirs v) p))"

definition vfs_readdir :: "'w vfs \<Rightarrow> dir_handle \<Rightarrow> (string \<times> dirent_type) option sys \<times> 'w vfs" where
  "vfs_readdir v h =
     (case h of
        Synth_Dir i \<Rightarrow>
          (let (r, sd) = espix_synth_readdir_r (cx_app (v_cx v)) (v_sdirs v) i in (r, v\<lparr>v_sdirs := sd\<rparr>))
      | Lower_Dir p \<Rightarrow>
          (case dir_ops v h of
             None \<Rightarrow> (Inl EBADF, v)
           | Some ops \<Rightarrow> lower_call (map_option (\<lambda>f. f p) (readdir_p ops)) v))"

definition vfs_readdir_r :: "'w vfs \<Rightarrow> dir_handle \<Rightarrow> (string \<times> dirent_type) option sys \<times> 'w vfs" where
  "vfs_readdir_r v h =
     (case h of
        Synth_Dir i \<Rightarrow>
          (let (r, sd) = espix_synth_readdir_r (cx_app (v_cx v)) (v_sdirs v) i in (r, v\<lparr>v_sdirs := sd\<rparr>))
      | Lower_Dir p \<Rightarrow>
          (case dir_ops v h of
             None \<Rightarrow> (Inl EBADF, v)
           | Some ops \<Rightarrow> lower_call (map_option (\<lambda>f. f p) (readdir_r_p ops)) v))"

definition vfs_telldir :: "'w vfs \<Rightarrow> dir_handle \<Rightarrow> int" where
  "vfs_telldir v h =
     (case h of
        Synth_Dir i \<Rightarrow> espix_synth_telldir (v_sdirs v) i
      | Lower_Dir p \<Rightarrow>
          (case dir_ops v h of
             None \<Rightarrow> -1
           | Some ops \<Rightarrow> (case telldir_p ops of
                            None \<Rightarrow> -1
                          | Some f \<Rightarrow> (case f p (cx_world (v_cx v)) of Inl _ \<Rightarrow> -1 | Inr k \<Rightarrow> k))))"

definition vfs_seekdir :: "'w vfs \<Rightarrow> dir_handle \<Rightarrow> int \<Rightarrow> 'w vfs" where
  "vfs_seekdir v h off =
     (case h of
        Synth_Dir i \<Rightarrow> v\<lparr>v_sdirs := espix_synth_seekdir (v_sdirs v) i off\<rparr>
      | Lower_Dir p \<Rightarrow>
          (case dir_ops v h of
             None \<Rightarrow> v
           | Some ops \<Rightarrow> (case seekdir_p ops of
                            None \<Rightarrow> v
                          | Some f \<Rightarrow> set_world v (f p off (cx_world (v_cx v))))))"

definition vfs_closedir :: "'w vfs \<Rightarrow> dir_handle \<Rightarrow> unit sys \<times> 'w vfs" where
  "vfs_closedir v h =
     (case h of
        Synth_Dir i \<Rightarrow>
          (let (r, sd) = espix_synth_closedir (v_sdirs v) i in (r, v\<lparr>v_sdirs := sd\<rparr>))
      | Lower_Dir p \<Rightarrow>
          (case dir_ops v h of
             None \<Rightarrow> (Inl EBADF, v)
           | Some ops \<Rightarrow>
               (let (r, v') = lower_call (map_option (\<lambda>f. f p) (closedir_p ops)) v
                in (r, v'\<lparr>v_dirs := dir_map_clear (v_dirs v') p\<rparr>))))"

section \<open>Confinement\<close>

lemma resolve_confined:
  assumes "canonical root" "t_root (c_task c) = root" "\<not> privileged (c_task c)" "abs_path (t_cwd (c_task c))"
    "is_cstr p" "p \<noteq> []" "\<not> prefix (segments root) (canon (joined (t_cwd (c_task c)) p))"
  shows "resolve c (Some p) \<in> {Inl ENOENT, Inl ENAMETOOLONG}"
proof (cases "ESPIX_PATH_MAX \<le> length (joined (t_cwd (c_task c)) p)")
  case True
  then have "espix_fs_resolve (Some (t_cwd (c_task c))) (Some p) (Some (replicate ESPIX_PATH_MAX NUL)) = Inl ESP_ERR_INVALID_SIZE"
    using resolve_value[OF assms(4-6), of "replicate ESPIX_PATH_MAX NUL"] by simp
  then show ?thesis by (simp add: resolve_def)
next
  case False
  let ?q = "canon (joined (t_cwd (c_task c)) p)"
  obtain b where b: "espix_fs_resolve (Some (t_cwd (c_task c))) (Some p) (Some (replicate ESPIX_PATH_MAX NUL)) = Inr b"
    "cstr_of b = CHR ''/'' # render ?q" "canonical (cstr_of b)"
    using resolve_value[OF assms(4-6), of "replicate ESPIX_PATH_MAX NUL"] False canon_joined[OF assms(6)]
    by (auto simp: canon_def split: if_splits)
  have "segments (cstr_of b) = ?q"
    unfolding b(2) using joined_abs[OF assms(4-6)] by (intro segments_canon) (simp add: abs_path_def)
  then have "\<not> espix_fs_within (Some (cstr_of b)) (Some root)"
    using within_iff_comps[OF b(3) assms(1)] assms(7) by simp
  moreover have "root \<noteq> []" using canonical_abs[OF assms(1)] by (simp add: abs_path_def)
  ultimately show ?thesis using b(1) assms(2,3) by (simp add: resolve_def espix_fs_root_permits_def)
qed

lemma ops_unresolved:
  assumes "resolve c p = Inl e"
  shows "vfs_open v c p fl m = (Inl e, v)" "vfs_stat v c p = Inl e" "vfs_unlink v c p = (Inl e, v)"
    "vfs_rmdir v c p = (Inl e, v)" "vfs_truncate v c p len = (Inl e, v)" "vfs_mkdir v c p m = (Inl e, v)"
    "vfs_utime v c p tm = (Inl e, v)" "vfs_opendir v c p = (Inl e, v)" "vfs_rename v c p q = (Inl e, v)"
    "\<exists>e'. vfs_rename v c q p = (Inl e', v)"
  using assms by (auto simp: vfs_open_def vfs_stat_def vfs_unlink_def vfs_rmdir_def vfs_truncate_def on_path_def
      vfs_mkdir_def vfs_utime_def vfs_opendir_def vfs_rename_def split: sum.split)

text \<open>
  C1. A confined process cannot leave its root. Whatever it names, by \<open>..\<close>, \<open>//\<close>, relative or
  absolute, if the path meant is not below the root component by component, then opening, listing,
  stating, creating, removing, truncating, renaming from or to it and changing its times all fail,
  as if it did not exist, and leave the whole system state untouched.
\<close>

theorem confined_process_stays_inside:
  assumes "canonical root" "t_root (c_task c) = root" "\<not> privileged (c_task c)" "abs_path (t_cwd (c_task c))"
    "is_cstr p" "p \<noteq> []" "\<not> prefix (segments root) (canon (joined (t_cwd (c_task c)) p))"
  shows "\<exists>e. (e = ENOENT \<or> e = ENAMETOOLONG) \<and> vfs_open v c (Some p) fl m = (Inl e, v) \<and>
    vfs_stat v c (Some p) = Inl e \<and> vfs_unlink v c (Some p) = (Inl e, v) \<and> vfs_rmdir v c (Some p) = (Inl e, v) \<and>
    vfs_truncate v c (Some p) len = (Inl e, v) \<and> vfs_mkdir v c (Some p) m = (Inl e, v) \<and>
    vfs_utime v c (Some p) tm = (Inl e, v) \<and> vfs_opendir v c (Some p) = (Inl e, v) \<and>
    vfs_rename v c (Some p) q = (Inl e, v) \<and> (\<exists>e'. vfs_rename v c q (Some p) = (Inl e', v))"
proof -
  obtain e where e: "e = ENOENT \<or> e = ENAMETOOLONG" "resolve c (Some p) = Inl e"
    using resolve_confined[OF assms] by blast
  show ?thesis
    using e(1) by (intro exI[of _ e]) (simp add: ops_unresolved(1-9)[OF e(2)] ops_unresolved(10)[OF e(2)])
qed

definition jailed_ex :: caller where
  "jailed_ex = \<lparr>c_task = \<lparr>t_priv = 0, t_cwd = ''/srv/www'', t_root = ''/srv/www'', t_cred = Some (user_ex 0),
     t_session = None\<rparr>, c_act = None, c_pid = 4\<rparr>"

definition v_ex :: "unit vfs" where
  "v_ex = \<lparr>v_cx = \<lparr>cx_mounts = [free_mount\<lparr>l_ops := Some dead_ops, l_used := True, metadata := META_ESPIX, owner_uid := 0xFFFF\<rparr>,
       free_mount, free_mount, free_mount], cx_trees = [], cx_app = (\<lambda>_. None), cx_attrs = (\<lambda>_. None),
     cx_attr_err = (\<lambda>_. None), cx_owner_rule = None, cx_head4 = (\<lambda>_ _. None), cx_world = ()\<rparr>,
     v_fds = replicate 160 free_fd, v_dirs = replicate 8 \<lparr>dirp = 0, dir_mount = 0\<rparr>, v_slots = [], v_sdirs = []\<rparr>"

lemma canonical_srv: "canonical ''/srv/www''"
  unfolding canonical_def
  by (rule exI[of _ "[''srv'', ''www'']"]) (simp add: plain_seg_def good_seg_def NUL_def)

theorem confined_process_stays_inside_witness:
  "\<exists>e. (e = ENOENT \<or> e = ENAMETOOLONG) \<and> vfs_open v_ex jailed_ex (Some ''../../etc/passwd'') 0 0 = (Inl e, v_ex)"
proof -
  have j: "t_root (c_task jailed_ex) = ''/srv/www''" "\<not> privileged (c_task jailed_ex)"
    "abs_path (t_cwd (c_task jailed_ex))" "is_cstr ''../../etc/passwd''" "''../../etc/passwd'' \<noteq> []"
    by (simp_all add: jailed_ex_def privileged_def abs_path_def is_cstr_def NUL_def)
  have "\<not> prefix (segments ''/srv/www'') (canon (joined (t_cwd (c_task jailed_ex)) ''../../etc/passwd''))"
    by (simp add: jailed_ex_def joined_def canon_def push_seg_def segments.simps(2))
  from confined_process_stays_inside[OF canonical_srv j this, of v_ex 0 0 0 0 None]
  show ?thesis by (rule ex_forward) (elim conjE, intro conjI)
qed

section \<open>Permission before dispatch\<close>

lemma on_path_denied:
  assumes "resolve c path = Inr p" "access_check v c p aop 0 = Some e"
  shows "\<exists>e' \<in> {e, EROFS}. on_path v c path aop op = (Inl e', v)"
  using assms by (simp add: on_path_def)

lemma ops_denied:
  assumes "resolve c path = Inr p"
  shows "access_check v c p ACC_OPEN fl = Some e \<Longrightarrow> vfs_open v c path fl m = (Inl e, v)"
    "access_check v c p ACC_OPENDIR 0 = Some e \<Longrightarrow> vfs_opendir v c path = (Inl e, v)"
    "access_check v c p ACC_MKDIR 0 = Some e \<Longrightarrow> \<exists>e' \<in> {e, EROFS}. vfs_mkdir v c path m = (Inl e', v)"
    "access_check v c p ACC_RENAME 0 = Some e \<Longrightarrow> \<exists>e'. vfs_rename v c path q = (Inl e', v)"
    "access_check v c p ACC_RENAME 0 = Some e \<Longrightarrow> \<exists>e'. vfs_rename v c q path = (Inl e', v)"
proof -
  show "access_check v c p ACC_OPEN fl = Some e \<Longrightarrow> vfs_open v c path fl m = (Inl e, v)"
    using assms by (simp add: vfs_open_def)
  show "access_check v c p ACC_OPENDIR 0 = Some e \<Longrightarrow> vfs_opendir v c path = (Inl e, v)"
    using assms by (simp add: vfs_opendir_def)
  show "access_check v c p ACC_MKDIR 0 = Some e \<Longrightarrow> \<exists>e' \<in> {e, EROFS}. vfs_mkdir v c path m = (Inl e', v)"
    using assms by (simp add: vfs_mkdir_def)
  show "access_check v c p ACC_RENAME 0 = Some e \<Longrightarrow> \<exists>e'. vfs_rename v c path q = (Inl e', v)"
    using assms by (simp add: vfs_rename_def split: sum.split)
  show "access_check v c p ACC_RENAME 0 = Some e \<Longrightarrow> \<exists>e'. vfs_rename v c q path = (Inl e', v)"
    using assms by (simp add: vfs_rename_def split: sum.split option.split)
qed

text \<open>
  C16. Nothing reaches a filesystem before the permission check: where the check refuses an
  operation on a path, the operation fails with that error (or with the read-only error of the
  synthetic trees) and neither the filesystems below nor any table changes.
\<close>

theorem denied_leaves_untouched:
  assumes "resolve c path = Inr p" "access_check v c p op fl = Some e"
  shows "(op = ACC_OPEN \<longrightarrow> vfs_open v c path fl m = (Inl e, v)) \<and>
    (op = ACC_OPENDIR \<and> fl = 0 \<longrightarrow> vfs_opendir v c path = (Inl e, v)) \<and>
    (op = ACC_UNLINK \<and> fl = 0 \<longrightarrow> (\<exists>e' \<in> {e, EROFS}. vfs_unlink v c path = (Inl e', v))) \<and>
    (op = ACC_RMDIR \<and> fl = 0 \<longrightarrow> (\<exists>e' \<in> {e, EROFS}. vfs_rmdir v c path = (Inl e', v))) \<and>
    (op = ACC_TRUNCATE \<and> fl = 0 \<longrightarrow> (\<exists>e' \<in> {e, EROFS}. vfs_truncate v c path len = (Inl e', v))) \<and>
    (op = ACC_MKDIR \<and> fl = 0 \<longrightarrow> (\<exists>e' \<in> {e, EROFS}. vfs_mkdir v c path m = (Inl e', v))) \<and>
    (op = ACC_RENAME \<and> fl = 0 \<longrightarrow> (\<exists>e'. vfs_rename v c path q = (Inl e', v)) \<and> (\<exists>e'. vfs_rename v c q path = (Inl e', v)))"
  unfolding vfs_unlink_def vfs_rmdir_def vfs_truncate_def
  using ops_denied[OF assms(1), of v] on_path_denied[OF assms(1), of v] assms(2) by blast

lemma resolve_unconfined:
  assumes "t_root (c_task c) = []" "abs_path (t_cwd (c_task c))" "is_cstr p" "p \<noteq> []"
    "length (joined (t_cwd (c_task c)) p) < ESPIX_PATH_MAX"
  shows "resolve c (Some p) = Inr (CHR ''/'' # render (canon (joined (t_cwd (c_task c)) p)))"
proof -
  obtain b where "espix_fs_resolve (Some (t_cwd (c_task c))) (Some p) (Some (replicate ESPIX_PATH_MAX NUL)) = Inr b"
    "cstr_of b = CHR ''/'' # render (canon (joined (t_cwd (c_task c)) p))"
    using resolve_value[OF assms(2-4), of "replicate ESPIX_PATH_MAX NUL"] assms(5) canon_joined[OF assms(4)]
    by (auto simp: canon_def split: if_splits)
  then show ?thesis using assms(1) by (simp add: resolve_def)
qed

text \<open>A root filesystem with one file \<open>/a\<close> of user 7, over a driver whose state is one number.\<close>

definition ops_ex :: "int fs_ops" where
  "ops_ex = dead_ops\<lparr>stat_p := Some (\<lambda>p w. if p = ''/a'' then Inr \<lparr>st_mode = 0x8000, st_uid = 0, st_gid = 0\<rparr> else Inl ENOENT),
     open_p := Some (\<lambda>p fl m w. (Inr 3, w)), close_p := Some (\<lambda>fd w. (Inr (), 0)),
     read_p := Some (\<lambda>fd n w. (Inr ''hi'', fd)), utime_p := Some (\<lambda>p tm w. (Inr (), tm)),
     opendir_p := Some (\<lambda>p w. (Inr 77, w)), readdir_p := Some (\<lambda>d w. (Inr None, w + 1)),
     closedir_p := Some (\<lambda>d w. (Inr (), w))\<rparr>"

definition v_disk :: "u16 \<Rightarrow> int vfs" where
  "v_disk m = \<lparr>v_cx = \<lparr>cx_mounts = [free_mount\<lparr>l_ops := Some ops_ex, l_used := True, metadata := META_ESPIX, owner_uid := 0xFFFF\<rparr>,
       free_mount, free_mount, free_mount], cx_trees = [], cx_app = (\<lambda>_. None),
       cx_attrs = [''/a'' \<mapsto> \<lparr>a_mode = m, a_uid = 7, a_gid = 7\<rparr>],
     cx_attr_err = (\<lambda>_. None), cx_owner_rule = None, cx_head4 = (\<lambda>_ _. None), cx_world = 0\<rparr>,
     v_fds = replicate 160 free_fd, v_dirs = replicate 8 \<lparr>dirp = 0, dir_mount = 0\<rparr>, v_slots = [], v_sdirs = []\<rparr>"

definition user_caller :: "u16 \<Rightarrow> caller" where
  "user_caller u = \<lparr>c_task = task_ex u, c_act = None, c_pid = 4\<rparr>"

lemma resolve_a: "resolve (user_caller u) (Some ''/a'') = Inr ''/a''"
  using resolve_unconfined[of "user_caller u" "''/a''"]
  by (simp add: user_caller_def task_ex_def abs_path_def is_cstr_def joined_def canon_def push_seg_def segments.simps(2) NUL_def)

lemma v_disk_tables:
  "cx_trees (v_cx (v_disk m)) = []" "mount_by_path (cx_mounts (v_cx (v_disk m))) p = At 0" "ops_of (v_disk m) (At 0) = ops_ex"
  by (simp_all add: v_disk_def ops_of_def mount_by_path_def mount_best_def mount_step_def free_mount_def upt_conv_Cons Let_def)

lemma no_synth [simp]:
  "espix_synth_lookup app [] p = None" "espix_synth_isdir [] p = False" "espix_synth_under [] p = False"
  by (simp_all add: espix_synth_lookup_def espix_synth_isdir_def espix_synth_under_def under_tree_def dir_tree_def subdir_tree_def)

lemma v_disk_attr: "attr_effective (v_cx (v_disk m)) ''/a'' st = \<lparr>a_mode = m, a_uid = 7, a_gid = 7\<rparr>"
  using v_disk_tables(2)[of m "''/a''"]
  by (simp add: attr_effective_def attr_read_def espix_vfs_metadata_def) (simp add: v_disk_def)

lemma v_disk_owner: "espix_fs_owner (v_cx (v_disk m)) sf (Some ''/a'') (Some st) = (7, 7)"
  by (simp add: espix_fs_owner_def the_stat_def v_disk_attr)

lemma v_disk_mode: "espix_fs_mode (v_cx (v_disk m)) sf (Some ''/a'') (Some st) = m AND ESPIX_MODE_BITS"
  by (simp add: espix_fs_mode_def the_stat_def v_disk_attr espix_synth_mode_def v_disk_tables)

lemma v_disk_stat: "\<exists>st. statf (v_disk m) (user_caller u) ''/a'' = Some st"
  by (simp add: statf_def vfs_stat_def resolve_a v_disk_tables Let_def) (simp add: ops_ex_def)

lemma v_disk_user:
  "\<not> privileged (c_task (user_caller u))" "subject (c_act (user_caller u)) (c_task (user_caller u)) = Some (user_ex u)"
  by (simp_all add: user_caller_def task_ex_def privileged_def subject_def)

lemma v_disk_check:
  assumes "u \<noteq> 0"
  shows "access_check (v_disk m) (user_caller u) ''/a'' ACC_OPEN 0 =
    (if bit (m AND ESPIX_MODE_BITS) (8 - triad (user_ex u) (7, 7)) then None else Some EACCES)"
    "access_check (v_disk m) (user_caller u) ''/a'' ACC_TRUNCATE 0 =
    (if bit (m AND ESPIX_MODE_BITS) (7 - triad (user_ex u) (7, 7)) then None else Some EACCES)"
proof -
  have nz: "s_uid (user_ex u) \<noteq> 0" using assms by (simp add: user_ex_def)
  obtain st where st: "statf (v_disk m) (user_caller u) ''/a'' = Some st" using v_disk_stat by blast
  have hp: "has_perm (v_cx (v_disk m)) (statf (v_disk m) (user_caller u)) (user_ex u) ''/a'' q =
      bit (m AND ESPIX_MODE_BITS) (perm_bit q - triad (user_ex u) (7, 7))" for q
    by (simp only: has_perm_def st option.case v_disk_mode v_disk_owner)
  show "access_check (v_disk m) (user_caller u) ''/a'' ACC_OPEN 0 =
    (if bit (m AND ESPIX_MODE_BITS) (8 - triad (user_ex u) (7, 7)) then None else Some EACCES)"
    "access_check (v_disk m) (user_caller u) ''/a'' ACC_TRUNCATE 0 =
    (if bit (m AND ESPIX_MODE_BITS) (7 - triad (user_ex u) (7, 7)) then None else Some EACCES)"
    unfolding access_check_def access_check_eq[OF v_disk_user nz]
    by (simp_all only: unix_allows_def Let_def access_op.case hp perm_bit.simps) simp_all
qed

theorem denied_leaves_untouched_witness:
  "vfs_open (v_disk 0x180) (user_caller 8) (Some ''/a'') 0 0 = (Inl EACCES, v_disk 0x180)"
proof -
  have "access_check (v_disk 0x180) (user_caller 8) ''/a'' ACC_OPEN 0 = Some EACCES"
    unfolding v_disk_check[of 8, simplified] by (simp add: triad_def user_ex_def holds_group_def)
  from denied_leaves_untouched[OF resolve_a this] show ?thesis by simp
qed

section \<open>Descriptors\<close>

lemma set_world_simps [simp]:
  "v_fds (set_world v w) = v_fds v" "v_dirs (set_world v w) = v_dirs v"
  "cx_mounts (v_cx (set_world v w)) = cx_mounts (v_cx v)" "ops_of (set_world v w) m = ops_of v m"
  by (simp_all add: set_world_def ops_of_def split: mount_ref.split)

lemma attr_store_mounts: "attr_store cx p st a = (e, x, cx') \<Longrightarrow> cx_mounts cx' = cx_mounts cx"
  by (auto simp: attr_store_def split: option.splits prod.splits if_splits)

lemma claim_simps [simp]:
  "v_fds (claim v c p m) = v_fds v" "cx_mounts (v_cx (claim v c p m)) = cx_mounts (v_cx v)"
proof -
  show "v_fds (claim v c p m) = v_fds v" by (simp add: claim_def)
  have "cx_mounts (espix_fs_claim cx act t sf (Some p) m) = cx_mounts cx" for cx :: "('a fs_ops, 'a) fsctx" and act t sf
  proof -
    have "cx_mounts (snd (snd (espix_fs_stamp cx sf (Some p) w u g))) = cx_mounts cx" for w u g
    proof (cases "sf p")
      case (Some st)
      obtain e x cx' where "attr_store cx p st \<lparr>a_mode = ucast (w AND ESPIX_MODE_BITS), a_uid = u, a_gid = g\<rparr> = (e, x, cx')"
        by (metis prod_cases3)
      with attr_store_mounts[OF this] Some show ?thesis by (simp add: espix_fs_stamp_def)
    qed (simp add: espix_fs_stamp_def)
    then show ?thesis by (simp add: espix_fs_claim_def Let_def split: option.split)
  qed
  then show "cx_mounts (v_cx (claim v c p m)) = cx_mounts (v_cx v)" by (simp add: claim_def)
qed

lemma mounts_dead_root: "mounts_ok ms \<Longrightarrow> mount_by_path ms p = At i \<Longrightarrow> i < ESPIX_FS_MAX_MOUNTS \<and> \<not> l_dead (ms ! i)"
  using mount_best_facts(1)[of ms p] by (auto simp: mount_by_path_def Let_def split: if_splits)

lemma install_fd_Inr:
  assumes "fds_ok (v_fds v)" "install_fd v c l fd = (Inr key, v')"
  obtains i fds where "l = At i" "fd_slot_alloc (v_fds v) (c_pid c) (int fd) (At i) = Some (fds, key)" "v' = v\<lparr>v_fds := fds\<rparr>"
    "key < ESPIX_SYNTH_FD_BASE"
proof -
  obtain fds where f: "fd_slot_alloc (v_fds v) (c_pid c) (int fd) l = Some (fds, key)" "v' = v\<lparr>v_fds := fds\<rparr>"
    using assms(2) by (auto simp: install_fd_def Let_def split: if_splits option.splits)
  obtain i where i: "l = At i" "key < length (v_fds v)"
    using fd_slot_alloc_Some[OF assms(1) f(1)] by metis
  then have "key < ESPIX_SYNTH_FD_BASE" using assms(1) by (simp add: fds_ok_def)
  with f i(1) that show ?thesis by blast
qed

lemma vfs_open_lower:
  assumes "fds_ok (v_fds v)" "vfs_open v c path fl m = (Inr key, v')" "key < ESPIX_SYNTH_FD_BASE"
  obtains p i lfd fds where "resolve c path = Inr p" "mount_by_path (cx_mounts (v_cx v)) p = At i"
    "fd_slot_alloc (v_fds v) (c_pid c) (int lfd) (At i) = Some (fds, key)" "v_fds v' = fds"
    "cx_mounts (v_cx v') = cx_mounts (v_cx v)" "\<exists>f w. open_p (ops_of v (At i)) = Some f \<and> f p fl m (cx_world (v_cx v)) = (Inr lfd, w)"
proof -
  obtain p where p: "resolve c path = Inr p" using assms(2) by (cases "resolve c path") (simp_all add: vfs_open_def)
  have a: "access_check v c p ACC_OPEN fl = None"
    using assms(2) p by (cases "access_check v c p ACC_OPEN fl") (simp_all add: vfs_open_def)
  have s: "espix_synth_lookup (cx_app (v_cx v)) (cx_trees (v_cx v)) p = None"
  proof (cases "espix_synth_lookup (cx_app (v_cx v)) (cx_trees (v_cx v)) p")
    case (Some n)
    then obtain sl where "espix_synth_open (v_slots v) n fl = Inr (sl, key)"
      using assms(2) p a by (auto simp: vfs_open_def split: sum.splits)
    then show ?thesis using assms(3) by (elim synth_open_Inr) simp
  qed
  let ?l = "mount_by_path (cx_mounts (v_cx v)) p"
  have d: "\<not> espix_synth_isdir (cx_trees (v_cx v)) p" "\<not> espix_synth_under (cx_trees (v_cx v)) p"
    using assms(2) p a s by (auto simp: vfs_open_def split: if_splits)
  obtain f where f: "open_p (ops_of v ?l) = Some f"
    using assms(2) p a s d by (cases "open_p (ops_of v ?l)") (simp_all add: vfs_open_def Let_def)
  obtain lfd w where w: "f p fl m (cx_world (v_cx v)) = (Inr lfd, w)"
    using assms(2) p a s d f by (auto simp: vfs_open_def Let_def split: prod.splits sum.splits)
  obtain v1 where v1: "install_fd (set_world v w) c ?l lfd = (Inr key, v1)"
    "v' = v1 \<or> v' = claim v1 c p m"
    using assms(2) p a s d f w by (auto simp: vfs_open_def Let_def split: prod.splits sum.splits if_splits)
  obtain i fds where i: "?l = At i" "fd_slot_alloc (v_fds v) (c_pid c) (int lfd) (At i) = Some (fds, key)"
    "v1 = (set_world v w)\<lparr>v_fds := fds\<rparr>"
    using install_fd_Inr[OF _ v1(1)] assms(1) unfolding set_world_simps by blast
  show ?thesis
    using that[OF p i(1,2)] v1(2) i(3) f w i(1) by auto
qed

lemma on_fd_slot:
  assumes "fd_slot_get (v_fds v) fd = Some s" "mount_of_slot (cx_mounts (v_cx v)) s = m"
  shows "on_fd v fd op = lower_call (map_option (\<lambda>f. f (lower_fd s)) (op (ops_of v m))) v"
  using assms by (simp add: on_fd_def)

lemma on_fd_free: "fd_slot_get (v_fds v) fd = None \<Longrightarrow> on_fd v fd op = (Inl EBADF, v)"
  by (simp add: on_fd_def)

lemma lower_tables: "lower_call f v = (r, v') \<Longrightarrow> v_fds v' = v_fds v \<and> cx_mounts (v_cx v') = cx_mounts (v_cx v)"
  by (auto simp: lower_call_def Let_def split: option.splits prod.splits)

lemma vfs_close_last:
  assumes "fds_ok (v_fds v)" "fd_slot_get (v_fds v) fd = Some s" "refs s = 1" "fd < int ESPIX_SYNTH_FD_BASE" "vfs_close v fd = (r, v')"
  shows "v_fds v' = fd_slot_free (v_fds v) fd"
proof -
  note f = fds_okD[OF assms(1,2)]
  have u: "fd_slot_unref (v_fds v) fd = Some (s, True, v_fds v)"
    using f(1,3,4) assms(3) by (simp add: fd_slot_unref_def Let_def)
  obtain r1 v1 where l: "lower_call (map_option (\<lambda>f. f (lower_fd s)) (close_p (ops_of v (mount_of_slot (cx_mounts (v_cx v)) s)))) v = (r1, v1)"
    by fastforce
  then have "v' = v1\<lparr>v_fds := fd_slot_free (v_fds v1) fd\<rparr>" using assms(4,5) u by (simp add: vfs_close_def)
  then show ?thesis using lower_tables[OF l] by simp
qed

text \<open>
  C8. A descriptor leads back to the file it was opened on: after a successful open on a real
  filesystem, reading it calls the driver of the mount the path lies on, with the number that
  driver chose, and once it is closed every operation on it answers \<^verbatim>\<open>EBADF\<close> while all other
  descriptors stand.
\<close>

theorem open_read_close:
  assumes "fds_ok (v_fds v)" "mounts_ok (cx_mounts (v_cx v))" "vfs_open v c path fl m = (Inr key, v')"
    "key < ESPIX_SYNTH_FD_BASE"
  shows "\<exists>p i lfd f w. resolve c path = Inr p \<and> mount_by_path (cx_mounts (v_cx v)) p = At i \<and>
    open_p (ops_of v (At i)) = Some f \<and> f p fl m (cx_world (v_cx v)) = (Inr lfd, w) \<and>
    fd_slot_get (v_fds v) (int key) = None \<and>
    (\<forall>sz. vfs_read v' (int key) sz = lower_call (map_option (\<lambda>f. f (int lfd) sz) (read_p (ops_of v' (At i)))) v') \<and>
    (\<forall>r v'' sz. vfs_close v' (int key) = (r, v'') \<longrightarrow> vfs_read v'' (int key) sz = (Inl EBADF, v'') \<and>
       (\<forall>k. k \<noteq> key \<longrightarrow> fd_slot_get (v_fds v'') (int k) = fd_slot_get (v_fds v) (int k)))"
proof -
  obtain p i lfd fds where o: "resolve c path = Inr p" "mount_by_path (cx_mounts (v_cx v)) p = At i"
    "fd_slot_alloc (v_fds v) (c_pid c) (int lfd) (At i) = Some (fds, key)" "v_fds v' = fds"
    "cx_mounts (v_cx v') = cx_mounts (v_cx v)" "\<exists>f w. open_p (ops_of v (At i)) = Some f \<and> f p fl m (cx_world (v_cx v)) = (Inr lfd, w)"
    using vfs_open_lower[OF assms(1,3,4)] by metis
  let ?s = "\<lparr>lower_fd = int lfd, fd_mount = i + 1, fd_owner = c_pid c, refs = 1\<rparr>"
  have i: "i < ESPIX_FS_MAX_MOUNTS" "\<not> l_dead (cx_mounts (v_cx v) ! i)" using mounts_dead_root[OF assms(2) o(2)] by simp_all
  then have fr: "fresh_fd ?s" by (simp add: fresh_fd_def)
  have al: "fd_slot_alloc (v_fds v) (fd_owner ?s) (lower_fd ?s) (At (fd_mount ?s - 1)) = Some (fds, key)" using o(3) by simp
  have get: "fd_slot_get fds (int key) = Some ?s" using fdt.alloc_look[OF assms(1) fr al, of key] by simp
  have ok: "fds_ok fds" using fdt.alloc_inv[OF assms(1) fr al] .
  have ms: "mount_of_slot (cx_mounts (v_cx v')) ?s = At i" using i o(5) by (simp add: mount_of_slot_def Let_def)
  have rd: "vfs_read v' (int key) sz = lower_call (map_option (\<lambda>f. f (int lfd) sz) (read_p (ops_of v' (At i)))) v'" for sz
    using on_fd_slot[OF get[folded o(4)] ms, of "\<lambda>ops. map_option (\<lambda>f lfd. f lfd sz) (read_p ops)"] assms(4) by (simp add: vfs_read_def option.map_comp comp_def)
  have cl: "vfs_read v'' (int key) sz = (Inl EBADF, v'') \<and>
       (\<forall>k. k \<noteq> key \<longrightarrow> fd_slot_get (v_fds v'') (int k) = fd_slot_get (v_fds v) (int k))"
    if "vfs_close v' (int key) = (r, v'')" for r v'' sz
  proof -
    have "v_fds v'' = fd_slot_free fds (int key)"
      using vfs_close_last[of v' "int key" ?s r v''] that get ok o(4) assms(4) by simp
    then have "fd_slot_get (v_fds v'') (int k) = (if k = key then None else fd_slot_get (v_fds v) (int k))" for k
      using fdt.release_look[OF ok, of key k] fdt.alloc_look[OF assms(1) fr al, of k] by simp
    then show ?thesis using on_fd_free[of v'' "int key" "\<lambda>ops. map_option (\<lambda>f lfd. f lfd sz) (read_p ops)"] assms(4) by (simp add: vfs_read_def)
  qed
  show ?thesis
    using o(1,2,6) fdt.alloc_free[OF assms(1) al] rd cl by (intro exI[of _ p] exI[of _ i] exI[of _ lfd]) blast
qed

lemma v_disk_ok: "fds_ok (v_fds (v_disk m))" "mounts_ok (cx_mounts (v_cx (v_disk m)))"
proof -
  show "fds_ok (v_fds (v_disk m))" using fds_ok_init by (simp add: v_disk_def)
  have "{1..<4::nat} = {1, 2, 3}" by auto
  then show "mounts_ok (cx_mounts (v_cx (v_disk m)))"
    by (simp add: mounts_ok_def mount_entry_ok_def v_disk_def free_mount_def)
qed

lemma v_disk_open: "\<exists>v'. vfs_open (v_disk 0x180) (user_caller 7) (Some ''/a'') 0 0 = (Inr 128, v')"
proof -
  have c: "access_check (v_disk 0x180) (user_caller 7) ''/a'' ACC_OPEN 0 = None"
    unfolding v_disk_check[of 7, simplified] by (simp add: triad_def user_ex_def)
  have o: "open_p ops_ex = Some (\<lambda>p fl m w. (Inr 3, w))" by (simp add: ops_ex_def)
  have "install_fd (set_world (v_disk 0x180) 0) (user_caller 7) (At 0) 3 =
      (Inr 128, (set_world (v_disk 0x180) 0)\<lparr>v_fds := (replicate 160 free_fd)[128 :=
        \<lparr>lower_fd = 3, fd_mount = 1, fd_owner = 4, refs = 1\<rparr>]\<rparr>)"
    using fd_alloc_replicate[of 4 3 0] by (simp add: install_fd_def Let_def user_caller_def) (simp add: v_disk_def)
  moreover have "cx_world (v_cx (v_disk 0x180)) = 0" by (simp add: v_disk_def)
  ultimately show ?thesis using c o by (simp add: vfs_open_def resolve_a v_disk_tables Let_def)
qed

theorem open_read_close_witness:
  "\<exists>v'. vfs_open (v_disk 0x180) (user_caller 7) (Some ''/a'') 0 0 = (Inr 128, v') \<and>
     (\<exists>i lfd. vfs_read v' 128 10 = lower_call (map_option (\<lambda>f. f (int lfd) 10) (read_p (ops_of v' (At i)))) v')"
proof -
  obtain v' where o: "vfs_open (v_disk 0x180) (user_caller 7) (Some ''/a'') 0 0 = (Inr 128, v')" using v_disk_open by blast
  have "\<exists>i lfd. vfs_read v' (int 128) 10 = lower_call (map_option (\<lambda>f. f (int lfd) 10) (read_p (ops_of v' (At i)))) v'"
    using open_read_close[OF v_disk_ok o] by auto
  with o show ?thesis by simp
qed

section \<open>Pulled volumes, times and directory handles\<close>

lemma on_fd_dead:
  assumes "fd_slot_get (v_fds v) fd = Some s" "mount_of_slot (cx_mounts (v_cx v)) s = Dead" "op dead_ops = None"
  shows "on_fd v fd op = (Inl ENOSYS, v)"
  using on_fd_slot[OF assms(1,2), of op] assms(3) by (simp add: lower_call_def ops_of_def)


text \<open>
  \<^verbatim>\<open>utime()\<close> is the one operation that changes a file without asking: its outcome does not
  depend on who calls, only on where the caller's path leads, so a user changes the times of a file
  they may neither write nor own.
\<close>

theorem utime_unchecked:
  assumes "t_cwd (c_task c) = t_cwd (c_task c')" "t_root (c_task c) = t_root (c_task c')" "t_priv (c_task c) = t_priv (c_task c')"
  shows "vfs_utime v c path tm = vfs_utime v c' path tm"
proof -
  have "resolve c path = resolve c' path"
    using assms by (simp add: resolve_def espix_fs_root_permits_def privileged_def split: option.split sum.split)
  then show ?thesis by (simp add: vfs_utime_def)
qed

theorem utime_unchecked_witness:
  "fst (vfs_utime (v_disk 0x180) (user_caller 8) (Some ''/a'') 99) = Inr () \<and>
   cx_world (v_cx (snd (vfs_utime (v_disk 0x180) (user_caller 8) (Some ''/a'') 99))) = 99 \<and>
   fst (vfs_truncate (v_disk 0x180) (user_caller 8) (Some ''/a'') 0) = Inl EACCES"
proof -
  have e: "vfs_utime (v_disk 0x180) (user_caller 8) (Some ''/a'') 99 = vfs_utime (v_disk 0x180) (user_caller 7) (Some ''/a'') 99"
    by (rule utime_unchecked) (simp_all add: user_caller_def task_ex_def)
  have s: "\<not> synthetic (v_disk 0x180) ''/a''" by (simp add: synthetic_def v_disk_tables)
  have u: "vfs_utime (v_disk 0x180) (user_caller 7) (Some ''/a'') 99 = (Inr (), set_world (v_disk 0x180) 99)"
    using s by (simp add: vfs_utime_def resolve_a v_disk_tables lower_call_def ops_ex_def)
  have "access_check (v_disk 0x180) (user_caller 8) ''/a'' ACC_TRUNCATE 0 = Some EACCES"
    unfolding v_disk_check[of 8, simplified] by (simp add: triad_def user_ex_def holds_group_def)
  then have "fst (vfs_truncate (v_disk 0x180) (user_caller 8) (Some ''/a'') 0) = Inl EACCES"
    using s by (simp add: vfs_truncate_def on_path_def resolve_a)
  with e u show ?thesis by (simp add: set_world_def)
qed

lemma vfs_opendir_lower:
  assumes "resolve c path = Inr p" "access_check v c p ACC_OPENDIR 0 = None" "\<not> synthetic v p"
    "mount_by_path (cx_mounts (v_cx v)) p = At i" "opendir_p (ops_of v (At i)) = Some f" "f p (cx_world (v_cx v)) = (Inr pdir, w)"
  shows "vfs_opendir v c path =
    (Inr (Lower_Dir pdir), (set_world v w)\<lparr>v_dirs := dir_map_set (v_dirs v) pdir i\<rparr>)"
  using assms by (simp add: vfs_opendir_def synthetic_def lower_call_def Let_def)

text \<open>
  C24. An open directory finds its filesystem again: while one of the eight places is free, the handle
  that \<^verbatim>\<open>opendir()\<close> returned is read by the driver it came from, other handles are not
  disturbed, and closing it restores the map. With all eight taken \<^verbatim>\<open>opendir()\<close> still
  succeeds, but its handle is unknown: reading and closing it answer \<^verbatim>\<open>EBADF\<close> and the
  directory the driver opened is never closed.
\<close>

theorem opendir_handle:
  assumes "dirs_ok (v_dirs v)" "resolve c path = Inr p" "access_check v c p ACC_OPENDIR 0 = None" "\<not> synthetic v p"
    "mount_by_path (cx_mounts (v_cx v)) p = At i" "opendir_p (ops_of v (At i)) = Some f" "f p (cx_world (v_cx v)) = (Inr pdir, w)"
    "pdir \<noteq> 0" "pdir \<notin> dirp ` set (v_dirs v)"
  shows "\<exists>v'. vfs_opendir v c path = (Inr (Lower_Dir pdir), v') \<and>
    ((\<exists>d \<in> set (v_dirs v). dir_mount d = 0) \<longrightarrow>
      dir_ops v' (Lower_Dir pdir) = Some (ops_of v (At i)) \<and>
      (\<forall>q. q \<noteq> pdir \<longrightarrow> dir_ops v' (Lower_Dir q) = dir_ops v (Lower_Dir q)) \<and>
      v_dirs (snd (vfs_closedir v' (Lower_Dir pdir))) = v_dirs v) \<and>
    ((\<forall>d \<in> set (v_dirs v). dir_mount d \<noteq> 0) \<longrightarrow>
      vfs_readdir v' (Lower_Dir pdir) = (Inl EBADF, v') \<and> vfs_closedir v' (Lower_Dir pdir) = (Inl EBADF, v'))"
proof -
  let ?v = "(set_world v w)\<lparr>v_dirs := dir_map_set (v_dirs v) pdir i\<rparr>"
  note o = vfs_opendir_lower[OF assms(2-7)]
  have op: "ops_of ?v m = ops_of v m" for m by (simp add: ops_of_def set_world_def split: mount_ref.split)
  show ?thesis
  proof (cases "\<exists>d \<in> set (v_dirs v). dir_mount d = 0")
    case True
    note d = dir_map_set_found[OF assms(1,8) True assms(9)]
    have dm: "v_dirs (snd (lower_call g ?v)) = v_dirs ?v" for g :: "('a \<Rightarrow> unit sys \<times> 'a) option"
      by (simp add: lower_call_def Let_def split: option.split prod.split)
    have "v_dirs (snd (vfs_closedir ?v (Lower_Dir pdir))) = v_dirs v"
      using d(1,3)[of i] op dm by (simp add: vfs_closedir_def dir_ops_def case_prod_beta)
    moreover have "dir_ops ?v (Lower_Dir pdir) = Some (ops_of v (At i))" using d(1) op by (simp add: dir_ops_def)
    moreover have "q \<noteq> pdir \<Longrightarrow> dir_ops ?v (Lower_Dir q) = dir_ops v (Lower_Dir q)" for q
      using d(2)[of q i] op by (simp add: dir_ops_def cong: option.map_cong)
    ultimately show ?thesis using o True by (intro exI[of _ ?v]) auto
  next
    case False
    then have "\<forall>d \<in> set (v_dirs v). dir_mount d \<noteq> 0" by simp
    note d = dir_map_full[OF this assms(9)]
    have "vfs_readdir ?v (Lower_Dir pdir) = (Inl EBADF, ?v)" "vfs_closedir ?v (Lower_Dir pdir) = (Inl EBADF, ?v)"
      using d by (simp_all add: vfs_readdir_def vfs_closedir_def dir_ops_def)
    with o False show ?thesis by (intro exI[of _ ?v]) auto
  qed
qed


theorem opendir_handle_witness:
  "\<exists>v'. vfs_opendir (v_disk 0x1C0) (user_caller 0) (Some ''/a'') = (Inr (Lower_Dir 77), v') \<and>
     dir_ops v' (Lower_Dir 77) = Some ops_ex"
proof -
  have c: "access_check (v_disk 0x1C0) (user_caller 0) ''/a'' ACC_OPENDIR 0 = None"
    by (simp add: access_check_def espix_fs_access_check_def user_caller_def task_ex_def user_ex_def privileged_def subject_def)
  have s: "\<not> synthetic (v_disk 0x1C0) ''/a''" by (simp add: synthetic_def v_disk_tables)
  have d: "v_dirs (v_disk 0x1C0) = replicate 8 \<lparr>dirp = 0, dir_mount = 0\<rparr>" by (simp add: v_disk_def)
  then have "dirs_ok (v_dirs (v_disk 0x1C0))" by (simp add: dirs_ok_def)
  note h = opendir_handle[OF this resolve_a c s v_disk_tables(2), of "\<lambda>p w. (Inr 77, w)" 77 "cx_world (v_cx (v_disk 0x1C0))"]
  have o: "opendir_p (ops_of (v_disk 0x1C0) (At 0)) = Some (\<lambda>p w. (Inr 77, w))"
    unfolding v_disk_tables by (simp add: ops_ex_def)
  obtain v' where "vfs_opendir (v_disk 0x1C0) (user_caller 0) (Some ''/a'') = (Inr (Lower_Dir 77), v')"
    "dir_ops v' (Lower_Dir 77) = Some (ops_of (v_disk 0x1C0) (At 0))"
    using h o d by auto
  then show ?thesis unfolding v_disk_tables by blast
qed

text \<open>The same disk with its mount pulled, a file open on it and a directory being read.\<close>

definition v_pulled :: "int vfs" where
  "v_pulled = (v_disk 0x180)\<lparr>v_cx := (v_cx (v_disk 0x180))\<lparr>cx_mounts := [cx_mounts (v_cx (v_disk 0x180)) ! 0,
       free_mount\<lparr>l_ops := Some ops_ex, l_prefix := ''/usb'', l_len := 4, l_used := True, l_dead := True\<rparr>, free_mount, free_mount]\<rparr>,
     v_fds := (replicate 160 free_fd)[130 := \<lparr>lower_fd = 0, fd_mount = 2, fd_owner = 4, refs = 1\<rparr>],
     v_dirs := [\<lparr>dirp = 77, dir_mount = 2\<rparr>]\<rparr>"


end
