(* ===== verification/Fs_Conf.thy ===== *)
theory Fs_Conf
  imports Fs_Path
begin

text \<open>
  \<^verbatim>\<open>espix_fs_conf_get()\<close> of \<^verbatim>\<open>components/espix_fs/fs.c\<close>, the reader every
  \<^verbatim>\<open>/etc/*.conf\<close> goes through. The file is its contents; \<^verbatim>\<open>fgets\<close>,
  \<^verbatim>\<open>feof\<close> and \<^verbatim>\<open>fgetc\<close> are the standard library's, on the unread rest.
\<close>

section \<open>The code\<close>

definition LF :: char where
  "LF = CHR 0x0A"

text \<open>\<^verbatim>\<open>fgets(buf, n, f)\<close>: the bytes read, the unread rest, and whether the end of the
  file was met (which only a read that ran out of bytes notices).\<close>

definition fgets :: "nat \<Rightarrow> string \<Rightarrow> (string \<times> string \<times> bool) option" where
  "fgets n s =
     (let k = length (takeWhile (\<lambda>c. c \<noteq> LF) s) in
      if s = [] then None
      else if k < length s \<and> k < n - 1 then Some (take (Suc k) s, drop (Suc k) s, False)
      else if length s < n - 1 then Some (s, [], True)
      else Some (take (n - 1) s, drop (n - 1) s, False))"

definition skip_line :: "string \<Rightarrow> string" where
  "skip_line s = tl (dropWhile (\<lambda>c. c \<noteq> LF) s)"

text \<open>What one line, already cut at its NUL, gives for \<open>key\<close>.\<close>

definition conf_line :: "string \<Rightarrow> string \<Rightarrow> string option" where
  "conf_line key line =
     (let p = dropWhile (\<lambda>c. c = CHR '' '' \<or> c = CHR 0x09) line in
      if cchar p 0 = CHR ''#'' \<or> cchar p 0 = NUL then None
      else if \<not> starts_with p key \<or> cchar p (length key) \<noteq> CHR ''='' then None
      else Some (takeWhile (\<lambda>c. c \<noteq> CHR 0x0D \<and> c \<noteq> LF) (drop (Suc (length key)) p)))"

lemma fgets_shorter: "2 \<le> n \<Longrightarrow> fgets n s = Some (l, r, e) \<Longrightarrow> length r < length s"
  by (auto simp: fgets_def Let_def split: if_splits)

lemma skip_line_le: "length (skip_line s) \<le> length s"
  unfolding skip_line_def by (metis diff_le_self le_trans length_dropWhile_le length_tl)

function conf_scan :: "string \<Rightarrow> string \<Rightarrow> string option" where
  "conf_scan key f =
     (case fgets 128 f of
        None \<Rightarrow> None
      | Some (chunk, rest, eof) \<Rightarrow>
          let line = cstr_of chunk in
          if LF \<notin> set line \<and> \<not> eof then conf_scan key (skip_line rest)
          else (case conf_line key line of
                  None \<Rightarrow> conf_scan key rest
                | Some v \<Rightarrow> Some v))"
  by pat_completeness auto
termination
proof (relation "measure (\<lambda>(key, f). length f)", goal_cases)
  case (2 key f p chunk q rest eof line)
  then have "length rest < length f" by (intro fgets_shorter[of 128 f chunk rest eof]) auto
  then show ?case using skip_line_le[of rest] by simp
next
  case (3 key f p chunk q rest eof line)
  then show ?case using fgets_shorter[of 128 f chunk rest eof] by simp
qed simp

declare conf_scan.simps [simp del]

text \<open>\<open>file\<close> is \<open>None\<close> when \<^verbatim>\<open>fopen\<close> fails; \<open>len\<close> is the size of the
  caller's buffer. The result is what was copied to it, or \<open>None\<close> for false.\<close>

definition espix_fs_conf_get :: "string option \<Rightarrow> string \<Rightarrow> nat \<Rightarrow> string option" where
  "espix_fs_conf_get file key len =
     (case file of
        None \<Rightarrow> None
      | Some f \<Rightarrow> map_option (strlcpy len) (conf_scan key f))"

section \<open>The reference: the first line that sets the key\<close>

fun conf_first :: "string \<Rightarrow> string list \<Rightarrow> string option" where
  "conf_first key [] = None"
| "conf_first key (l # ls) =
     (if 126 < length l then conf_first key ls
      else case conf_line key l of None \<Rightarrow> conf_first key ls | Some v \<Rightarrow> Some v)"

definition unlines :: "string list \<Rightarrow> string" where
  "unlines ls = concat (map (\<lambda>l. l @ [LF]) ls)"

definition text_line :: "string \<Rightarrow> bool" where
  "text_line l \<longleftrightarrow> LF \<notin> set l \<and> NUL \<notin> set l"

lemma LF_neq [simp]: "LF \<noteq> NUL" "NUL \<noteq> LF" "LF \<noteq> CHR '' ''" "LF \<noteq> CHR 0x09" "LF \<noteq> CHR ''#''" "LF \<noteq> CHR ''=''"
  by (simp_all add: LF_def NUL_def)

lemma dropWhile_snoc_keep:
  "\<not> P x \<Longrightarrow> dropWhile P (l @ [x]) = dropWhile P l @ [x]"
  by (induction l) auto

lemma starts_with_snoc: "x \<notin> set k \<Longrightarrow> starts_with (p @ [x]) k = starts_with p k"
  unfolding starts_with_iff_prefix by (auto simp: prefix_snoc)

lemma takeWhile_snoc_stop: "\<not> P x \<Longrightarrow> takeWhile P (l @ [x]) = takeWhile P l"
  by (induction l) auto

text \<open>The newline \<^verbatim>\<open>fgets\<close> keeps does not change what a line gives.\<close>

lemma conf_line_LF:
  assumes "LF \<notin> set key"
  shows "conf_line key (l @ [LF]) = conf_line key l"
proof -
  define p where "p = dropWhile (\<lambda>c. c = CHR '' '' \<or> c = CHR 0x09) l"
  have p: "dropWhile (\<lambda>c. c = CHR '' '' \<or> c = CHR 0x09) (l @ [LF]) = p @ [LF]"
    unfolding p_def by (intro dropWhile_snoc_keep) simp
  have ne: "cchar (p @ [LF]) i = (if i = length p then LF else cchar p i)" for i
    by (auto simp: cchar_def nth_append)
  have k: "starts_with p key \<Longrightarrow> length key \<le> length p"
    unfolding starts_with_iff_prefix by (rule prefix_length_le)
  show ?thesis
  proof (cases "starts_with p key \<and> length key < length p")
    case True
    then show ?thesis
      using assms by (simp add: conf_line_def Let_def p ne starts_with_snoc takeWhile_snoc_stop
        flip: p_def) (auto simp: cchar_def)
  next
    case False
    then have "\<not> starts_with p key \<or> cchar p (length key) = NUL" "\<not> starts_with p key \<or> length key = length p"
      using k by (auto simp: cchar_def)
    then show ?thesis
      using assms by (auto simp: conf_line_def Let_def p ne starts_with_snoc NUL_def simp flip: p_def)
  qed
qed

lemma fgets_line:
  assumes "LF \<notin> set l"
  shows "fgets 128 (l @ LF # r) =
    (if length l < 127 then Some (l @ [LF], r, False)
     else Some (take 127 l, drop 127 l @ LF # r, False))"
proof -
  have "takeWhile (\<lambda>c. c \<noteq> LF) (l @ LF # r) = l" using assms by (simp add: takeWhile_not_in)
  then show ?thesis by (simp add: fgets_def Let_def)
qed

lemma skip_line_LF: "LF \<notin> set l \<Longrightarrow> skip_line (l @ LF # r) = r"
  by (simp add: skip_line_def dropWhile_not_in)

lemma cstr_of_id: "NUL \<notin> set l \<Longrightarrow> cstr_of l = l"
  by (auto simp: cstr_of_def takeWhile_eq_all_conv)

lemma conf_scan_line:
  assumes "text_line l" "LF \<notin> set key"
  shows "conf_scan key (l @ LF # r) =
    (if 126 < length l then conf_scan key r
     else case conf_line key l of None \<Rightarrow> conf_scan key r | Some v \<Rightarrow> Some v)"
proof (cases "126 < length l")
  case True
  have "LF \<notin> set (take 127 l)" "LF \<notin> set (drop 127 l)" "cstr_of (take 127 l) = take 127 l"
    using assms(1) by (auto simp: text_line_def intro!: cstr_of_id dest: in_set_takeD in_set_dropD)
  then show ?thesis
    using True assms by (subst conf_scan.simps) (simp add: fgets_line text_line_def skip_line_LF)
next
  case False
  have "cstr_of (l @ [LF]) = l @ [LF]" using assms(1) by (intro cstr_of_id) (simp add: text_line_def)
  with False assms show ?thesis
    by (subst conf_scan.simps) (simp add: fgets_line text_line_def conf_line_LF)
qed

text \<open>
  On a file of newline-terminated text lines \<^verbatim>\<open>espix_fs_conf_get()\<close> returns the value
  of the first line that sets the key, cut to the caller's buffer. A line that does not fit the
  128-byte buffer is skipped whole: no later piece of it is ever read as a setting of its own.
\<close>

theorem conf_get_first:
  assumes "\<forall>l \<in> set ls. text_line l" "LF \<notin> set key"
  shows "espix_fs_conf_get (Some (unlines ls)) key n = map_option (strlcpy n) (conf_first key ls)"
proof -
  have "conf_scan key (unlines ls) = conf_first key ls" using assms
  proof (induction ls)
    case Nil
    show ?case by (subst conf_scan.simps) (simp add: unlines_def fgets_def)
  next
    case (Cons l ls)
    have "unlines (l # ls) = l @ LF # unlines ls" by (simp add: unlines_def)
    with Cons conf_scan_line[of l key "unlines ls"] show ?case by (simp split: option.split)
  qed
  then show ?thesis by (simp add: espix_fs_conf_get_def)
qed

theorem conf_get_first_witness:
  "espix_fs_conf_get (Some (unlines [''# a=0'', ''  a=12'', ''a=3''])) ''a'' 16 = Some ''12''"
  using conf_get_first[of "[''# a=0'', ''  a=12'', ''a=3'']" "''a''" 16]
  by (simp add: text_line_def LF_def NUL_def conf_line_def starts_with_def cchar_def strlcpy_def)

end
