(* ===== verification/Fs_Part.thy ===== *)
theory Fs_Part
  imports Espix_Base
begin

text \<open>
  \<^verbatim>\<open>components/espix_fs/part.c\<close>: a block device that is a window on another one. The
  parent is a driver's (ESP-IDF's block device interface): its operations are functions on the
  disk's state \<open>'d\<close>, any of which may be a null pointer (\<open>None\<close>). Offsets are 64-bit
  words and lengths 32-bit ones, as on the target.

  A result \<open>None\<close> is a call through a null pointer; otherwise it is what the operation
  returns and the disk's state afterwards.
\<close>

section \<open>The code\<close>

datatype bd_cmd = MARK_DELETED | ERASE_CONTENTS | OTHER_CMD u8

record erase_arg =
  start_addr :: u64
  erase_len :: u32

text \<open>The argument of an ioctl: a null pointer is \<open>None\<close> around this type.\<close>

datatype bd_arg = Erase_Arg erase_arg | Other_Arg

record 'd bd_ops =
  op_read :: "('d \<Rightarrow> u32 \<Rightarrow> u64 \<Rightarrow> u32 \<Rightarrow> esp_err \<times> u8 list) option"
  op_write :: "('d \<Rightarrow> u8 list \<Rightarrow> u64 \<Rightarrow> u32 \<Rightarrow> esp_err \<times> 'd) option"
  op_erase :: "('d \<Rightarrow> u64 \<Rightarrow> u32 \<Rightarrow> esp_err \<times> 'd) option"
  op_sync :: "('d \<Rightarrow> esp_err \<times> 'd) option"
  op_ioctl :: "('d \<Rightarrow> bd_cmd \<Rightarrow> bd_arg option \<Rightarrow> esp_err \<times> 'd) option"

text \<open>Of geometry and flags, the fields the file decides on; the others are copied.\<close>

record 'd blockdev =
  bd_ops :: "'d bd_ops"
  disk_size :: u64
  read_only :: bool

record 'd part_view =
  pv_disk_size :: u64
  pv_read_only :: bool
  pv_parent :: "'d blockdev"
  pv_start :: u64

definition within :: "'d part_view \<Rightarrow> u64 \<Rightarrow> u32 \<Rightarrow> bool" where
  "within v addr len \<longleftrightarrow> addr \<le> pv_disk_size v \<and> (ucast len :: u64) \<le> pv_disk_size v - addr"

text \<open>\<open>dst\<close> tells whether the caller gave a buffer.\<close>

definition part_read ::
  "'d part_view \<Rightarrow> 'd \<Rightarrow> bool \<Rightarrow> u32 \<Rightarrow> u64 \<Rightarrow> u32 \<Rightarrow> (esp_err \<times> u8 list) option" where
  "part_read v d dst dst_size src len =
     (if \<not> dst \<or> dst_size < len \<or> \<not> within v src len then Some (ESP_ERR_INVALID_ARG, [])
      else (case op_read (bd_ops (pv_parent v)) of
              None \<Rightarrow> None
            | Some rd \<Rightarrow> Some (rd d dst_size (pv_start v + src) len)))"

definition part_write ::
  "'d part_view \<Rightarrow> 'd \<Rightarrow> u8 list option \<Rightarrow> u64 \<Rightarrow> u32 \<Rightarrow> (esp_err \<times> 'd) option" where
  "part_write v d src dst len =
     (case src of
        None \<Rightarrow> Some (ESP_ERR_INVALID_ARG, d)
      | Some bs \<Rightarrow>
          if \<not> within v dst len then Some (ESP_ERR_INVALID_ARG, d)
          else if pv_read_only v then Some (ESP_ERR_NOT_SUPPORTED, d)
          else (case op_write (bd_ops (pv_parent v)) of
                  None \<Rightarrow> None
                | Some wr \<Rightarrow> Some (wr d bs (pv_start v + dst) len)))"

definition part_erase :: "'d part_view \<Rightarrow> 'd \<Rightarrow> u64 \<Rightarrow> u32 \<Rightarrow> (esp_err \<times> 'd) option" where
  "part_erase v d start len =
     (if \<not> within v start len then Some (ESP_ERR_INVALID_ARG, d)
      else (case op_erase (bd_ops (pv_parent v)) of
              None \<Rightarrow> Some (ESP_ERR_NOT_SUPPORTED, d)
            | Some er \<Rightarrow> if pv_read_only v then Some (ESP_ERR_NOT_SUPPORTED, d)
                         else Some (er d (pv_start v + start) len)))"

definition part_sync :: "'d part_view \<Rightarrow> 'd \<Rightarrow> (esp_err \<times> 'd) option" where
  "part_sync v d =
     (case op_sync (bd_ops (pv_parent v)) of
        None \<Rightarrow> Some (ESP_OK, d)
      | Some sy \<Rightarrow> Some (sy d))"

text \<open>The code reads the argument of the two translated commands as an
  \<^verbatim>\<open>esp_blockdev_cmd_arg_erase_t\<close> without a check; the commands' contract makes it one
  (\<open>None\<close> otherwise).\<close>

definition part_ioctl ::
  "'d part_view \<Rightarrow> 'd \<Rightarrow> bd_cmd \<Rightarrow> bd_arg option \<Rightarrow> (esp_err \<times> 'd) option" where
  "part_ioctl v d cmd args =
     (case op_ioctl (bd_ops (pv_parent v)) of
        None \<Rightarrow> Some (ESP_ERR_NOT_SUPPORTED, d)
      | Some io \<Rightarrow>
          if cmd \<noteq> MARK_DELETED \<and> cmd \<noteq> ERASE_CONTENTS then Some (io d cmd args)
          else (case args of
                  None \<Rightarrow> Some (ESP_ERR_INVALID_ARG, d)
                | Some Other_Arg \<Rightarrow> None
                | Some (Erase_Arg er) \<Rightarrow>
                    if \<not> within v (start_addr er) (erase_len er) then Some (ESP_ERR_INVALID_ARG, d)
                    else Some (io d cmd (Some (Erase_Arg
                           (er\<lparr>start_addr := pv_start v + start_addr er\<rparr>))))))"

text \<open>\<open>parent\<close> is \<open>None\<close> for a null handle, and \<open>alloc\<close> whether \<^verbatim>\<open>calloc\<close>
  succeeds.\<close>

definition espix_fs_partition_view ::
  "'d blockdev option \<Rightarrow> u64 \<Rightarrow> u64 \<Rightarrow> bool \<Rightarrow> bool \<Rightarrow> esp_err + 'd part_view" where
  "espix_fs_partition_view parent start sz readonly alloc =
     (case parent of
        None \<Rightarrow> Inl ESP_ERR_INVALID_ARG
      | Some p \<Rightarrow>
          if sz = 0 \<or> disk_size p \<le> start \<or> disk_size p - start < sz then Inl ESP_ERR_INVALID_ARG
          else if op_read (bd_ops p) = None then Inl ESP_ERR_NOT_SUPPORTED
          else if \<not> alloc then Inl ESP_ERR_NO_MEM
          else Inr \<lparr>pv_disk_size = sz, pv_read_only = (read_only p \<or> readonly),
                    pv_parent = p, pv_start = start\<rparr>)"

section \<open>A view stays inside its window\<close>

definition window :: "'d part_view \<Rightarrow> nat set" where
  "window v = {unat (pv_start v) ..< unat (pv_start v) + unat (pv_disk_size v)}"

definition view_ok :: "'d part_view \<Rightarrow> bool" where
  "view_ok v \<longleftrightarrow> unat (pv_start v) + unat (pv_disk_size v) \<le> unat (disk_size (pv_parent v))"

lemma sub_no_wrap: "(a :: 'a::len word) \<le> b \<Longrightarrow> c \<le> b - a \<longleftrightarrow> unat a + unat c \<le> unat b"
  by (auto simp: word_le_nat_alt unat_sub)

lemma partition_view_ok:
  assumes "espix_fs_partition_view (Some p) start sz ro al = Inr v"
  shows "view_ok v" "pv_parent v = p" "pv_start v = start" "pv_disk_size v = sz"
    "pv_read_only v = (read_only p \<or> ro)" "op_read (bd_ops p) \<noteq> None" "0 < sz"
  using assms sub_no_wrap[of start "disk_size p" sz]
  by (auto simp: espix_fs_partition_view_def view_ok_def word_gt_0 not_le not_less dest: less_imp_le split: if_splits)

lemma within_iff:
  "within v a n \<longleftrightarrow> unat a + unat n \<le> unat (pv_disk_size v)"
proof -
  have "unat (ucast n :: u64) = unat n" by (simp add: unsigned_ucast_eq take_bit_nat_eq_self_iff less_le_trans[OF unsigned_less])
  then show ?thesis
    using sub_no_wrap[of a "pv_disk_size v" "ucast n"]
    by (auto simp: within_def word_le_nat_alt)
qed

lemma within_translated:
  assumes "view_ok v" "within v a n"
  shows "unat (pv_start v + a) = unat (pv_start v) + unat a"
    "{unat (pv_start v + a) ..< unat (pv_start v + a) + unat n} \<subseteq> window v"
proof -
  have w: "unat a + unat n \<le> unat (pv_disk_size v)" using assms(2) by (simp add: within_iff)
  have "unat (pv_start v) + unat a \<le> unat (disk_size (pv_parent v))"
    using assms(1) w by (simp add: view_ok_def)
  also have "\<dots> < 2 ^ LENGTH(64)" by (rule unsigned_less)
  finally show "unat (pv_start v + a) = unat (pv_start v) + unat a"
    unfolding unat_add_lem .
  then show "{unat (pv_start v + a) ..< unat (pv_start v + a) + unat n} \<subseteq> window v"
    using w by (auto simp: window_def)
qed

text \<open>
  A view that \<^verbatim>\<open>espix_fs_partition_view()\<close> hands out never reaches outside its
  window: for every request it does not refuse, the 64-bit address it passes to the parent does not
  wrap and the whole range lies between the partition's first and last byte, inside the parent's
  disk. A refused request does not reach the parent: the disk keeps its state.
\<close>

theorem part_view_confined:
  assumes "espix_fs_partition_view (Some p) start sz ro al = Inr v"
  shows "(within v a n \<longrightarrow> unat (pv_start v + a) = unat start + unat a \<and>
      {unat (pv_start v + a) ..< unat (pv_start v + a) + unat n}
        \<subseteq> {unat start ..< unat start + unat sz}) \<and>
    unat start + unat sz \<le> unat (disk_size p) \<and>
    (\<not> within v a n \<longrightarrow> part_read v d dst ds a n = Some (ESP_ERR_INVALID_ARG, []) \<and>
      part_write v d src a n = Some (ESP_ERR_INVALID_ARG, d) \<and>
      part_erase v d a n = Some (ESP_ERR_INVALID_ARG, d))"
  using partition_view_ok[OF assms] within_translated[of v a n]
  by (auto simp: view_ok_def window_def part_read_def part_write_def part_erase_def split: option.split)

text \<open>A disk kept as a function from addresses to bytes, for the witnesses.\<close>

definition mem_ops :: "(nat \<Rightarrow> u8) bd_ops" where
  "mem_ops = \<lparr>op_read = Some (\<lambda>d ds a n. (ESP_OK, map (\<lambda>k. d (unat a + k)) [0..<unat n])),
     op_write = Some (\<lambda>d bs a n. (ESP_OK, \<lambda>k. if unat a \<le> k \<and> k < unat a + unat n
                                              then bs ! (k - unat a) else d k)),
     op_erase = None, op_sync = None,
     op_ioctl = Some (\<lambda>d c arg. case arg of
        Some (Erase_Arg e) \<Rightarrow> (ESP_OK, \<lambda>k. if unat (start_addr e) \<le> k \<and>
            k < unat (start_addr e) + unat (erase_len e) then 255 else d k)
      | _ \<Rightarrow> (ESP_FAIL, d))\<rparr>"

definition mem_disk :: "(nat \<Rightarrow> u8) blockdev" where
  "mem_disk = \<lparr>bd_ops = mem_ops, disk_size = 64, read_only = False\<rparr>"

definition mem_view :: "u64 \<Rightarrow> u64 \<Rightarrow> bool \<Rightarrow> (nat \<Rightarrow> u8) part_view" where
  "mem_view st sz ro = \<lparr>pv_disk_size = sz, pv_read_only = ro, pv_parent = mem_disk, pv_start = st\<rparr>"

lemma mem_views:
  "espix_fs_partition_view (Some mem_disk) 16 16 False True = Inr (mem_view 16 16 False)"
  "espix_fs_partition_view (Some mem_disk) 32 32 False True = Inr (mem_view 32 32 False)"
  "espix_fs_partition_view (Some mem_disk) 32 32 True True = Inr (mem_view 32 32 True)"
  by (simp_all add: espix_fs_partition_view_def mem_view_def mem_disk_def mem_ops_def)

theorem part_view_confined_witness:
  "unat (pv_start (mem_view 16 16 False) + 4) = 20 \<and>
   {unat (pv_start (mem_view 16 16 False) + 4) ..< unat (pv_start (mem_view 16 16 False) + 4) + 12}
     \<subseteq> {16 ..< 32}"
  using part_view_confined[OF mem_views(1), of 4 12]
  by (simp add: within_def mem_view_def)

text \<open>
  C26. Two partitions of one disk do not interfere: if the parent's write leaves every disjoint range
  reading as before, then a write through one view leaves every read through a view on a disjoint
  window as it was.
\<close>

theorem part_views_independent:
  assumes v: "espix_fs_partition_view (Some p) s1 n1 ro1 al1 = Inr v"
      "espix_fs_partition_view (Some p) s2 n2 ro2 al2 = Inr w"
    and disj: "unat s1 + unat n1 \<le> unat s2 \<or> unat s2 + unat n2 \<le> unat s1"
    and rw: "op_read (bd_ops p) = Some rd" "op_write (bd_ops p) = Some wr"
    and contract: "\<And>d bs a n ds b m.
      unat a + unat n \<le> unat b \<or> unat b + unat m \<le> unat a \<Longrightarrow>
      rd (snd (wr d bs a n)) ds b m = rd d ds b m"
    and wd: "part_write v d src a n = Some (e, d')"
  shows "part_read w d' dst ds b m = part_read w d dst ds b m"
proof (cases "within v a n \<and> within w b m \<and> \<not> pv_read_only v \<and> src \<noteq> None")
  case True
  then obtain bs where "src = Some bs" by auto
  then have d': "d' = snd (wr d bs (pv_start v + a) n)"
    using True wd rw partition_view_ok(2)[OF v(1)] by (auto simp: part_write_def)
  have "unat (pv_start v + a) = unat s1 + unat a" "unat (pv_start w + b) = unat s2 + unat b"
    using True within_translated(1) partition_view_ok[OF v(1)] partition_view_ok[OF v(2)] by auto
  then have "unat (pv_start v + a) + unat n \<le> unat (pv_start w + b) \<or>
      unat (pv_start w + b) + unat m \<le> unat (pv_start v + a)"
    using True disj partition_view_ok(4)[OF v(1)] partition_view_ok(4)[OF v(2)] by (auto simp: within_iff)
  from contract[OF this, of d bs ds] show ?thesis
    using d' rw partition_view_ok(2)[OF v(2)] by (simp add: part_read_def)
next
  case False
  then show ?thesis using wd by (auto simp: part_write_def part_read_def split: option.splits if_splits)
qed

theorem part_views_independent_witness:
  "part_read (mem_view 32 32 False) (snd (the (part_write (mem_view 16 16 False) (\<lambda>_. 0) (Some [7, 7]) 14 2)))
     True 4 0 4 = Some (ESP_OK, [0, 0, 0, 0])"
proof -
  obtain rd wr where rw: "op_read (bd_ops mem_disk) = Some rd" "op_write (bd_ops mem_disk) = Some wr"
    and rd: "rd = (\<lambda>d ds a n. (ESP_OK, map (\<lambda>k. d (unat a + k)) [0..<unat n]))"
    and wr: "wr = (\<lambda>d bs a n. (ESP_OK, \<lambda>k. if unat a \<le> k \<and> k < unat a + unat n
                                              then bs ! (k - unat a) else d k))"
    by (simp add: mem_disk_def mem_ops_def)
  obtain e d' where w: "part_write (mem_view 16 16 False) (\<lambda>_. 0) (Some [7, 7]) 14 2 = Some (e, d')"
    by (simp add: part_write_def within_def mem_view_def mem_disk_def mem_ops_def)
  have "part_read (mem_view 32 32 False) d' True 4 0 4 = part_read (mem_view 32 32 False) (\<lambda>_. 0) True 4 0 4"
    by (rule part_views_independent[OF mem_views(1,2) _ rw _ w]) (auto simp: rd wr)
  moreover have "part_read (mem_view 32 32 False) (\<lambda>_. 0) True 4 0 4 = Some (ESP_OK, [0, 0, 0, 0])"
    by (simp add: part_read_def within_def mem_view_def mem_disk_def mem_ops_def upt_conv_Cons)
  ultimately show ?thesis using w by simp
qed

text \<open>
  A view made read-only refuses every write and every erase, whatever the parent allows, and
  leaves the disk alone; but the erase \<^verbatim>\<open>ioctl\<close> commands are not covered: they are
  translated and passed on to the parent as if the view were writable.
\<close>

theorem part_readonly:
  assumes "espix_fs_partition_view (Some p) start sz True al = Inr v"
  shows "(\<exists>e. e \<noteq> ESP_OK \<and> part_write v d src a n = Some (e, d)) \<and>
    (\<exists>e. e \<noteq> ESP_OK \<and> part_erase v d a n = Some (e, d)) \<and>
    (\<forall>io. op_ioctl (bd_ops p) = Some io \<longrightarrow> within v a n \<longrightarrow>
      part_ioctl v d ERASE_CONTENTS (Some (Erase_Arg \<lparr>start_addr = a, erase_len = n\<rparr>))
      = Some (io d ERASE_CONTENTS (Some (Erase_Arg \<lparr>start_addr = start + a, erase_len = n\<rparr>))))"
  using partition_view_ok[OF assms]
  by (auto simp: part_write_def part_erase_def part_ioctl_def split: option.split)

theorem part_readonly_witness:
  "part_write (mem_view 32 32 True) (\<lambda>_. 0) (Some [7]) 0 1 \<noteq> Some (ESP_OK, (\<lambda>_. 0)(32 := 7)) \<and>
   snd (the (part_ioctl (mem_view 32 32 True) (\<lambda>_. 0) ERASE_CONTENTS
     (Some (Erase_Arg \<lparr>start_addr = 0, erase_len = 1\<rparr>)))) 32 = (255 :: u8)"
proof -
  obtain io where io: "op_ioctl (bd_ops mem_disk) = Some io"
    and d: "\<And>d c. snd (io d c (Some (Erase_Arg \<lparr>start_addr = 32, erase_len = 1\<rparr>))) 32 = 255"
    by (simp add: mem_disk_def mem_ops_def)
  note r = part_readonly[OF mem_views(3), where d = "\<lambda>_. 0" and src = "Some [7]" and a = 0 and n = 1]
  have "within (mem_view 32 32 True) 0 1" by (simp add: within_def mem_view_def)
  with r io have "part_ioctl (mem_view 32 32 True) (\<lambda>_. 0) ERASE_CONTENTS
      (Some (Erase_Arg \<lparr>start_addr = 0, erase_len = 1\<rparr>))
      = Some (io (\<lambda>_. 0) ERASE_CONTENTS (Some (Erase_Arg \<lparr>start_addr = 32, erase_len = 1\<rparr>)))"
    by simp
  with r d show ?thesis by auto
qed

end
