(* ===== verification/Tty.thy ===== *)
theory Tty
  imports Espix_Base
begin

text \<open>
  \<^verbatim>\<open>components/espix_tty/tty.c\<close>: the terminal line discipline. The input ring with its
  free-running 32-bit positions, the line being edited, the ends of the committed lines, signals
  from control characters, echo, and reading in canonical and raw mode.

  The positions are 32-bit words and wrap; the ring is indexed by position modulo its size. The
  flags of \<^verbatim>\<open>struct termios\<close> the code reads are booleans, the control characters bytes. A
  call of the terminal's operations or of the process hooks, a task notified and a select triggered are
  events in the result; each section the lock covers is one function.
\<close>

section \<open>The code\<close>

abbreviation LINE_CAP :: nat where "LINE_CAP \<equiv> 255"
abbreviation ENDS_MAX :: nat where "ENDS_MAX \<equiv> 16"
abbreviation WAITERS_MAX :: nat where "WAITERS_MAX \<equiv> 4"
abbreviation ECHO_CHUNK :: nat where "ECHO_CHUNK \<equiv> 64"
abbreviation LFb :: u8 where "LFb \<equiv> 0x0A"
abbreviation CRb :: u8 where "CRb \<equiv> 0x0D"

record termios =
  ISTRIP :: bool
  IGNCR :: bool
  ICRNL :: bool
  INLCR :: bool
  OPOST :: bool
  ONLCR :: bool
  ISIG :: bool
  ICANON :: bool
  ECHO :: bool
  ECHOE :: bool
  ECHOK :: bool
  ECHONL :: bool
  IEXTEN :: bool
  NOFLSH :: bool
  VINTR :: u8
  VQUIT :: u8
  VERASE :: u8
  VKILL :: u8
  VEOF :: u8
  VEOL :: u8
  VSUSP :: u8
  VMIN :: u8
  VTIME :: u8

datatype signal = SIGHUP | SIGINT | SIGQUIT | SIGKILL | SIGTSTP | SIGWINCH

text \<open>One registration of a select: its identity, the semaphore it triggers, the descriptor, and
  whether it waits to read.\<close>

record select_arg =
  sel_id :: "nat \<times> nat"
  sel_sem :: nat
  sel_fd :: nat
  sel_rd :: bool

record tty =
  tfd :: int
  refs :: nat
  tpipe :: bool
  hung :: bool
  eof_in :: bool
  tfull :: bool
  nonblock :: bool
  has_signal :: bool
  has_echo :: bool
  has_room :: bool
  tio :: termios
  ws :: "u16 \<times> u16"
  fg :: int
  intrs :: nat
  ring :: "u8 list"
  cap :: nat
  rd :: u32
  wr :: u32
  ends :: "u32 list"
  tline :: "u8 list"
  waiters :: "nat option list"
  selects :: "select_arg list"

datatype tty_event =
    Wake nat | Trigger nat | Echo_Out "u8 list" | Echo_Write "u8 list"
  | Op_Signal signal | Group_Signal int signal | Room

definition canonical_mode :: "tty \<Rightarrow> bool" where
  "canonical_mode t \<longleftrightarrow> \<not> tpipe t \<and> ICANON (tio t)"

definition used_locked :: "tty \<Rightarrow> nat" where
  "used_locked t = unat (wr t - rd t)"

definition avail_locked :: "tty \<Rightarrow> nat" where
  "avail_locked t =
     (if canonical_mode t then (case ends t of [] \<Rightarrow> 0 | e # _ \<Rightarrow> unat (e - rd t)) else used_locked t)"

definition ready_locked :: "tty \<Rightarrow> bool" where
  "ready_locked t \<longleftrightarrow>
     (if canonical_mode t then ends t \<noteq> [] else 0 < used_locked t) \<or> hung t \<or> eof_in t"

text \<open>The tasks notified, then the selects that wait to read.\<close>

definition wake_locked :: "tty \<Rightarrow> tty_event list" where
  "wake_locked t =
     map Wake (List.map_filter id (waiters t)) @ map (Trigger \<circ> sel_sem) (filter sel_rd (selects t))"

text \<open>\<^verbatim>\<open>t->cap - used_locked(t)\<close>, a 32-bit subtraction.\<close>

definition room_locked :: "tty \<Rightarrow> nat" where
  "room_locked t = unat (of_nat (cap t) - (wr t - rd t) :: u32)"

definition flush_input_locked :: "tty \<Rightarrow> tty" where
  "flush_input_locked t = t\<lparr>rd := wr t, ends := [], tline := []\<rparr>"

definition espix_tty_sane :: termios where
  "espix_tty_sane = \<lparr>ISTRIP = False, IGNCR = False, ICRNL = True, INLCR = False, OPOST = True, ONLCR = True,
     ISIG = True, ICANON = True, ECHO = True, ECHOE = True, ECHOK = True, ECHONL = False, IEXTEN = True, NOFLSH = False,
     VINTR = 0x03, VQUIT = 0x1C, VERASE = 0x7F, VKILL = 0x15, VEOF = 0x04, VEOL = 0, VSUSP = 0x1A, VMIN = 1, VTIME = 0\<rparr>"

definition no_termios :: termios where
  "no_termios = \<lparr>ISTRIP = False, IGNCR = False, ICRNL = False, INLCR = False, OPOST = False, ONLCR = False,
     ISIG = False, ICANON = False, ECHO = False, ECHOE = False, ECHOK = False, ECHONL = False, IEXTEN = False, NOFLSH = False,
     VINTR = 0, VQUIT = 0, VERASE = 0, VKILL = 0, VEOF = 0, VEOL = 0, VSUSP = 0, VMIN = 1, VTIME = 0\<rparr>"

definition defaults :: "bool \<Rightarrow> termios" where
  "defaults p = (if p then no_termios else espix_tty_sane)"

text \<open>The terminal \<^verbatim>\<open>espix_tty_create\<close> fills in, before it has a slot of the table.\<close>

definition tty_new :: "bool \<Rightarrow> bool \<Rightarrow> bool \<Rightarrow> nat \<Rightarrow> bool \<Rightarrow> tty" where
  "tty_new sig_op echo_op room_op inbuf p =
     (let n = max inbuf (LINE_CAP + 1) in
      \<lparr>tfd = -1, refs = 0, tpipe = p, hung = False, eof_in = False, tfull = False, nonblock = False,
       has_signal = sig_op, has_echo = echo_op, has_room = room_op, tio = defaults p, ws = (80, 24),
       fg = 0, intrs = 0, ring = replicate n 0, cap = n, rd = 0, wr = 0, ends = [], tline = [],
       waiters = replicate WAITERS_MAX None, selects = []\<rparr>)"

definition echo_add :: "u8 list \<Rightarrow> u8 list \<Rightarrow> u8 list" where
  "echo_add e s = e @ take (ECHO_CHUNK * 3 - length e) s"

definition echo_char :: "tty \<Rightarrow> u8 list \<Rightarrow> u8 \<Rightarrow> u8 list" where
  "echo_char t e c =
     (if \<not> ECHO (tio t) then e
      else if c < 0x20 \<and> c \<noteq> LFb \<and> c \<noteq> 0x09 \<and> IEXTEN (tio t) then echo_add e [0x5E, c + 0x40]
      else echo_add e [c])"

fun ring_store :: "u8 list \<Rightarrow> nat \<Rightarrow> u32 \<Rightarrow> u8 list \<Rightarrow> u8 list" where
  "ring_store buf n p [] = buf"
| "ring_store buf n p (x # xs) = ring_store (buf[unat p mod n := x]) n (p + 1) xs"

definition ring_put_locked :: "tty \<Rightarrow> u8 list \<Rightarrow> tty option" where
  "ring_put_locked t src =
     (if room_locked t < length src then None
      else Some (t\<lparr>ring := ring_store (ring t) (cap t) (wr t) src, wr := wr t + of_nat (length src)\<rparr>))"

definition commit_line_locked :: "tty \<Rightarrow> tty option" where
  "commit_line_locked t =
     (if length (ends t) = ENDS_MAX then None
      else (case ring_put_locked t (tline t) of
              None \<Rightarrow> None
            | Some t' \<Rightarrow> Some (t'\<lparr>ends := ends t' @ [wr t'], tline := []\<rparr>)))"

text \<open>Bytes are taken off until one that is not a UTF-8 continuation.\<close>

function erase_one_locked :: "tty \<Rightarrow> u8 list \<Rightarrow> tty \<times> u8 list" where
  "erase_one_locked t e =
     (if tline t = [] then (t, e)
      else
        (let c = last (tline t); t' = t\<lparr>tline := butlast (tline t)\<rparr> in
         if c AND 0xC0 \<noteq> 0x80 then
           (t', if ECHO (tio t) \<and> ECHOE (tio t)
                then echo_add e (if c < 0x20 \<and> IEXTEN (tio t) then [8, 0x20, 8, 8, 0x20, 8] else [8, 0x20, 8])
                else e)
         else erase_one_locked t' e))"
  by pat_completeness auto
termination by (relation "measure (\<lambda>(t, e). length (tline t))") auto

declare erase_one_locked.simps [simp del]

lemma erase_one_shorter: "tline t \<noteq> [] \<Longrightarrow> length (tline (fst (erase_one_locked t e))) < length (tline t)"
proof (induction t e rule: erase_one_locked.induct)
  case (1 t e)
  show ?case
  proof (cases "last (tline t) AND 0xC0 \<noteq> 0x80")
    case True
    with 1(2) show ?thesis by (subst erase_one_locked.simps) (simp add: Let_def)
  next
    case False
    let ?t = "t\<lparr>tline := butlast (tline t)\<rparr>"
    have e: "erase_one_locked t e = erase_one_locked ?t e"
      using False 1(2) by (subst erase_one_locked.simps) (simp add: Let_def)
    show ?thesis
    proof (cases "tline ?t = []")
      case True
      then have "erase_one_locked ?t e = (?t, e)" by (subst erase_one_locked.simps) simp
      with True e 1(2) show ?thesis by simp
    next
      case ne: False
      have "length (tline (fst (erase_one_locked ?t e))) < length (tline ?t)"
        using 1(1)[OF 1(2) refl refl] False ne by simp
      also have "length (tline ?t) < length (tline t)" using 1(2) by (simp add: diff_less)
      finally show ?thesis using e by simp
    qed
  qed
qed

text \<open>\<^verbatim>\<open>while (t->llen > 0 && P) erase_one_locked(t, e);\<close>\<close>

function erase_while :: "(u8 \<Rightarrow> bool) \<Rightarrow> tty \<Rightarrow> u8 list \<Rightarrow> tty \<times> u8 list" where
  "erase_while P t e =
     (if tline t \<noteq> [] \<and> P (last (tline t)) then
        (let r = erase_one_locked t e in erase_while P (fst r) (snd r))
      else (t, e))"
  by pat_completeness auto
termination
  by (relation "measure (\<lambda>(P, t, e). length (tline t))") (simp_all add: erase_one_shorter case_prod_beta)

declare erase_while.simps [simp del]

definition input_char :: "termios \<Rightarrow> u8 \<Rightarrow> u8 option" where
  "input_char io c0 =
     (let c = (if ISTRIP io then c0 AND 0x7F else c0) in
      if c = CRb then if IGNCR io then None else if ICRNL io then Some LFb else Some c
      else if c = LFb \<and> INLCR io then Some CRb
      else Some c)"

definition signal_of :: "tty \<Rightarrow> u8 \<Rightarrow> (signal \<times> nat) option" where
  "signal_of t c =
     (let io = tio t in
      if \<not> ISIG io \<or> c = 0 then None
      else if c = VINTR io then
        (if \<not> has_signal t then
           (let k = intrs t + 1 in Some (if 3 \<le> k then SIGKILL else SIGINT, k))
         else Some (SIGINT, intrs t))
      else if c = VQUIT io then Some (SIGQUIT, intrs t)
      else if c = VSUSP io then Some (SIGTSTP, intrs t)
      else None)"

definition canon_char :: "tty \<Rightarrow> u8 \<Rightarrow> u8 list \<Rightarrow> tty \<times> u8 list" where
  "canon_char t c e =
     (let io = tio t in
      if c = VERASE io \<or> c = 8 then erase_one_locked t e
      else if c = VKILL io then erase_while (\<lambda>_. True) t e
      else if c = 0x17 \<and> IEXTEN io then
        (let (t1, e1) = erase_while (\<lambda>x. x = 0x20) t e in erase_while (\<lambda>x. x \<noteq> 0x20) t1 e1)
      else if c = VEOF io \<and> c \<noteq> 0 then
        (case commit_line_locked t of Some t' \<Rightarrow> (t', e) | None \<Rightarrow> (t\<lparr>tline := []\<rparr>, e))
      else if c = LFb \<or> (c = VEOL io \<and> c \<noteq> 0) then
        (let l = (if length (tline t) = LINE_CAP then butlast (tline t) else tline t);
             t1 = t\<lparr>tline := l @ [c]\<rparr>;
             t2 = (case commit_line_locked t1 of Some t' \<Rightarrow> t' | None \<Rightarrow> t1\<lparr>tline := []\<rparr>)
         in (t2, if ECHO io \<or> ECHONL io then echo_add e [LFb] else e))
      else if length (tline t) < LINE_CAP - 1 then (t\<lparr>tline := tline t @ [c]\<rparr>, echo_char t e c)
      else (t, e))"

text \<open>The result: \<open>None\<close> when the byte was not taken, else the terminal, the echo and a signal.\<close>

definition input_one_locked :: "tty \<Rightarrow> u8 \<Rightarrow> u8 list \<Rightarrow> (tty \<times> u8 list \<times> signal option) option" where
  "input_one_locked t c0 e =
     (if tpipe t then map_option (\<lambda>t'. (t', e, None)) (ring_put_locked t [c0])
      else
        (case input_char (tio t) c0 of
           None \<Rightarrow> Some (t, e, None)
         | Some c \<Rightarrow>
             (case signal_of t c of
                Some (s, k) \<Rightarrow>
                  (let t1 = t\<lparr>intrs := k\<rparr>; e1 = echo_char t e c;
                       t2 = (if NOFLSH (tio t) then t1 else flush_input_locked t1)
                   in Some (t2, e1, Some s))
              | None \<Rightarrow>
                  (let t1 = t\<lparr>intrs := 0\<rparr> in
                   if \<not> ICANON (tio t) then
                     (case ring_put_locked t1 [c] of
                        Some t2 \<Rightarrow> Some (t2, echo_char t e c, None)
                      | None \<Rightarrow> Some (t1, e, None))
                   else (let (t2, e2) = canon_char t1 c e in Some (t2, e2, None))))))"

text \<open>The bytes of one chunk: how many were taken, the terminal, the echo, the signal and whether it
  stopped for want of room.\<close>

fun input_chunk :: "tty \<Rightarrow> u8 list \<Rightarrow> u8 list \<Rightarrow> nat \<times> tty \<times> u8 list \<times> signal option \<times> bool" where
  "input_chunk t [] e = (0, t, e, None, False)"
| "input_chunk t (c # cs) e =
     (case input_one_locked t c e of
        None \<Rightarrow> (0, t\<lparr>tfull := True\<rparr>, e, None, True)
      | Some (t', e', Some s) \<Rightarrow> (1, t', e', Some s, False)
      | Some (t', e', None) \<Rightarrow> (let (n, r) = input_chunk t' cs e' in (Suc n, r)))"

text \<open>A carriage return before each newline when post-processing.\<close>

fun onlcr_bytes :: "u8 list \<Rightarrow> u8 list" where
  "onlcr_bytes [] = []"
| "onlcr_bytes (c # cs) = (if c = LFb then [CRb, c] else [c]) @ onlcr_bytes cs"

text \<open>\<^verbatim>\<open>echo_out\<close>'s loop over its own buffer of \<^verbatim>\<open>ECHO_CHUNK * 6\<close> bytes.\<close>

fun echo_fill :: "bool \<Rightarrow> u8 list \<Rightarrow> u8 list \<Rightarrow> u8 list" where
  "echo_fill onlcr out [] = out"
| "echo_fill onlcr out (c # cs) =
     (if length out < ECHO_CHUNK * 6 - 1
      then echo_fill onlcr ((if c = LFb \<and> onlcr then out @ [CRb] else out) @ [c]) cs
      else out)"

definition echo_out :: "tty \<Rightarrow> u8 list \<Rightarrow> tty_event" where
  "echo_out t buf =
     (if \<not> has_echo t then Echo_Write buf
      else Echo_Out (echo_fill (OPOST (tio t) \<and> ONLCR (tio t)) [] buf))"

definition signal_fg :: "bool \<Rightarrow> tty \<Rightarrow> signal \<Rightarrow> tty_event list" where
  "signal_fg hook t sig = (if 0 < fg t \<and> hook then [Group_Signal (fg t) sig] else [])"

text \<open>One turn of \<^verbatim>\<open>espix_tty_input\<close>'s loop. \<open>takes sig\<close> says whether the terminal's own
  signal operation deals with the signal, \<open>hook\<close> whether the process hook is installed.\<close>

definition input_turn ::
    "(signal \<Rightarrow> bool) \<Rightarrow> bool \<Rightarrow> tty \<Rightarrow> u8 list \<Rightarrow> nat \<times> tty \<times> tty_event list \<times> bool" where
  "input_turn takes hook t buf =
     (case input_chunk t (take ECHO_CHUNK buf) [] of
        (n, t1, e, sig, stopped) \<Rightarrow>
          (n, t1,
           (if \<not> ready_locked t \<and> ready_locked t1 then wake_locked t1 else []) @
           (if e \<noteq> [] then [echo_out t1 e] else []) @
           (case sig of
              None \<Rightarrow> []
            | Some s \<Rightarrow>
                (if has_signal t1 then [Op_Signal s] else []) @
                (if has_signal t1 \<and> takes s then [] else signal_fg hook t1 s)),
           stopped))"

lemma input_chunk_le: "fst (input_chunk t cs e) \<le> length cs"
proof (induction cs arbitrary: t e)
  case (Cons c cs)
  show ?case
  proof (cases "input_one_locked t c e")
    case (Some r)
    obtain t' e' s where r: "r = (t', e', s)" by (cases r)
    show ?thesis using Some r Cons.IH[of t' e'] by (cases s) (auto simp: case_prod_beta)
  qed simp
qed simp

lemma input_chunk_progress:
  "cs \<noteq> [] \<Longrightarrow> input_chunk t cs e = (n, t', e', s, False) \<Longrightarrow> 0 < n"
  by (cases cs) (auto split: option.splits prod.splits)

lemma input_turn_progress:
  assumes "buf \<noteq> []" "input_turn takes hook t buf = (n, t', ev, False)"
  shows "0 < n"
  using assms input_chunk_progress[of "take ECHO_CHUNK buf" t "[]"]
  by (auto simp: input_turn_def split: prod.splits)

function espix_tty_input :: "(signal \<Rightarrow> bool) \<Rightarrow> bool \<Rightarrow> tty \<Rightarrow> u8 list \<Rightarrow> nat \<times> tty \<times> tty_event list" where
  "espix_tty_input takes hook t buf =
     (if buf = [] then (0, t, [])
      else
        (case input_turn takes hook t buf of
           (n, t1, ev, stopped) \<Rightarrow>
             if stopped then (n, t1, ev)
             else (let (m, t2, ev2) = espix_tty_input takes hook t1 (drop n buf) in (n + m, t2, ev @ ev2))))"
  by pat_completeness auto
termination
proof (relation "measure (\<lambda>(takes, hook, t, buf). length buf)", goal_cases)
  case (2 takes hook t buf n r1 t1 r2 ev stopped)
  then have "0 < n" using input_turn_progress[of buf takes hook t n t1 ev] by simp
  with 2(1) show ?case by simp
qed simp

declare espix_tty_input.simps [simp del]

definition espix_tty_input_eof :: "tty \<Rightarrow> tty \<times> tty_event list" where
  "espix_tty_input_eof t = (let t1 = t\<lparr>eof_in := True\<rparr> in (t1, wake_locked t1))"

definition espix_tty_carrier_lost :: "bool \<Rightarrow> tty \<Rightarrow> tty \<times> tty_event list" where
  "espix_tty_carrier_lost hook t =
     (let (t1, ev) = espix_tty_input_eof t in (t1, ev @ signal_fg hook t1 SIGHUP))"

text \<open>The committed ends a read has passed are dropped: one in canonical mode, all of them in raw mode.
  The comparison is signed.\<close>

fun drop_ends :: "bool \<Rightarrow> u32 \<Rightarrow> u32 list \<Rightarrow> u32 list" where
  "drop_ends canon r [] = []"
| "drop_ends canon r (e # es) =
     (if sint (e - r) \<le> 0 then if canon then es else drop_ends canon r es else e # es)"

definition take_locked :: "tty \<Rightarrow> nat \<Rightarrow> u8 list \<times> tty" where
  "take_locked t len =
     (let n = min len (avail_locked t);
          bs = map (\<lambda>i. ring t ! (unat (rd t + of_nat i) mod cap t)) [0..<n];
          r = rd t + of_nat n
      in (bs, t\<lparr>rd := r, ends := drop_ends (canonical_mode t) r (ends t)\<rparr>))"

definition waiter_set_locked :: "tty \<Rightarrow> nat \<Rightarrow> bool \<Rightarrow> tty" where
  "waiter_set_locked t task on =
     (case find_slot (\<lambda>w. if on then w = None else w = Some task) (waiters t) of
        None \<Rightarrow> t
      | Some i \<Rightarrow> t\<lparr>waiters := (waiters t)[i := if on then Some task else None]\<rparr>)"

text \<open>
  The first section under the lock of a turn of \<^verbatim>\<open>espix_tty_read\<close>'s loop, for the task
  \<open>self\<close> that has \<open>got\<close> bytes already and room for \<open>len\<close>: the bytes taken now,
  the terminal, whether the read is done, and whether the room operation is due.
\<close>

definition read_turn :: "nat \<Rightarrow> tty \<Rightarrow> nat \<Rightarrow> nat \<Rightarrow> u8 list \<times> tty \<times> bool \<times> bool" where
  "read_turn self t got len =
     (let canon = canonical_mode t;
          vmin = VMIN (tio t); vtime = VTIME (tio t);
          eol = (canon \<and> (case ends t of [] \<Rightarrow> False | e # _ \<Rightarrow> e = rd t));
          (bs, t1) = take_locked t (len - got);
          got' = got + length bs;
          room = (tfull t1 \<and> LINE_CAP < room_locked t1);
          t2 = (if room then t1\<lparr>tfull := False\<rparr> else t1);
          want = (if canon then 1 else if vmin \<noteq> 0 then min (unat vmin) len else 1);
          done = (if canon then 0 < got' \<or> eol \<or> hung t2 \<or> eof_in t2
                  else want \<le> got' \<or> ((hung t2 \<or> eof_in t2) \<and> used_locked t2 = 0) \<or> (vmin = 0 \<and> vtime = 0));
          t3 = (if done then t2 else waiter_set_locked t2 self True)
      in (bs, t3, done, room))"

definition room_event :: "tty \<Rightarrow> bool \<Rightarrow> tty_event list" where
  "room_event t room = (if room \<and> has_room t then [Room] else [])"

text \<open>A foreground read that does not wait: \<open>Inl\<close> is the negative return.\<close>

definition espix_tty_read_nonblock :: "nat \<Rightarrow> tty \<Rightarrow> nat \<Rightarrow> (errno + u8 list) \<times> tty \<times> tty_event list" where
  "espix_tty_read_nonblock self t len =
     (if len = 0 then (Inr [], t, [])
      else (case read_turn self t 0 len of
              (bs, t1, done, room) \<Rightarrow>
                if done then (Inr bs, t1, room_event t1 room)
                else (if bs \<noteq> [] then Inr bs else Inl EAGAIN, waiter_set_locked t1 self False, room_event t1 room)))"

definition espix_tty_readable :: "tty \<Rightarrow> nat" where
  "espix_tty_readable t = avail_locked t"

text \<open>\<open>fn\<close> is the terminal's write operation, \<open>mem\<close> whether the allocation of a long buffer
  succeeds.\<close>

definition tty_output :: "tty \<Rightarrow> bool \<Rightarrow> u8 list \<Rightarrow> (u8 list \<Rightarrow> errno + nat) \<Rightarrow> errno + nat" where
  "tty_output t mem buf fn =
     (if hung t then Inl EIO
      else
        (let onlcr = (\<not> tpipe t \<and> OPOST (tio t) \<and> ONLCR (tio t));
             nl = (if onlcr then count_list buf LFb else 0) in
         if nl = 0 then fn buf
         else if 256 < length buf + nl \<and> \<not> mem then Inl ENOMEM
         else (case fn (onlcr_bytes buf) of Inl e \<Rightarrow> Inl e | Inr w \<Rightarrow> Inr (length buf))))"

datatype tcset = TCSANOW | TCSADRAIN | TCSAFLUSH

definition espix_tty_setattr :: "tty \<Rightarrow> tcset \<Rightarrow> termios \<Rightarrow> tty \<times> tty_event list" where
  "espix_tty_setattr t w io =
     (let was = canonical_mode t; t1 = t\<lparr>tio := io\<rparr>;
          t2 = (if w = TCSAFLUSH then flush_input_locked t1
                else if was \<and> \<not> canonical_mode t1 \<and> tline t1 \<noteq> [] then
                  (case commit_line_locked t1 of Some t' \<Rightarrow> t' | None \<Rightarrow> t1)
                else t1)
      in (t2, if ready_locked t2 then wake_locked t2 else []))"

definition espix_tty_makeraw :: "termios \<Rightarrow> termios" where
  "espix_tty_makeraw io = io\<lparr>ISTRIP := False, INLCR := False, IGNCR := False, ICRNL := False, OPOST := False,
     ECHO := False, ECHONL := False, ICANON := False, ISIG := False, IEXTEN := False, VMIN := 1, VTIME := 0\<rparr>"

definition espix_tty_make_editing :: "termios \<Rightarrow> termios" where
  "espix_tty_make_editing io = io\<lparr>ICANON := False, ECHO := False, ECHOE := False, ECHOK := False, ECHONL := False,
     ISIG := False, IEXTEN := False, VMIN := 1, VTIME := 0\<rparr>"

definition espix_tty_make_keys :: "termios \<Rightarrow> termios" where
  "espix_tty_make_keys io = io\<lparr>ICANON := False, ECHO := False, ECHOE := False, ECHOK := False, ECHONL := False,
     IEXTEN := False, ISIG := True, VMIN := 1, VTIME := 0\<rparr>"

definition espix_tty_set_fg :: "tty \<Rightarrow> int \<Rightarrow> tty" where
  "espix_tty_set_fg t pgid = t\<lparr>intrs := (if fg t \<noteq> pgid then 0 else intrs t), fg := pgid\<rparr>"

text \<open>The new size is an \<^verbatim>\<open>int\<close> each way: it is compared with the old one before the
  conversion to \<^verbatim>\<open>unsigned short\<close>.\<close>

definition espix_tty_set_winsize :: "bool \<Rightarrow> tty \<Rightarrow> int \<Rightarrow> int \<Rightarrow> tty \<times> tty_event list" where
  "espix_tty_set_winsize hook t cols rows =
     (let changed = (uint (fst (ws t)) \<noteq> cols \<or> uint (snd (ws t)) \<noteq> rows);
          t1 = t\<lparr>ws := (of_int cols, of_int rows)\<rparr>
      in (t1, if changed then signal_fg hook t1 SIGWINCH else []))"

section \<open>The ring\<close>

text \<open>
  The positions run freely and wrap at 32 bits; that is sound because the ring's size divides
  \<open>2 ^ 32\<close>: the sizes the transports ask for are powers of two.
\<close>

lemma pos_mod:
  fixes p :: u32
  assumes "n dvd 2 ^ 32"
  shows "unat (p + of_nat k) mod n = (unat p + k) mod n"
proof -
  have "unat (p + of_nat k) = (unat p + k) mod 2 ^ 32"
    by (simp add: unat_word_ariths unat_of_nat mod_simps)
  then show ?thesis using assms by (simp add: mod_mod_cancel)
qed

lemma length_ring_store [simp]: "length (ring_store buf n p xs) = length buf"
  by (induction xs arbitrary: buf p) auto

lemma mod_shift_eq:
  assumes "j < n" "k < n" "(p + j) mod n = (p + k) mod (n::nat)"
  shows "j = k"
proof -
  have le: "a = b" if "a \<le> b" "b < n" "(p + a) mod n = (p + b) mod n" for a b
  proof -
    from that have "n dvd b - a" using mod_eq_dvd_iff_nat[of "p + a" "p + b" n] by simp
    with that show ?thesis by (auto dest: dvd_imp_le)
  qed
  show ?thesis using le[of j k] le[of k j] assms by (cases "j \<le> k") auto
qed

lemma ring_store_nth:
  assumes "n dvd 2 ^ 32" "length buf = n" "length xs \<le> n" "k < n"
  shows "ring_store buf n p xs ! ((unat p + k) mod n) =
         (if k < length xs then xs ! k else buf ! ((unat p + k) mod n))"
  using assms(2-)
proof (induction xs arbitrary: buf p k)
  case (Cons x xs)
  let ?b = "buf[unat p mod n := x]"
  have n: "0 < n" using Cons.prems by simp
  have step: "(unat (p + 1) + j) mod n = (unat p + Suc j) mod n" for j
  proof -
    have "(unat (p + 1) + j) mod n = (unat (p + 1) mod n + j) mod n" by (simp add: mod_simps)
    also have "unat (p + 1) mod n = (unat p + 1) mod n" using pos_mod[OF assms(1), of p 1] by simp
    finally show ?thesis by (simp add: mod_simps)
  qed
  have ih: "ring_store ?b n (p + 1) xs ! ((unat p + Suc j) mod n) =
      (if j < length xs then xs ! j else ?b ! ((unat p + Suc j) mod n))" if "j < n" for j
    using Cons.IH[of ?b j "p + 1"] Cons.prems that by (simp add: step)
  show ?case
  proof (cases k)
    case 0
    have "(unat p + Suc (n - 1)) mod n = unat p mod n" using n by simp
    with ih[of "n - 1"] n Cons.prems(1,2) 0 show ?thesis by auto
  next
    case (Suc j)
    have "(unat p + k) mod n \<noteq> unat p mod n"
      using mod_shift_eq[of k n 0 "unat p"] Cons.prems(3) Suc n by auto
    with ih[of j] Cons.prems(3) Suc show ?thesis by simp
  qed
qed simp

text \<open>The bytes between the two positions, oldest first.\<close>

definition contents :: "tty \<Rightarrow> u8 list" where
  "contents t = map (\<lambda>i. ring t ! (unat (rd t + of_nat i) mod cap t)) [0..<used_locked t]"

definition offs :: "tty \<Rightarrow> nat list" where
  "offs t = map (\<lambda>e. unat (e - rd t)) (ends t)"

text \<open>The state the code keeps: the ring is as long as it says and not overfull, the ends lie within
  what is buffered, in order, and the fixed arrays are not overrun.\<close>

definition tty_ok :: "tty \<Rightarrow> bool" where
  "tty_ok t \<longleftrightarrow> length (ring t) = cap t \<and> cap t dvd 2 ^ 32 \<and> LINE_CAP < cap t \<and> cap t \<le> 2 ^ 30
     \<and> used_locked t \<le> cap t \<and> sorted (offs t) \<and> (\<forall>k \<in> set (offs t). k \<le> used_locked t)
     \<and> length (ends t) \<le> ENDS_MAX \<and> length (tline t) \<le> LINE_CAP \<and> length (waiters t) = WAITERS_MAX"

named_theorems tty_defs \<open>what the accessors of the terminal read\<close>

lemma length_contents [simp]: "length (contents t) = used_locked t"
  by (simp add: contents_def)

lemma room_locked_ok:
  assumes "tty_ok t"
  shows "room_locked t = cap t - used_locked t"
proof -
  have c: "cap t < 2 ^ 32" "used_locked t \<le> cap t" using assms by (auto simp: tty_ok_def)
  then have "unat (of_nat (cap t) :: u32) = cap t" by (simp add: unat_of_nat)
  with c show ?thesis unfolding room_locked_def used_locked_def
    by (simp add: unat_sub word_le_nat_alt)
qed

lemma contents_nth:
  "tty_ok t \<Longrightarrow> i < used_locked t \<Longrightarrow> contents t ! i = ring t ! ((unat (rd t) + i) mod cap t)"
  by (simp add: contents_def tty_ok_def pos_mod)

lemma used_after_put:
  fixes w r :: u32
  assumes "unat (w - r) + n < 2 ^ 32"
  shows "unat (w + of_nat n - r) = unat (w - r) + n"
proof -
  have e: "w + of_nat n - r = (w - r) + of_nat n" by simp
  have "unat (of_nat n :: u32) = n" using assms by (simp add: unat_of_nat)
  with assms show ?thesis unfolding e by (subst unat_word_ariths(1)) simp
qed

lemma used_after_take:
  fixes w r :: u32
  assumes "n \<le> unat (w - r)"
  shows "unat (w - (r + of_nat n)) = unat (w - r) - n"
proof -
  have "unat (of_nat n :: u32) = n"
  proof -
    have "unat (w - r) < 2 ^ 32" using unsigned_less[of "w - r"] by simp
    with assms show ?thesis by (simp add: unat_of_nat)
  qed
  moreover have e: "w - (r + of_nat n) = (w - r) - of_nat n" by simp
  ultimately show ?thesis using assms unfolding e by (subst unat_sub) (simp_all add: word_le_nat_alt)
qed

lemma ring_put_None: "tty_ok t \<Longrightarrow> ring_put_locked t src = None \<longleftrightarrow> cap t < used_locked t + length src"
  by (auto simp: ring_put_locked_def room_locked_ok tty_ok_def)

lemma ring_put_used:
  assumes "tty_ok t" "ring_put_locked t src = Some t'"
  shows "used_locked t' = used_locked t + length src" "used_locked t' \<le> cap t"
proof -
  have b: "used_locked t + length src \<le> cap t" "cap t \<le> 2 ^ 30"
    using assms ring_put_None[OF assms(1), of src] by (auto simp: tty_ok_def)
  then show "used_locked t' = used_locked t + length src"
    using assms(2) used_after_put[of "wr t" "rd t" "length src"]
    by (auto simp: ring_put_locked_def used_locked_def split: if_splits)
  with b show "used_locked t' \<le> cap t" by simp
qed

lemma ring_put_fields:
  "ring_put_locked t src = Some t' \<Longrightarrow>
     t' = t\<lparr>ring := ring_store (ring t) (cap t) (wr t) src, wr := wr t + of_nat (length src)\<rparr>"
  by (auto simp: ring_put_locked_def split: if_splits)

lemma ring_put_contents:
  assumes ok: "tty_ok t" and put: "ring_put_locked t src = Some t'"
  shows "contents t' = contents t @ src"
proof (rule nth_equalityI)
  note u = ring_put_used[OF ok put]
  note f = ring_put_fields[OF put]
  show "length (contents t') = length (contents t @ src)" using u by simp
  fix i assume i: "i < length (contents t')"
  let ?n = "cap t" and ?r = "unat (rd t)" and ?u = "used_locked t"
  have d: "?n dvd 2 ^ 32" "length (ring t) = ?n" "0 < ?n" using ok by (auto simp: tty_ok_def)
  have w: "unat (wr t) mod ?n = (?r + ?u) mod ?n"
    using pos_mod[OF d(1), of "rd t" ?u] by (simp add: used_locked_def)
  have at: "(unat (wr t) + k) mod ?n = (?r + ?u + k) mod ?n" for k
    using w by (metis mod_add_left_eq)
  have nth: "contents t' ! i = ring_store (ring t) ?n (wr t) src ! ((?r + i) mod ?n)"
    using i f d by (simp add: contents_def pos_mod)
  have len: "length src \<le> ?n" "i < ?n" "?u + length src \<le> ?n" using u i by simp_all
  show "contents t' ! i = (contents t @ src) ! i"
  proof (cases "i < ?u")
    case True
    let ?k = "?n - ?u + i"
    have k: "?k < ?n" "\<not> ?k < length src" using True len by linarith+
    have "(unat (wr t) + ?k) mod ?n = (?r + i) mod ?n"
    proof -
      have "?r + ?u + ?k = ?r + i + ?n" using True len by linarith
      with at[of ?k] show ?thesis by (metis mod_add_self2)
    qed
    with ring_store_nth[OF d(1,2) len(1) k(1), of "wr t"] k nth True contents_nth[OF ok True]
    show ?thesis by (simp add: nth_append)
  next
    case False
    have k: "i - ?u < ?n" "i - ?u < length src" using False len u i by simp_all
    have "(unat (wr t) + (i - ?u)) mod ?n = (?r + i) mod ?n" using at[of "i - ?u"] False by simp
    with ring_store_nth[OF d(1,2) len(1) k(1), of "wr t"] k nth False
    show ?thesis by (simp add: nth_append)
  qed
qed

section \<open>The invariant\<close>

lemma tty_ok_frame [simp]:
  "tty_ok (t\<lparr>intrs := k\<rparr>) = tty_ok t" "tty_ok (t\<lparr>tfull := b\<rparr>) = tty_ok t"
  "tty_ok (t\<lparr>eof_in := b\<rparr>) = tty_ok t" "tty_ok (t\<lparr>hung := b\<rparr>) = tty_ok t"
  "tty_ok (t\<lparr>tio := io\<rparr>) = tty_ok t" "tty_ok (t\<lparr>fg := g\<rparr>) = tty_ok t"
  "tty_ok (t\<lparr>ws := z\<rparr>) = tty_ok t" "tty_ok (t\<lparr>nonblock := b\<rparr>) = tty_ok t"
  "tty_ok (t\<lparr>refs := m\<rparr>) = tty_ok t" "tty_ok (t\<lparr>tfd := f\<rparr>) = tty_ok t"
  "tty_ok (t\<lparr>selects := ss\<rparr>) = tty_ok t"
  by (simp_all add: tty_ok_def offs_def used_locked_def)

lemma tty_ok_tline: "tty_ok t \<Longrightarrow> length l \<le> LINE_CAP \<Longrightarrow> tty_ok (t\<lparr>tline := l\<rparr>)"
  by (simp add: tty_ok_def offs_def used_locked_def)

lemma tty_ok_tline_len: "tty_ok t \<Longrightarrow> length (tline t) \<le> LINE_CAP"
  by (simp add: tty_ok_def)

lemma tty_new_ok:
  assumes "max inbuf 256 dvd 2 ^ 32" "inbuf \<le> 2 ^ 30"
  shows "tty_ok (tty_new s e r inbuf p)"
  using assms by (simp add: tty_ok_def tty_new_def Let_def offs_def used_locked_def)

lemma flush_ok: "tty_ok t \<Longrightarrow> tty_ok (flush_input_locked t)"
  by (simp add: tty_ok_def flush_input_locked_def offs_def used_locked_def)

lemma ring_put_offs: "ring_put_locked t src = Some t' \<Longrightarrow> offs t' = offs t"
  by (auto simp: offs_def dest: ring_put_fields)

lemma ring_put_ok:
  assumes "tty_ok t" "ring_put_locked t src = Some t'"
  shows "tty_ok t'"
proof -
  note u = ring_put_used[OF assms] and f = ring_put_fields[OF assms(2)] and o = ring_put_offs[OF assms(2)]
  have "cap t' = cap t" "length (ring t') = length (ring t)" "ends t' = ends t" "tline t' = tline t" "waiters t' = waiters t"
    using f by simp_all
  with assms(1) u o show ?thesis by (fastforce simp: tty_ok_def)
qed

lemma commit_Some:
  assumes "commit_line_locked t = Some t'"
  obtains t1 where "ring_put_locked t (tline t) = Some t1" "t' = t1\<lparr>ends := ends t @ [wr t1], tline := []\<rparr>"
    "length (ends t) \<noteq> ENDS_MAX" "ends t1 = ends t" "rd t1 = rd t"
  using assms by (auto simp: commit_line_locked_def dest: ring_put_fields split: if_splits option.splits)

lemma commit_offs:
  assumes "tty_ok t" "commit_line_locked t = Some t'"
  shows "offs t' = offs t @ [used_locked t']" "used_locked t' = used_locked t + length (tline t)"
proof -
  obtain t1 where t1: "ring_put_locked t (tline t) = Some t1" "t' = t1\<lparr>ends := ends t @ [wr t1], tline := []\<rparr>" "rd t1 = rd t"
    using assms(2) by (rule commit_Some)
  have "used_locked t' = used_locked t1" using t1 by (simp add: used_locked_def)
  then show "used_locked t' = used_locked t + length (tline t)" using ring_put_used(1)[OF assms(1) t1(1)] by simp
  show "offs t' = offs t @ [used_locked t']" using t1 by (simp add: offs_def used_locked_def)
qed

lemma commit_ok:
  assumes ok: "tty_ok t" and c: "commit_line_locked t = Some t'"
  shows "tty_ok t'"
proof -
  obtain t1 where t1: "ring_put_locked t (tline t) = Some t1" "t' = t1\<lparr>ends := ends t @ [wr t1], tline := []\<rparr>"
    "length (ends t) \<noteq> ENDS_MAX" using c by (rule commit_Some)
  have ok1: "tty_ok t1" by (rule ring_put_ok[OF ok t1(1)])
  have "used_locked t' = used_locked t1" using t1(2) by (simp add: used_locked_def)
  moreover have "\<forall>k \<in> set (offs t). k \<le> used_locked t1" using ok1 ring_put_offs[OF t1(1)] by (simp add: tty_ok_def)
  moreover have "sorted (offs t)" "length (ends t) \<le> ENDS_MAX" using ok by (simp_all add: tty_ok_def)
  ultimately show ?thesis using commit_offs(1)[OF ok c] ok1 t1(2,3)
    by (auto simp: tty_ok_def sorted_append)
qed

lemma erase_one_same: "\<exists>l. fst (erase_one_locked t e) = t\<lparr>tline := l\<rparr> \<and> prefix l (tline t)"
proof (induction t e rule: erase_one_locked.induct)
  case (1 t e)
  let ?t = "t\<lparr>tline := butlast (tline t)\<rparr>"
  have p: "prefix (butlast (tline t)) (tline t)" by (rule prefixeq_butlast)
  show ?case
  proof (cases "tline t = [] \<or> last (tline t) AND 0xC0 \<noteq> 0x80")
    case True
    have "t = t\<lparr>tline := tline t\<rparr>" by simp
    then show ?thesis using True p
      by (subst erase_one_locked.simps) (auto simp: Let_def intro: exI[of _ "tline t"] exI[of _ "butlast (tline t)"])
  next
    case False
    obtain l where "fst (erase_one_locked ?t e) = t\<lparr>tline := l\<rparr>" "prefix l (butlast (tline t))"
      using 1[OF _ refl refl] False by auto
    then show ?thesis using False p
      by (subst erase_one_locked.simps) (auto simp: Let_def intro: prefix_order.trans)
  qed
qed

lemma erase_while_same: "\<exists>l. fst (erase_while P t e) = t\<lparr>tline := l\<rparr> \<and> prefix l (tline t)"
proof (induction P t e rule: erase_while.induct)
  case (1 P t e)
  show ?case
  proof (cases "tline t \<noteq> [] \<and> P (last (tline t))")
    case True
    obtain l where l: "fst (erase_one_locked t e) = t\<lparr>tline := l\<rparr>" "prefix l (tline t)"
      using erase_one_same by blast
    let ?r = "erase_while P (fst (erase_one_locked t e)) (snd (erase_one_locked t e))"
    obtain k where k: "fst ?r = (fst (erase_one_locked t e))\<lparr>tline := k\<rparr>" "prefix k (tline (fst (erase_one_locked t e)))"
      using 1[OF True refl] by blast
    have "erase_while P t e = ?r" using True by (subst erase_while.simps) (simp add: Let_def)
    moreover have "fst ?r = t\<lparr>tline := k\<rparr>" "prefix k (tline t)"
      using k l prefix_order.trans by simp_all
    ultimately show ?thesis by auto
  next
    case False
    have "t = t\<lparr>tline := tline t\<rparr>" by simp
    moreover have "erase_while P t e = (t, e)" using False by (subst erase_while.simps) auto
    ultimately show ?thesis by (metis fst_conv prefix_order.refl)
  qed
qed

lemma erased_ok:
  assumes "tty_ok t" "\<exists>l. t' = t\<lparr>tline := l\<rparr> \<and> prefix l (tline t)"
  shows "tty_ok t'"
  using assms tty_ok_tline tty_ok_tline_len prefix_length_le by (metis order_trans)

lemma erase_one_ok: "tty_ok t \<Longrightarrow> tty_ok (fst (erase_one_locked t e))"
  using erased_ok erase_one_same by blast

lemma erase_while_ok: "tty_ok t \<Longrightarrow> tty_ok (fst (erase_while P t e))"
  using erased_ok erase_while_same by blast

lemma commit_or_clear_ok:
  "tty_ok t \<Longrightarrow> tty_ok (case commit_line_locked t of Some t' \<Rightarrow> t' | None \<Rightarrow> t\<lparr>tline := []\<rparr>)"
  by (auto intro: commit_ok tty_ok_tline split: option.split)

lemma canon_char_ok:
  assumes "tty_ok t"
  shows "tty_ok (fst (canon_char t c e))"
proof -
  have "tty_ok (fst (case commit_line_locked t of Some t' \<Rightarrow> (t', e) | None \<Rightarrow> (t\<lparr>tline := []\<rparr>, e)))"
    using commit_or_clear_ok[OF assms] by (auto split: option.splits)
  moreover have "tty_ok (t\<lparr>tline := (if length (tline t) = LINE_CAP then butlast (tline t) else tline t) @ [c]\<rparr>)"
    using tty_ok_tline_len[OF assms] by (auto intro!: tty_ok_tline[OF assms])
  moreover have "length (tline t) < LINE_CAP - 1 \<Longrightarrow> tty_ok (t\<lparr>tline := tline t @ [c]\<rparr>)"
    by (auto intro!: tty_ok_tline[OF assms])
  ultimately show ?thesis using assms
    by (auto simp: canon_char_def Let_def erase_one_ok erase_while_ok case_prod_beta intro!: commit_or_clear_ok)
qed

lemma input_one_ok:
  assumes "tty_ok t" "input_one_locked t c e = Some (t', e', s)"
  shows "tty_ok t'"
proof -
  have cc: "tty_ok (fst (canon_char (t\<lparr>intrs := 0\<rparr>) d e))" for d using assms(1) by (simp add: canon_char_ok)
  have fl: "tty_ok (flush_input_locked (t\<lparr>intrs := k\<rparr>))" for k using assms(1) by (simp add: flush_ok)
  have rp: "ring_put_locked (t\<lparr>intrs := 0\<rparr>) xs = Some t1 \<Longrightarrow> tty_ok t1" for xs t1
    using assms(1) ring_put_ok[of "t\<lparr>intrs := 0\<rparr>"] by simp
  show ?thesis using assms(2) assms(1) cc fl rp ring_put_ok[OF assms(1)]
    by (auto simp: input_one_locked_def Let_def case_prod_beta split: if_splits option.splits prod.splits)
qed

lemma input_chunk_ok: "tty_ok t \<Longrightarrow> tty_ok (fst (snd (input_chunk t cs e)))"
proof (induction cs arbitrary: t e)
  case (Cons c cs)
  show ?case
  proof (cases "input_one_locked t c e")
    case None
    with Cons.prems show ?thesis by simp
  next
    case (Some r)
    obtain t' e' s where r: "r = (t', e', s)" by (cases r)
    with Cons Some input_one_ok[OF Cons.prems, of c e] show ?thesis
      by (cases s) (auto simp: case_prod_beta)
  qed
qed simp

lemma input_turn_ok: "tty_ok t \<Longrightarrow> input_turn takes hook t buf = (n, t', ev, b) \<Longrightarrow> tty_ok t'"
  using input_chunk_ok[of t "take ECHO_CHUNK buf" "[]"] by (auto simp: input_turn_def split: prod.splits)

lemma input_ok: "tty_ok t \<Longrightarrow> tty_ok (fst (snd (espix_tty_input takes hook t buf)))"
proof (induction takes hook t buf rule: espix_tty_input.induct)
  case (1 takes hook t buf)
  obtain n t1 ev b where r: "input_turn takes hook t buf = (n, t1, ev, b)" by (cases "input_turn takes hook t buf")
  then have "tty_ok t1" using input_turn_ok 1(2) by blast
  then show ?case using 1 r by (subst espix_tty_input.simps) (auto simp: case_prod_beta)
qed

section \<open>Reading\<close>

lemma sint_of_small: "- (2 ^ 31) \<le> k \<Longrightarrow> k < 2 ^ 31 \<Longrightarrow> sint (of_int k :: u32) = k"
  by (simp add: signed_of_int signed_take_bit_int_eq_self)

lemma sint_distance:
  fixes e r :: u32
  assumes "unat (e - r) \<le> 2 ^ 30" "n \<le> 2 ^ 30"
  shows "sint (e - (r + of_nat n)) = int (unat (e - r)) - int n"
proof -
  obtain u where u: "unat (e - r) = u" by simp
  have "e - r = of_nat u" unfolding u[symmetric] by simp
  then have e: "e - (r + of_nat n) = of_int (int u - int n)" by (simp add: diff_diff_eq[symmetric])
  have "- (2 ^ 31) \<le> int u - int n" "int u - int n < 2 ^ 31" using assms u by simp_all
  then show ?thesis unfolding u e by (rule sint_of_small)
qed

lemma passed_iff:
  fixes e r :: u32
  assumes "unat (e - r) \<le> 2 ^ 30" "n \<le> 2 ^ 30"
  shows "sint (e - (r + of_nat n)) \<le> 0 \<longleftrightarrow> unat (e - r) \<le> n"
  unfolding sint_distance[OF assms] by linarith

lemma avail_le_used: "tty_ok t \<Longrightarrow> avail_locked t \<le> used_locked t"
  by (auto simp: avail_locked_def tty_ok_def offs_def split: list.splits)

lemma offs_small: "tty_ok t \<Longrightarrow> e \<in> set (ends t) \<Longrightarrow> unat (e - rd t) \<le> used_locked t"
  by (auto simp: tty_ok_def offs_def)

text \<open>What the drop of passed ends does, in offsets.\<close>

fun drop_offs :: "bool \<Rightarrow> nat \<Rightarrow> nat list \<Rightarrow> nat list" where
  "drop_offs canon n [] = []"
| "drop_offs canon n (k # ks) = (if k \<le> n then if canon then ks else drop_offs canon n ks else k # ks)"

lemma drop_ends_suffix: "suffix (drop_ends canon r es) es"
  by (induction canon r es rule: drop_ends.induct) (auto simp: suffix_Cons)

lemma drop_ends_offs:
  assumes "\<forall>e \<in> set es. unat (e - r) \<le> 2 ^ 30" "n \<le> 2 ^ 30"
  shows "map (\<lambda>e. unat (e - r)) (drop_ends canon (r + of_nat n) es) = drop_offs canon n (map (\<lambda>e. unat (e - r)) es)"
  using assms by (induction es) (auto simp: passed_iff)

lemma drop_offs_suffix: "suffix (drop_offs canon n ks) ks"
  by (induction canon n ks rule: drop_offs.induct) (auto simp: suffix_Cons)

lemma drop_offs_ge:
  assumes "sorted ks" "canon \<Longrightarrow> \<forall>k \<in> set ks. n \<le> k" "k \<in> set (drop_offs canon n ks)"
  shows "n \<le> k"
  using assms by (induction canon n ks rule: drop_offs.induct) (auto split: if_splits)

text \<open>How many bytes a take of \<open>len\<close> moves.\<close>

definition taken :: "tty \<Rightarrow> nat \<Rightarrow> nat" where
  "taken t len = min len (avail_locked t)"

lemma taken_le: "tty_ok t \<Longrightarrow> taken t len \<le> used_locked t"
  using avail_le_used by (auto simp: taken_def intro: min.coboundedI2)

lemma take_locked_eq:
  assumes "tty_ok t"
  shows "take_locked t len =
    (take (taken t len) (contents t),
     t\<lparr>rd := rd t + of_nat (taken t len),
       ends := drop_ends (canonical_mode t) (rd t + of_nat (taken t len)) (ends t)\<rparr>)"
  using taken_le[OF assms, of len]
  by (simp add: take_locked_def contents_def taken_def Let_def take_map)

lemma take_used:
  assumes "tty_ok t"
  shows "used_locked (snd (take_locked t len)) = used_locked t - taken t len"
  using taken_le[OF assms, of len] used_after_take[of "taken t len" "wr t" "rd t"]
  by (simp add: take_locked_eq[OF assms] used_locked_def)

lemma take_contents:
  assumes "tty_ok t"
  shows "contents (snd (take_locked t len)) = drop (taken t len) (contents t)"
proof (rule nth_equalityI)
  let ?t = "snd (take_locked t len)"
  show l: "length (contents ?t) = length (drop (taken t len) (contents t))"
    by (simp add: take_used[OF assms])
  fix i assume "i < length (contents ?t)"
  then have i: "i + taken t len < used_locked t" using l by simp
  have c: "cap t dvd 2 ^ 32" using assms by (simp add: tty_ok_def)
  have f: "ring ?t = ring t" "cap ?t = cap t" "rd ?t = rd t + of_nat (taken t len)"
    by (simp_all add: take_locked_eq[OF assms])
  have "(rd t + of_nat (taken t len)) + of_nat i = rd t + (of_nat (taken t len + i) :: u32)" by simp
  with i f take_used[OF assms, of len] show "contents ?t ! i = drop (taken t len) (contents t) ! i"
    by (simp add: contents_def add.commute add.left_commute)
qed

lemma canonical_taken_le:
  assumes "tty_ok t" "canonical_mode t" "k \<in> set (offs t)"
  shows "taken t len \<le> k"
proof (cases "ends t")
  case (Cons e es)
  have "unat (e - rd t) \<le> k" using assms(1,3) Cons by (auto simp: tty_ok_def offs_def)
  with assms(2) Cons show ?thesis by (auto simp: taken_def avail_locked_def)
qed (use assms(3) in \<open>simp add: offs_def\<close>)

lemma take_offs:
  assumes ok: "tty_ok t"
  shows "offs (snd (take_locked t len)) =
    map (\<lambda>k. k - taken t len) (drop_offs (canonical_mode t) (taken t len) (offs t))"
proof -
  let ?n = "taken t len" and ?r = "rd t + of_nat (taken t len)"
  have small: "\<forall>e \<in> set (ends t). unat (e - rd t) \<le> 2 ^ 30" "?n \<le> 2 ^ 30"
  proof -
    have u: "used_locked t \<le> 2 ^ 30" using ok by (simp add: tty_ok_def)
    show "\<forall>e \<in> set (ends t). unat (e - rd t) \<le> 2 ^ 30" using offs_small[OF ok] u order_trans by blast
    show "?n \<le> 2 ^ 30" using taken_le[OF ok] u order_trans by blast
  qed
  let ?es = "drop_ends (canonical_mode t) ?r (ends t)"
  have d: "map (\<lambda>e. unat (e - rd t)) ?es = drop_offs (canonical_mode t) ?n (offs t)"
    using drop_ends_offs[OF small] by (simp add: offs_def)
  have "sorted (offs t)" using ok by (simp add: tty_ok_def)
  then have drop_ge: "\<forall>k \<in> set (drop_offs (canonical_mode t) ?n (offs t)). ?n \<le> k"
    using drop_offs_ge canonical_taken_le[OF ok] by blast
  have ge: "?n \<le> unat (e - rd t)" if "e \<in> set ?es" for e
  proof -
    have "unat (e - rd t) \<in> set (map (\<lambda>e. unat (e - rd t)) ?es)" using that by simp
    then show ?thesis unfolding d using drop_ge by blast
  qed
  have "map (\<lambda>e. unat (e - ?r)) ?es = map (\<lambda>e. unat (e - rd t) - ?n) ?es"
    using ge used_after_take by (auto simp: used_after_take)
  also have "\<dots> = map (\<lambda>k. k - ?n) (map (\<lambda>e. unat (e - rd t)) ?es)" by simp
  finally have "map (\<lambda>e. unat (e - ?r)) ?es = map (\<lambda>k. k - ?n) (drop_offs (canonical_mode t) ?n (offs t))"
    by (simp only: d)
  moreover have "offs (snd (take_locked t len)) = map (\<lambda>e. unat (e - ?r)) ?es"
    by (simp add: offs_def take_locked_eq[OF ok])
  ultimately show ?thesis by simp
qed

lemma sorted_map_diff: "sorted ks \<Longrightarrow> sorted (map (\<lambda>k. k - n) (ks :: nat list))"
  by (induction ks) (auto intro: diff_le_mono)

lemma take_ok:
  assumes ok: "tty_ok t"
  shows "tty_ok (snd (take_locked t len))"
proof -
  let ?t = "snd (take_locked t len)" and ?d = "drop_offs (canonical_mode t) (taken t len) (offs t)"
  have sub: "suffix ?d (offs t)" by (rule drop_offs_suffix)
  obtain zs where zs: "offs t = zs @ ?d" using sub by (auto simp: suffix_def)
  have "sorted (zs @ ?d)" using ok unfolding zs[symmetric] by (simp add: tty_ok_def)
  then have "sorted ?d" by (simp add: sorted_append)
  then have "sorted (offs ?t)"
    by (simp only: take_offs[OF ok] sorted_map_diff)
  moreover have "\<forall>k \<in> set (offs ?t). k \<le> used_locked ?t"
    using ok set_mono_suffix[OF sub] by (fastforce simp: take_offs[OF ok] take_used[OF ok] tty_ok_def intro: diff_le_mono)
  moreover have "length (ends ?t) \<le> length (ends t)"
    using suffix_length_le[OF drop_ends_suffix] by (simp add: take_locked_eq[OF ok])
  moreover have "ring ?t = ring t" "cap ?t = cap t" "tline ?t = tline t" "waiters ?t = waiters t"
    by (simp_all add: take_locked_eq[OF ok])
  ultimately show ?thesis using ok take_used[OF ok, of len] by (auto simp: tty_ok_def)
qed

lemma waiter_set_ok: "tty_ok t \<Longrightarrow> tty_ok (waiter_set_locked t w on)"
  by (auto simp: tty_ok_def waiter_set_locked_def offs_def used_locked_def split: option.split)

lemma read_turn_ok: "tty_ok t \<Longrightarrow> read_turn self t got len = (bs, t', d, room) \<Longrightarrow> tty_ok t'"
  using take_ok[of t "len - got"] by (auto simp: read_turn_def Let_def waiter_set_ok split: prod.splits if_splits)

lemma setattr_ok: "tty_ok t \<Longrightarrow> tty_ok (fst (espix_tty_setattr t w io))"
  using commit_ok[of "t\<lparr>tio := io\<rparr>"] flush_ok[of "t\<lparr>tio := io\<rparr>"]
  by (auto simp: espix_tty_setattr_def Let_def split: option.split)

section \<open>The ring as a queue\<close>

definition raw_ok :: "tty \<Rightarrow> bool" where
  "raw_ok t \<longleftrightarrow> tty_ok t \<and> \<not> canonical_mode t"

lemma canonical_frame [simp]:
  "canonical_mode (t\<lparr>ring := b\<rparr>) = canonical_mode t" "canonical_mode (t\<lparr>wr := p\<rparr>) = canonical_mode t"
  "canonical_mode (t\<lparr>rd := p\<rparr>) = canonical_mode t" "canonical_mode (t\<lparr>ends := es\<rparr>) = canonical_mode t"
  "canonical_mode (t\<lparr>tline := l\<rparr>) = canonical_mode t" "canonical_mode (t\<lparr>intrs := k\<rparr>) = canonical_mode t"
  "canonical_mode (t\<lparr>tfull := f\<rparr>) = canonical_mode t" "canonical_mode (t\<lparr>waiters := v\<rparr>) = canonical_mode t"
  by (simp_all add: canonical_mode_def)

interpretation tty_q: byte_fifo ring_put_locked take_locked contents cap raw_ok
proof (unfold_locales, goal_cases)
  case (1 s xs s')
  then show ?case by (simp add: raw_ok_def ring_put_contents)
next
  case (2 s xs)
  then show ?case by (simp add: raw_ok_def ring_put_None)
next
  case (3 s xs s')
  then show ?case using ring_put_ok[of s xs s'] ring_put_fields[of s xs s'] by (simp add: raw_ok_def)
next
  case (4 s n ys s')
  have "ys = take (taken s n) (contents s)" "contents s' = drop (taken s n) (contents s)"
    using 4 take_contents[of s n] take_locked_eq[of s n] by (auto simp: raw_ok_def)
  moreover have "taken s n = min n (length (contents s))"
    using 4(1) by (simp add: taken_def avail_locked_def raw_ok_def)
  ultimately show ?case by simp
next
  case (5 s n ys s')
  then have "s' = snd (take_locked s n)" by simp
  with 5(1) take_ok[of s n] take_locked_eq[of s n] show ?case by (simp add: raw_ok_def)
qed

section \<open>Canonical lines\<close>

text \<open>
  What the canonical reader sees: the committed lines, oldest first, and what lies in the ring after
  the last of them (bytes that came in raw mode).
\<close>

fun cut :: "nat list \<Rightarrow> 'a list \<Rightarrow> 'a list list" where
  "cut [] xs = []"
| "cut (k # ks) xs = take k xs # cut (map (\<lambda>j. j - k) ks) (drop k xs)"

definition last_off :: "nat list \<Rightarrow> nat" where
  "last_off ks = (if ks = [] then 0 else last ks)"

definition tty_lines :: "tty \<Rightarrow> u8 list list" where
  "tty_lines t = cut (offs t) (contents t)"

definition uncut :: "tty \<Rightarrow> u8 list" where
  "uncut t = drop (last_off (offs t)) (contents t)"

lemma last_off_diff: "sorted (k # ks) \<Longrightarrow> last_off (map (\<lambda>j. j - k) ks) + k = last_off (k # ks)"
  by (auto simp: last_off_def last_map)

lemma cut_append:
  "sorted ks \<Longrightarrow> \<forall>k \<in> set ks. k \<le> length xs \<Longrightarrow>
     cut (ks @ [length xs + length ys]) (xs @ ys) = cut ks xs @ [drop (last_off ks) xs @ ys]"
proof (induction ks xs rule: cut.induct)
  case (2 k ks xs)
  let ?ks = "map (\<lambda>j. j - k) ks"
  have s: "sorted ?ks" using 2(2) by (simp add: sorted_map_diff)
  have b: "\<forall>j \<in> set ?ks. j \<le> length (drop k xs)" using 2(3) by auto
  have k: "k \<le> length xs" using 2(3) by simp
  have l: "drop (last_off ?ks) (drop k xs) = drop (last_off (k # ks)) xs"
    using last_off_diff[OF 2(2)] by simp
  have e: "length xs + length ys - k = length (drop k xs) + length ys" using k by simp
  have "cut ((k # ks) @ [length xs + length ys]) (xs @ ys) =
      take k xs # cut (?ks @ [length (drop k xs) + length ys]) (drop k xs @ ys)"
    using k e by simp
  also have "\<dots> = take k xs # cut ?ks (drop k xs) @ [drop (last_off (k # ks)) xs @ ys]"
    unfolding 2(1)[OF s b] l ..
  finally show ?case by simp
qed (simp add: last_off_def)

lemma cut_concat:
  "sorted ks \<Longrightarrow> concat (cut ks xs) @ drop (last_off ks) xs = xs"
proof (induction ks xs rule: cut.induct)
  case (2 k ks xs)
  let ?ks = "map (\<lambda>j. j - k) ks"
  have s: "sorted ?ks" using 2(2) by (simp add: sorted_map_diff)
  have "drop (last_off (k # ks)) xs = drop (last_off ?ks) (drop k xs)" using last_off_diff[OF 2(2)] by simp
  with 2(1)[OF s] show ?case by simp
qed (simp add: last_off_def)

lemma lines_concat: "tty_ok t \<Longrightarrow> concat (tty_lines t) @ uncut t = contents t"
  unfolding tty_lines_def uncut_def by (rule cut_concat) (simp add: tty_ok_def)

lemma commit_lines:
  assumes ok: "tty_ok t" and c: "commit_line_locked t = Some t'"
  shows "tty_lines t' = tty_lines t @ [uncut t @ tline t] \<and> uncut t' = [] \<and> tline t' = []"
proof -
  obtain t1 where t1: "ring_put_locked t (tline t) = Some t1" "t' = t1\<lparr>ends := ends t @ [wr t1], tline := []\<rparr>"
    using c by (rule commit_Some)
  have "contents t' = contents t1" using t1(2) by (simp add: contents_def used_locked_def)
  then have c: "contents t' = contents t @ tline t" using ring_put_contents[OF ok t1(1)] by simp
  have o: "offs t' = offs t @ [length (contents t) + length (tline t)]"
    using commit_offs[OF ok \<open>commit_line_locked t = Some t'\<close>] by simp
  have "sorted (offs t)" "\<forall>k \<in> set (offs t). k \<le> length (contents t)" using ok by (simp_all add: tty_ok_def)
  then have "tty_lines t' = tty_lines t @ [uncut t @ tline t]"
    unfolding tty_lines_def uncut_def c o by (rule cut_append)
  moreover have "uncut t' = []" unfolding uncut_def c o by (simp add: last_off_def)
  ultimately show ?thesis using t1(2) by simp
qed

lemma lines_Nil: "tty_lines t = [] \<longleftrightarrow> ends t = []"
  by (cases "ends t") (auto simp: tty_lines_def offs_def)

lemma canonical_avail:
  "canonical_mode t \<Longrightarrow> avail_locked t = (case offs t of [] \<Rightarrow> 0 | k # _ \<Rightarrow> k)"
  by (cases "ends t") (auto simp: avail_locked_def offs_def)

text \<open>A take in canonical mode, on the lines.\<close>

lemma take_lines:
  assumes ok: "tty_ok t" and canon: "canonical_mode t" and l: "tty_lines t = l # ls"
  shows "fst (take_locked t len) = take len l
    \<and> tty_lines (snd (take_locked t len)) = (if length l \<le> len then ls else drop len l # ls)
    \<and> uncut (snd (take_locked t len)) = uncut t"
proof -
  obtain k ks where o: "offs t = k # ks" using l by (cases "offs t") (auto simp: tty_lines_def)
  have kl: "k \<le> length (contents t)" "sorted (k # ks)" using ok o by (simp_all add: tty_ok_def)
  have len: "length l = k" "l = take k (contents t)" "ls = cut (map (\<lambda>j. j - k) ks) (drop k (contents t))"
    using l o kl(1) by (auto simp: tty_lines_def)
  have n: "taken t len = min len k" by (simp add: taken_def canonical_avail[OF canon] o)
  let ?t = "snd (take_locked t len)"
  have fst: "fst (take_locked t len) = take len l"
    using n len(2) by (simp add: take_locked_eq[OF ok])
  have c: "contents ?t = drop (min len k) (contents t)" using take_contents[OF ok, of len] n by simp
  have f: "offs ?t = map (\<lambda>j. j - min len k) (if k \<le> len then ks else k # ks)"
    using take_offs[OF ok, of len] o canon n by (auto simp: min_def)
  show ?thesis
  proof (cases "k \<le> len")
    case True
    with fst c f len show ?thesis using last_off_diff[OF kl(2)] o
      by (simp add: tty_lines_def uncut_def min_absorb2)
  next
    case False
    have f': "offs ?t = (k - len) # map (\<lambda>j. j - len) ks" using f False by simp
    have m: "map (\<lambda>j. j - (k - len)) (map (\<lambda>j. j - len) ks) = map (\<lambda>j. j - k) ks" using False kl(2) by auto
    have "tty_lines ?t = take (k - len) (contents ?t) # cut (map (\<lambda>j. j - k) ks) (drop (k - len) (contents ?t))"
      unfolding tty_lines_def f' cut.simps m ..
    then have "tty_lines ?t = drop len l # ls" using c len False by (simp add: drop_take)
    moreover have "last_off (offs ?t) + len = last_off (k # ks)"
      using kl(2) False f' by (force simp: last_off_def last_map dest: last_in_set)
    then have "uncut ?t = uncut t" using c False o by (simp add: uncut_def)
    ultimately show ?thesis using fst len False by simp
  qed
qed

section \<open>Editing and echo\<close>

text \<open>A UTF-8 continuation byte.\<close>

definition utf8_cont :: "u8 \<Rightarrow> bool" where
  "utf8_cont c \<longleftrightarrow> c AND 0xC0 = 0x80"

lemma erase_utf8:
  "\<forall>c \<in> set cs. utf8_cont c \<Longrightarrow> \<not> utf8_cont b \<Longrightarrow> tline t = l @ b # cs \<Longrightarrow>
     fst (erase_one_locked t e) = t\<lparr>tline := l\<rparr>"
proof (induction cs arbitrary: t rule: rev_induct)
  case Nil
  then show ?case by (subst erase_one_locked.simps) (simp add: Let_def utf8_cont_def)
next
  case (snoc c cs)
  let ?t = "t\<lparr>tline := butlast (tline t)\<rparr>"
  have "erase_one_locked t e = erase_one_locked ?t e"
    using snoc.prems by (subst erase_one_locked.simps) (simp add: Let_def utf8_cont_def)
  moreover have "tline ?t = l @ b # cs" using snoc.prems by (simp add: butlast_append)
  ultimately show ?case using snoc by simp
qed

text \<open>The echo of one chunk always fits \<^verbatim>\<open>echo_out\<close>'s buffer, newlines doubled.\<close>

lemma echo_fill_eq:
  "length out + 2 * length cs \<le> 384 \<Longrightarrow>
     echo_fill onlcr out cs = out @ (if onlcr then onlcr_bytes cs else cs)"
  by (induction onlcr out cs rule: echo_fill.induct) auto

lemma echo_add_len: "length e \<le> 192 \<Longrightarrow> length (echo_add e s) \<le> 192"
  by (simp add: echo_add_def)

lemma echo_char_len: "length e \<le> 192 \<Longrightarrow> length (echo_char t e c) \<le> 192"
  by (simp add: echo_char_def echo_add_len)

lemma erase_one_echo: "length e \<le> 192 \<Longrightarrow> length (snd (erase_one_locked t e)) \<le> 192"
proof (induction t e rule: erase_one_locked.induct)
  case (1 t e)
  then show ?case by (subst erase_one_locked.simps) (auto simp: Let_def echo_add_len)
qed

lemma erase_while_echo: "length e \<le> 192 \<Longrightarrow> length (snd (erase_while P t e)) \<le> 192"
proof (induction P t e rule: erase_while.induct)
  case (1 P t e)
  then show ?case by (subst erase_while.simps) (auto simp: Let_def erase_one_echo)
qed

lemma canon_char_echo: "length e \<le> 192 \<Longrightarrow> length (snd (canon_char t c e)) \<le> 192"
  by (auto simp: canon_char_def Let_def case_prod_beta erase_one_echo erase_while_echo echo_add_len echo_char_len
      split: option.split)

lemma input_one_echo:
  assumes "length e \<le> 192" "input_one_locked t c e = Some (t', e', s)"
  shows "length e' \<le> 192"
  using assms canon_char_echo[OF assms(1)]
  by (auto simp: input_one_locked_def Let_def case_prod_beta echo_char_len split: if_splits option.splits prod.splits)

lemma input_chunk_echo:
  "length e \<le> 192 \<Longrightarrow> input_chunk t cs e = (n, t', e', s, b) \<Longrightarrow> length e' \<le> 192"
proof (induction cs arbitrary: t e n)
  case (Cons c cs)
  show ?case
  proof (cases "input_one_locked t c e")
    case (Some r)
    obtain t1 e1 s1 where r: "r = (t1, e1, s1)" by (cases r)
    have "length e1 \<le> 192" using input_one_echo[OF Cons.prems(1)] Some r by simp
    with Cons Some r show ?thesis by (cases s1) (auto split: prod.splits)
  qed (use Cons.prems in simp)
qed simp

section \<open>A line typed\<close>

text \<open>A byte that is neither translated, nor a signal, nor an editing character.\<close>

definition plain_char :: "tty \<Rightarrow> u8 \<Rightarrow> bool" where
  "plain_char t c \<longleftrightarrow> input_char (tio t) c = Some c \<and> signal_of t c = None
     \<and> c \<noteq> VERASE (tio t) \<and> c \<noteq> 8 \<and> c \<noteq> VKILL (tio t) \<and> \<not> (c = 0x17 \<and> IEXTEN (tio t))
     \<and> \<not> (c = VEOF (tio t) \<and> c \<noteq> 0)"

definition ends_line :: "tty \<Rightarrow> u8 \<Rightarrow> bool" where
  "ends_line t c \<longleftrightarrow> c = LFb \<or> (c = VEOL (tio t) \<and> c \<noteq> 0)"

lemma plain_char_frame [simp]:
  "plain_char (t\<lparr>intrs := k\<rparr>) c = plain_char t c" "plain_char (t\<lparr>tline := l\<rparr>) c = plain_char t c"
  "ends_line (t\<lparr>intrs := k\<rparr>) c = ends_line t c" "ends_line (t\<lparr>tline := l\<rparr>) c = ends_line t c"
  by (auto simp: plain_char_def ends_line_def signal_of_def Let_def split: if_splits)

lemma canon_char_plain:
  assumes "plain_char t c" "\<not> ends_line t c" "length (tline t) < LINE_CAP - 1"
  shows "canon_char t c e = (t\<lparr>tline := tline t @ [c]\<rparr>, echo_char t e c)"
  using assms unfolding canon_char_def Let_def plain_char_def ends_line_def by (auto simp del: One_nat_def)

lemma canon_char_ends:
  assumes "plain_char t c" "ends_line t c" "length (tline t) < LINE_CAP"
    and "commit_line_locked (t\<lparr>tline := tline t @ [c]\<rparr>) = Some t'"
  shows "fst (canon_char t c e) = t'"
  using assms unfolding canon_char_def Let_def plain_char_def ends_line_def by auto

lemma input_canon:
  assumes "canonical_mode t" "plain_char t c"
  shows "input_one_locked t c e =
    Some (fst (canon_char (t\<lparr>intrs := 0\<rparr>) c e), snd (canon_char (t\<lparr>intrs := 0\<rparr>) c e), None)"
  using assms by (simp add: input_one_locked_def plain_char_def canonical_mode_def Let_def case_prod_beta)

lemma input_plain:
  assumes "canonical_mode t" "plain_char t c" "\<not> ends_line t c" "length (tline t) < LINE_CAP - 1"
  shows "input_one_locked t c e = Some (t\<lparr>intrs := 0, tline := tline t @ [c]\<rparr>, echo_char t e c, None)"
  using input_canon[OF assms(1,2), of e] canon_char_plain[of "t\<lparr>intrs := 0\<rparr>" c e] assms(2-)
  by (simp add: echo_char_def)

lemma input_plains:
  assumes "canonical_mode t" "\<forall>c \<in> set cs. plain_char t c \<and> \<not> ends_line t c" "length (tline t) + length cs < LINE_CAP"
  shows "\<exists>k e'. input_chunk t cs e = (length cs, t\<lparr>intrs := k, tline := tline t @ cs\<rparr>, e', None, False)"
  using assms
proof (induction cs arbitrary: t e)
  case Nil
  have "t = t\<lparr>intrs := intrs t, tline := tline t\<rparr>" by simp
  then show ?case by (auto intro: exI[of _ "intrs t"])
next
  case (Cons c cs)
  let ?t = "t\<lparr>intrs := 0, tline := tline t @ [c]\<rparr>"
  have "input_one_locked t c e = Some (?t, echo_char t e c, None)"
    using Cons.prems by (intro input_plain) auto
  moreover have "\<exists>k e'. input_chunk ?t cs (echo_char t e c) = (length cs, ?t\<lparr>intrs := k, tline := tline ?t @ cs\<rparr>, e', None, False)"
    using Cons.prems by (intro Cons.IH) (auto simp: canonical_mode_def)
  ultimately show ?case by (auto simp: fun_upd_def)
qed

lemma input_newline:
  assumes "canonical_mode t" "plain_char t c" "ends_line t c" "length (tline t) < LINE_CAP"
    and "commit_line_locked (t\<lparr>intrs := 0, tline := tline t @ [c]\<rparr>) = Some t'"
  shows "\<exists>e'. input_one_locked t c e = Some (t', e', None)"
  using input_canon[OF assms(1,2), of e] canon_char_ends[of "t\<lparr>intrs := 0\<rparr>" c t' e] assms(2-) by simp

lemma input_chunk_append:
  assumes "input_chunk t cs e = (length cs, t1, e1, None, False)" "input_one_locked t1 c e1 = Some (t2, e2, None)"
  shows "input_chunk t (cs @ [c]) e = (Suc (length cs), t2, e2, None, False)"
  using assms
proof (induction cs arbitrary: t e)
  case (Cons d cs)
  then show ?case
    by (auto split: option.splits prod.splits)
qed simp

lemma input_turn_chunk:
  assumes "input_chunk t (take ECHO_CHUNK buf) [] = (n, t1, e, None, b)"
  shows "\<exists>ev. input_turn takes hook t buf = (n, t1, ev, b)"
  using assms by (simp add: input_turn_def)

lemma input_typed:
  assumes "canonical_mode t" "\<forall>d \<in> set bs. plain_char t d \<and> \<not> ends_line t d" "plain_char t c" "ends_line t c"
    and "length (tline t) + length bs < LINE_CAP"
    and "commit_line_locked (t\<lparr>intrs := 0, tline := tline t @ bs @ [c]\<rparr>) = Some t'"
  shows "\<exists>ev. espix_tty_input takes hook t (bs @ [c]) = (Suc (length bs), t', ev)"
  using assms
proof (induction "length bs" arbitrary: bs t rule: less_induct)
  case less
  show ?case
  proof (cases "length bs < ECHO_CHUNK")
    case True
    obtain k e1 where k: "input_chunk t bs [] = (length bs, t\<lparr>intrs := k, tline := tline t @ bs\<rparr>, e1, None, False)"
      using input_plains[OF less.prems(1,2,5), of "[]"] by blast
    let ?t = "t\<lparr>intrs := k, tline := tline t @ bs\<rparr>"
    have "\<exists>e'. input_one_locked ?t c e1 = Some (t', e', None)"
      using less.prems by (intro input_newline) (auto simp: canonical_mode_def)
    then obtain e2 where e2: "input_chunk t (bs @ [c]) [] = (Suc (length bs), t', e2, None, False)"
      using input_chunk_append[OF k] by blast
    moreover have "take ECHO_CHUNK (bs @ [c]) = bs @ [c]" using True by simp
    ultimately obtain ev where "input_turn takes hook t (bs @ [c]) = (Suc (length bs), t', ev, False)"
      using input_turn_chunk[of t "bs @ [c]"] by metis
    then show ?thesis by (subst espix_tty_input.simps) (simp add: espix_tty_input.simps[of _ _ _ "[]"])
  next
    case False
    let ?a = "take ECHO_CHUNK bs" and ?b = "drop ECHO_CHUNK bs"
    have "\<forall>d \<in> set ?a. plain_char t d \<and> \<not> ends_line t d" "length (tline t) + length ?a < LINE_CAP"
      using less.prems(2,5) by (auto dest: in_set_takeD)
    then obtain k e1 where k: "input_chunk t ?a [] = (length ?a, t\<lparr>intrs := k, tline := tline t @ ?a\<rparr>, e1, None, False)"
      using input_plains[OF less.prems(1)] by blast
    let ?t = "t\<lparr>intrs := k, tline := tline t @ ?a\<rparr>"
    have "take ECHO_CHUNK (bs @ [c]) = ?a" "drop (length ?a) (bs @ [c]) = ?b @ [c]" "length ?a = ECHO_CHUNK"
      using False by simp_all
    with k obtain ev where turn: "input_turn takes hook t (bs @ [c]) = (length ?a, ?t, ev, False)"
      using input_turn_chunk[of t "bs @ [c]"] by metis
    have "\<exists>ev. espix_tty_input takes hook ?t (?b @ [c]) = (Suc (length ?b), t', ev)"
    proof (rule less.hyps)
      show "length ?b < length bs" using False by simp
      show "canonical_mode ?t" using less.prems(1) by (simp add: canonical_mode_def)
      show "\<forall>d \<in> set ?b. plain_char ?t d \<and> \<not> ends_line ?t d" using less.prems(2) by (auto dest: in_set_dropD)
      show "length (tline ?t) + length ?b < LINE_CAP" using less.prems(5) by simp
      have "?a @ ?b @ [c] = bs @ [c]" unfolding append_assoc[symmetric] append_take_drop_id ..
      moreover have "tline ?t = tline t @ ?a" by simp
      ultimately have e: "tline ?t @ ?b @ [c] = tline t @ bs @ [c]" by (simp only: append_assoc)
      show "commit_line_locked (?t\<lparr>intrs := 0, tline := tline ?t @ ?b @ [c]\<rparr>) = Some t'"
        unfolding e using less.prems(6) by simp
    qed (use less.prems(3,4) in simp_all)
    then obtain ev' where "espix_tty_input takes hook ?t (?b @ [c]) = (Suc (length ?b), t', ev')" by blast
    with turn \<open>drop (length ?a) (bs @ [c]) = ?b @ [c]\<close> False show ?thesis
      by (subst espix_tty_input.simps) auto
  qed
qed

lemma nonblock_read_lines:
  assumes ok: "tty_ok t" and canon: "canonical_mode t" and len: "0 < len"
  shows "case espix_tty_read_nonblock self t len of (r, t', ev) \<Rightarrow>
    (case tty_lines t of
       [] \<Rightarrow> r = (if hung t \<or> eof_in t then Inr [] else Inl EAGAIN) \<and> tty_lines t' = []
     | l # ls \<Rightarrow> r = Inr (take len l) \<and> tty_lines t' = (if length l \<le> len then ls else drop len l # ls))
    \<and> uncut t' = uncut t \<and> tline t' = tline t"
proof -
  obtain bs t1 where tk: "take_locked t len = (bs, t1)" by (cases "take_locked t len")
  have t1: "tline t1 = tline t" "hung t1 = hung t" "eof_in t1 = eof_in t"
    using tk take_locked_eq[OF ok, of len] by auto
  have fr: "tty_lines (u\<lparr>tfull := b\<rparr>) = tty_lines u" "uncut (u\<lparr>tfull := b\<rparr>) = uncut u"
    "tty_lines (waiter_set_locked u w on) = tty_lines u" "uncut (waiter_set_locked u w on) = uncut u"
    "tline (waiter_set_locked u w on) = tline u" for u b w on
    by (simp_all add: tty_lines_def uncut_def offs_def contents_def used_locked_def waiter_set_locked_def split: option.split)
  show ?thesis
  proof (cases "tty_lines t")
    case Nil
    then have e: "ends t = []" by (simp add: lines_Nil)
    then have "taken t len = 0" using canon by (simp add: taken_def avail_locked_def)
    then have "bs = []" "t1 = t" using tk take_locked_eq[OF ok, of len] e by (auto intro: tty.equality)
    with Nil e canon len tk show ?thesis
      by (simp add: espix_tty_read_nonblock_def read_turn_def Let_def fr)
  next
    case (Cons l ls)
    have r: "bs = take len l" "tty_lines t1 = (if length l \<le> len then ls else drop len l # ls)" "uncut t1 = uncut t"
      using take_lines[OF ok canon Cons, of len] tk by simp_all
    obtain e es where es: "ends t = e # es" using Cons lines_Nil by (metis list.distinct(1) list.exhaust)
    have "e = rd t \<or> bs \<noteq> []"
    proof (rule disjCI)
      assume "\<not> bs \<noteq> []"
      then have "l = []" using r(1) len by simp
      moreover have "length l = unat (e - rd t)"
        using Cons es ok by (auto simp: tty_lines_def offs_def tty_ok_def)
      ultimately have "unat (e - rd t) = 0" by simp
      then show "e = rd t" by (simp add: unat_eq_0)
    qed
    with canon len tk es r t1 Cons show ?thesis
      by (auto simp: espix_tty_read_nonblock_def read_turn_def Let_def fr)
  qed
qed

lemma commit_canonical: "commit_line_locked t = Some t' \<Longrightarrow> canonical_mode t' = canonical_mode t"
proof (erule commit_Some)
  fix t1 assume "ring_put_locked t (tline t) = Some t1" "t' = t1\<lparr>ends := ends t @ [wr t1], tline := []\<rparr>"
  then show ?thesis using ring_put_fields[of t "tline t" t1] by simp
qed

section \<open>Properties\<close>

text \<open>
  C6. A pipe or a raw terminal loses, repeats and reorders nothing: over any interleaving of
  writes into the ring and reads out of it, with the 32-bit positions wrapping as they do, what was
  there before followed by what was accepted is what was read followed by what is there now.
\<close>

theorem ring_fifo:
  assumes "tty_ok t" "\<not> canonical_mode t"
    and "fifo_run ring_put_locked take_locked t ops = (accepted, got, t')"
  shows "contents t @ accepted = got @ contents t' \<and> tty_ok t'"
  using tty_q.run_fifo[of t ops accepted got t'] assms by (simp add: raw_ok_def)

theorem ring_fifo_witness:
  "let t = (tty_new False False False 256 True)\<lparr>rd := 0xFFFFFFFE, wr := 0xFFFFFFFE\<rparr> in
   tty_ok t \<and> contents (snd (snd (fifo_run ring_put_locked take_locked t [Inl [1, 2, 3], Inr 2]))) = [3]"
proof -
  let ?t = "(tty_new False False False 256 True)\<lparr>rd := 0xFFFFFFFE, wr := 0xFFFFFFFE\<rparr>"
  obtain a g t' where r: "fifo_run ring_put_locked take_locked ?t [Inl [1, 2, 3], Inr 2] = (a, g, t')"
    by (metis prod_cases3)
  have ok: "tty_ok ?t" "\<not> canonical_mode ?t"
    by (simp_all add: tty_ok_def tty_new_def Let_def offs_def used_locked_def canonical_mode_def)
  have "contents ?t = []" by (simp add: contents_def used_locked_def)
  moreover have "a = [1, 2, 3] \<and> g = [1, 2]" using r
    by (simp add: tty_new_def Let_def ring_put_locked_def room_locked_def used_locked_def take_locked_def
        avail_locked_def canonical_mode_def upt_rec split: prod.splits)
  ultimately have "contents t' = [3]" using ring_fifo[OF ok r] by simp
  with r ok show ?thesis by simp
qed

text \<open>
  C27. A canonical read takes lines as they were committed: it returns at most the first line, all
  of it when there is room, its beginning otherwise with the rest left as the next read's line; an
  end-of-file mark is a line of no bytes and reads as 0; with no line, the end of input reads
  as 0 and anything else would block. What lies behind is not touched.
\<close>

theorem canonical_read:
  assumes ok: "tty_ok t" and canon: "canonical_mode t" and len: "0 < len"
  shows "case espix_tty_read_nonblock self t len of (r, t', ev) \<Rightarrow>
    (case tty_lines t of
       [] \<Rightarrow> r = (if hung t \<or> eof_in t then Inr [] else Inl EAGAIN) \<and> tty_lines t' = []
     | l # ls \<Rightarrow> r = Inr (take len l) \<and> tty_lines t' = (if length l \<le> len then ls else drop len l # ls))
    \<and> uncut t' = uncut t \<and> tline t' = tline t"
  using assms by (rule nonblock_read_lines)

theorem canonical_read_witness:
  "let t = (tty_new False False False 256 False)\<lparr>ring := [0x68, 0x69, LFb] @ replicate 253 0, wr := 3, ends := [3]\<rparr> in
   tty_lines t = [[0x68, 0x69, LFb]] \<and> fst (espix_tty_read_nonblock 1 t 2) = Inr [0x68, 0x69]"
proof -
  let ?t = "(tty_new False False False 256 False)\<lparr>ring := [0x68, 0x69, LFb] @ replicate 253 0, wr := 3, ends := [3]\<rparr>"
  have ok: "tty_ok ?t" "canonical_mode ?t"
    by (simp_all add: tty_ok_def tty_new_def Let_def offs_def used_locked_def canonical_mode_def defaults_def espix_tty_sane_def)
  have l: "tty_lines ?t = [[0x68, 0x69, LFb]]"
    by (simp add: tty_lines_def contents_def offs_def used_locked_def tty_new_def Let_def upt_rec)
  show ?thesis using canonical_read[OF ok, of 2 1] l by (simp split: prod.splits)
qed



end
