(* ===== verification/Tty_Wait.thy ===== *)
theory Tty_Wait
  imports Tty
begin

text \<open>
  \<^verbatim>\<open>espix_tty_read\<close> of \<^verbatim>\<open>components/espix_tty/tty.c\<close> as several tasks run it at once: each
  section under the lock, each wait and each wake is one step, and the steps of readers, the transport, the
  owner of the settings and the kernel's signals interleave freely. A task notification is a count that
  giving increments and taking clears.
\<close>

section \<open>The code\<close>

text \<open>Where a reader is: at the head of the loop; registered and about to wait or waiting, with a time-out
  or without; on its way to the second section that takes it off the list, with what it returns then,
  or nothing to go round again; returned.\<close>

datatype rphase =
    R_Head
  | R_Parked bool
  | R_Leave "(errno + u8 list) option"
  | R_Done "errno + u8 list"

record reader =
  rme :: int
  rnonblock :: bool
  rlen :: nat
  rgot :: "u8 list"
  rphase :: rphase

definition got_or :: "reader \<Rightarrow> errno \<Rightarrow> errno + u8 list" where
  "got_or r e = (if rgot r \<noteq> [] then Inr (rgot r) else Inl e)"

definition read_start :: "int \<Rightarrow> bool \<Rightarrow> nat \<Rightarrow> tty \<Rightarrow> reader" where
  "read_start pgid nb len t =
     \<lparr>rme = (if tpipe t then 0 else pgid), rnonblock = nb, rlen = len, rgot = [],
      rphase = (if len = 0 then R_Done (Inr []) else R_Head)\<rparr>"

definition in_background :: "tty \<Rightarrow> reader \<Rightarrow> bool" where
  "in_background t r \<longleftrightarrow> 0 < rme r \<and> 0 < fg t \<and> rme r \<noteq> fg t \<and> \<not> hung t"

text \<open>The job-control check, then the section under the lock. \<open>bg\<close> is what the background hook
  answers, \<open>None\<close> being 0.\<close>

definition read_head :: "errno option \<Rightarrow> nat \<Rightarrow> tty \<Rightarrow> reader \<Rightarrow> tty \<times> reader \<times> tty_event list" where
  "read_head bg self t r =
     (if in_background t r then
        (t, (case bg of Some e \<Rightarrow> r\<lparr>rphase := R_Done (got_or r e)\<rparr> | None \<Rightarrow> r), [])
      else
        (let canon = canonical_mode t; vmin = VMIN (tio t); vtime = VTIME (tio t);
             (bs, t1, done, room) = read_turn self t (length (rgot r)) (rlen r);
             r1 = r\<lparr>rgot := rgot r @ bs\<rparr>;
             timed = (\<not> canon \<and> 0 < vtime \<and> (vmin = 0 \<or> rgot r1 \<noteq> []))
         in (t1,
             r1\<lparr>rphase := (if done then R_Done (Inr (rgot r1))
                            else if rnonblock r then R_Leave (Some (got_or r1 EAGAIN))
                            else R_Parked timed)\<rparr>,
             room_event t1 room)))"

definition read_leave :: "nat \<Rightarrow> tty \<Rightarrow> reader \<Rightarrow> (errno + u8 list) option \<Rightarrow> tty \<times> reader" where
  "read_leave self t r res =
     (waiter_set_locked t self False,
      r\<lparr>rphase := (case res of Some x \<Rightarrow> R_Done x | None \<Rightarrow> R_Head)\<rparr>)"

text \<open>The section under the lock of \<^verbatim>\<open>espix_tty_hangup\<close>.\<close>

definition hangup_locked :: "tty \<Rightarrow> tty \<times> tty_event list" where
  "hangup_locked t = (let t1 = t\<lparr>hung := True\<rparr> in (t1, wake_locked t1))"

record wsys =
  wtty :: tty
  readers :: "nat \<Rightarrow> reader option"
  notif :: "nat \<Rightarrow> nat"

definition give :: "tty_event list \<Rightarrow> (nat \<Rightarrow> nat) \<Rightarrow> nat \<Rightarrow> nat" where
  "give ev n = (\<lambda>task. n task + count_list ev (Wake task))"

definition with_tty :: "wsys \<Rightarrow> tty \<Rightarrow> tty_event list \<Rightarrow> wsys" where
  "with_tty w t ev = w\<lparr>wtty := t, notif := give ev (notif w)\<rparr>"

definition set_reader :: "wsys \<Rightarrow> nat \<Rightarrow> reader \<Rightarrow> wsys" where
  "set_reader w i r = w\<lparr>readers := (readers w)(i := Some r)\<rparr>"

inductive wait_step :: "wsys \<Rightarrow> wsys \<Rightarrow> bool" where
  input: "input_turn takes hook (wtty w) buf = (n, t, ev, st) \<Longrightarrow> wait_step w (with_tty w t ev)"
| input_eof: "espix_tty_input_eof (wtty w) = (t, ev) \<Longrightarrow> wait_step w (with_tty w t ev)"
| hangup: "hangup_locked (wtty w) = (t, ev) \<Longrightarrow> wait_step w (with_tty w t ev)"
| setattr: "espix_tty_setattr (wtty w) wh io = (t, ev) \<Longrightarrow> wait_step w (with_tty w t ev)"
| flush: "wait_step w (with_tty w (flush_input_locked (wtty w)) [])"
| set_fg: "wait_step w (with_tty w (espix_tty_set_fg (wtty w) pg) [])"
| winsize: "espix_tty_set_winsize hook (wtty w) c r = (t, ev) \<Longrightarrow> wait_step w (with_tty w t ev)"
| signalled: "wait_step w (w\<lparr>notif := (notif w)(i := Suc (notif w i))\<rparr>)"
| start: "(case readers w i of None \<Rightarrow> True | Some r \<Rightarrow> \<exists>x. rphase r = R_Done x) \<Longrightarrow>
     wait_step w (set_reader w i (read_start pg nb len (wtty w)))"
| head: "readers w i = Some r \<Longrightarrow> rphase r = R_Head \<Longrightarrow> read_head bg i (wtty w) r = (t, r', ev) \<Longrightarrow>
     wait_step w (set_reader (with_tty w t ev) i r')"
| interrupted: "readers w i = Some r \<Longrightarrow> rphase r = R_Parked b \<Longrightarrow>
     wait_step w (set_reader w i (r\<lparr>rphase := R_Leave (Some (got_or r e))\<rparr>))"
| notified: "readers w i = Some r \<Longrightarrow> rphase r = R_Parked b \<Longrightarrow> 0 < notif w i \<Longrightarrow>
     wait_step w (set_reader (w\<lparr>notif := (notif w)(i := 0)\<rparr>) i (r\<lparr>rphase := R_Leave None\<rparr>))"
| timeout: "readers w i = Some r \<Longrightarrow> rphase r = R_Parked True \<Longrightarrow>
     wait_step w (set_reader w i (r\<lparr>rphase := R_Leave (Some (Inr (rgot r)))\<rparr>))"
| leave: "readers w i = Some r \<Longrightarrow> rphase r = R_Leave res \<Longrightarrow> read_leave i (wtty w) r res = (t, r') \<Longrightarrow>
     wait_step w (set_reader (with_tty w t []) i r')"

inductive wait_reach :: "tty \<Rightarrow> wsys \<Rightarrow> bool" for t0 where
  init: "wait_reach t0 \<lparr>wtty = t0, readers = (\<lambda>_. None), notif = n\<rparr>"
| step: "wait_reach t0 w \<Longrightarrow> wait_step w w' \<Longrightarrow> wait_reach t0 w'"

section \<open>A sleeping reader has nothing to wake for\<close>

definition registered :: "tty \<Rightarrow> nat \<Rightarrow> bool" where
  "registered t i \<longleftrightarrow> Some i \<in> set (waiters t)"

definition parked :: "wsys \<Rightarrow> nat \<Rightarrow> bool" where
  "parked w i \<longleftrightarrow> (case readers w i of None \<Rightarrow> False | Some r \<Rightarrow> (\<exists>b. rphase r = R_Parked b))"

definition wait_inv :: "wsys \<Rightarrow> bool" where
  "wait_inv w \<longleftrightarrow> tty_ok (wtty w) \<and>
     (\<forall>i. parked w i \<longrightarrow> registered (wtty w) i \<longrightarrow> notif w i = 0 \<longrightarrow> \<not> ready_locked (wtty w)) \<and>
     (\<forall>i r. readers w i = Some r \<longrightarrow> rlen r = 0 \<longrightarrow> (\<exists>x. rphase r = R_Done x))"

lemma give_wakes: "registered t i \<Longrightarrow> 0 < give (wake_locked t) n i"
proof -
  assume "registered t i"
  then have "Wake i \<in> set (wake_locked t)"
    by (force simp: registered_def wake_locked_def List.map_filter_def)
  then have "count_list (wake_locked t) (Wake i) \<noteq> 0" by (simp add: count_list_0_iff)
  then show ?thesis by (simp add: give_def)
qed

lemma give_more: "n i \<le> give ev n i"
  by (simp add: give_def)

lemma give_Nil [simp]: "give [] n = n"
  by (simp add: give_def fun_eq_iff)

text \<open>What keeps the invariant: a step of the terminal that adds no waiter, and after which either it is not
  ready, or it already was, or its waiters have been woken.\<close>

lemma wait_inv_tty:
  assumes inv: "wait_inv w" and ok: "tty_ok t"
    and same: "\<And>i. parked w i \<Longrightarrow> registered t i \<Longrightarrow> registered (wtty w) i"
    and wake: "ready_locked t \<Longrightarrow> \<not> ready_locked (wtty w) \<Longrightarrow> \<exists>a b. ev = a @ wake_locked t @ b"
  shows "wait_inv (with_tty w t ev)"
proof -
  have "\<not> ready_locked t" if p: "parked w i" "registered t i" "give ev (notif w) i = 0" for i
  proof
    assume rdy: "ready_locked t"
    have z: "notif w i = 0" using give_more[of "notif w" i ev] p(3) by simp
    then have "\<not> ready_locked (wtty w)" using inv p same by (auto simp: wait_inv_def)
    then obtain a b where "ev = a @ wake_locked t @ b" using wake rdy by blast
    then have "give (wake_locked t) (notif w) i \<le> give ev (notif w) i" by (simp add: give_def)
    then show False using give_wakes[OF p(2), of "notif w"] p(3) by simp
  qed
  then show ?thesis using ok inv by (auto simp: wait_inv_def with_tty_def parked_def)
qed

lemma wait_inv_reader:
  assumes "wait_inv w" "\<And>b. rphase r = R_Parked b \<Longrightarrow> registered (wtty w) i \<Longrightarrow> notif w i = 0 \<Longrightarrow> \<not> ready_locked (wtty w)"
    and "rlen r = 0 \<Longrightarrow> \<exists>x. rphase r = R_Done x"
  shows "wait_inv (set_reader w i r)"
  using assms by (auto simp: wait_inv_def set_reader_def parked_def)

lemma ready_frame [simp]:
  "ready_locked (t\<lparr>waiters := v\<rparr>) = ready_locked t" "ready_locked (t\<lparr>tfull := b\<rparr>) = ready_locked t"
  "ready_locked (t\<lparr>fg := g\<rparr>) = ready_locked t" "ready_locked (t\<lparr>intrs := k\<rparr>) = ready_locked t"
  "ready_locked (t\<lparr>ws := z\<rparr>) = ready_locked t"
  by (simp_all add: ready_locked_def canonical_mode_def used_locked_def)

lemma waiter_set_ready [simp]: "ready_locked (waiter_set_locked t i on) = ready_locked t"
  by (simp add: waiter_set_locked_def split: option.split)

lemma waiter_unset_registered: "registered (waiter_set_locked t i False) j \<Longrightarrow> registered t j"
  by (auto simp: registered_def waiter_set_locked_def split: option.splits dest!: set_update_subset_insert[THEN subsetD])

lemma waiter_set_registered: "registered (waiter_set_locked t i True) j \<Longrightarrow> j = i \<or> registered t j"
  by (auto simp: registered_def waiter_set_locked_def split: option.splits dest!: set_update_subset_insert[THEN subsetD])

lemma ring_put_waiters: "ring_put_locked t src = Some t' \<Longrightarrow> waiters t' = waiters t"
  by (auto dest: ring_put_fields)

lemma commit_waiters: "commit_line_locked t = Some t' \<Longrightarrow> waiters t' = waiters t"
  by (auto elim!: commit_Some dest: ring_put_waiters)

lemma erase_waiters: "waiters (fst (erase_one_locked t e)) = waiters t" "waiters (fst (erase_while P t e)) = waiters t"
  using erase_one_same[of t e] erase_while_same[of P t e] by auto

lemma canon_char_waiters: "waiters (fst (canon_char t c e)) = waiters t"
  by (auto simp: canon_char_def Let_def case_prod_beta erase_waiters split: option.split dest: commit_waiters)

lemma input_one_waiters: "input_one_locked t c e = Some (t', e', s) \<Longrightarrow> waiters t' = waiters t"
  using canon_char_waiters[of "t\<lparr>intrs := 0\<rparr>"]
  by (auto simp: input_one_locked_def Let_def case_prod_beta flush_input_locked_def
      split: if_splits option.splits prod.splits dest!: ring_put_waiters)

lemma input_chunk_waiters: "waiters (fst (snd (input_chunk t cs e))) = waiters t"
proof (induction cs arbitrary: t e)
  case (Cons c cs)
  show ?case
  proof (cases "input_one_locked t c e")
    case (Some r)
    obtain t1 e1 s1 where r: "r = (t1, e1, s1)" by (cases r)
    with Cons Some input_one_waiters show ?thesis by (cases s1) (auto simp: case_prod_beta)
  qed simp
qed simp

lemma input_turn_inv:
  assumes "wait_inv w" "input_turn takes hook (wtty w) buf = (n, t, ev, st)"
  shows "wait_inv (with_tty w t ev)"
proof (rule wait_inv_tty[OF assms(1)])
  show "tty_ok t" using assms input_turn_ok by (auto simp: wait_inv_def)
  have "waiters t = waiters (wtty w)"
    using assms(2) input_chunk_waiters[of "wtty w" "take ECHO_CHUNK buf" "[]"] by (auto simp: input_turn_def split: prod.splits)
  then show "registered t i \<Longrightarrow> registered (wtty w) i" for i by (simp add: registered_def)
  assume "ready_locked t" "\<not> ready_locked (wtty w)"
  with assms(2) have "\<exists>b. ev = wake_locked t @ b" by (auto simp: input_turn_def split: prod.splits)
  then show "\<exists>a b. ev = a @ wake_locked t @ b" by (metis append_Nil)
qed

text \<open>A turn that is not done leaves nothing to read, and no end to see.\<close>

lemma take_ready: "tty_ok t \<Longrightarrow> ready_locked (snd (take_locked t n)) \<Longrightarrow> ready_locked t"
  using take_used[of t n] suffix_length_le[OF drop_ends_suffix, of "canonical_mode t" _ "ends t"]
  by (auto simp: ready_locked_def take_locked_eq split: if_splits dest: set_mono_suffix[OF drop_ends_suffix, THEN subsetD])

lemma turn_not_done:
  assumes ok: "tty_ok t" and len: "0 < len" and r: "read_turn self t got len = (bs, t', False, room)"
  shows "\<not> ready_locked t'"
proof -
  obtain t1 where tk: "take_locked t (len - got) = (bs, t1)"
    using r by (auto simp: read_turn_def Let_def split: prod.splits)
  note eq = take_locked_eq[OF ok, of "len - got"]
  have t1: "canonical_mode t1 = canonical_mode t" "hung t1 = hung t" "eof_in t1 = eof_in t" using tk eq by auto
  have rdy: "ready_locked t' = ready_locked t1"
    using r tk by (auto simp: read_turn_def Let_def split: if_splits)
  have lbs: "length bs = taken t (len - got)"
    using tk eq taken_le[OF ok, of "len - got"] by auto
  show ?thesis
  proof (cases "canonical_mode t")
    case True
    have nd: "got + length bs = 0" "\<not> hung t" "\<not> eof_in t" "case ends t of [] \<Rightarrow> True | e # _ \<Rightarrow> e \<noteq> rd t"
      using r tk True t1 by (auto simp: read_turn_def Let_def split: list.splits if_splits)
    have "ends t = []"
    proof (cases "ends t")
      case (Cons e es)
      have "min len (unat (e - rd t)) = 0"
        using lbs nd(1) True Cons by (auto simp: taken_def avail_locked_def)
      then have "e = rd t" using len by (simp add: min_def unat_eq_0 split: if_splits)
      with nd(4) Cons show ?thesis by simp
    qed simp
    with nd t1 rdy tk eq True show ?thesis by (auto simp: ready_locked_def)
  next
    case False
    have want: "got + length bs < len" "\<not> ((hung t \<or> eof_in t) \<and> used_locked t1 = 0)"
      using r tk False t1 len by (auto simp: read_turn_def Let_def used_locked_def split: if_splits)
    have "taken t (len - got) = used_locked t"
      using want(1) lbs False by (simp add: taken_def avail_locked_def min_def split: if_splits)
    then have "used_locked t1 = 0" using take_used[OF ok, of "len - got"] tk by simp
    with want(2) t1 rdy False show ?thesis by (auto simp: ready_locked_def)
  qed
qed


lemma turn_ready: "tty_ok t \<Longrightarrow> read_turn self t got len = (bs, t', d, room) \<Longrightarrow> ready_locked t' \<Longrightarrow> ready_locked t"
  using take_ready[of t "len - got"] by (auto simp: read_turn_def Let_def split: prod.splits if_splits)

lemma turn_registered:
  assumes "tty_ok t" "read_turn self t got len = (bs, t', d, room)" "registered t' i"
  shows "registered t i \<or> (i = self \<and> \<not> d)"
proof -
  have "registered (snd (take_locked t (len - got))) i = registered t i"
    by (simp add: registered_def take_locked_eq[OF assms(1)])
  with assms(2,3) show ?thesis
    by (auto simp: read_turn_def Let_def registered_def split: prod.splits if_splits
        dest!: waiter_set_registered[unfolded registered_def])
qed

lemma read_head_bg:
  "in_background t r \<Longrightarrow> read_head bg self t r = (t, (case bg of Some e \<Rightarrow> r\<lparr>rphase := R_Done (got_or r e)\<rparr> | None \<Rightarrow> r), [])"
  by (simp add: read_head_def)

lemma read_head_turn:
  assumes "\<not> in_background t r" "read_turn self t (length (rgot r)) (rlen r) = (bs, t1, d, room)"
  obtains ph where "read_head bg self t r = (t1, r\<lparr>rgot := rgot r @ bs, rphase := ph\<rparr>, room_event t1 room)"
    "(\<exists>b. ph = R_Parked b) \<longrightarrow> \<not> d"
proof -
  let ?r = "r\<lparr>rgot := rgot r @ bs\<rparr>"
  let ?ph = "if d then R_Done (Inr (rgot ?r))
    else if rnonblock r then R_Leave (Some (got_or ?r EAGAIN))
    else R_Parked (\<not> canonical_mode t \<and> 0 < VTIME (tio t) \<and> (VMIN (tio t) = 0 \<or> rgot ?r \<noteq> []))"
  have "read_head bg self t r = (t1, r\<lparr>rgot := rgot r @ bs, rphase := ?ph\<rparr>, room_event t1 room)"
    using assms by (simp add: read_head_def Let_def)
  then show thesis by (rule that) (simp split: if_splits)
qed

lemma head_inv:
  assumes inv: "wait_inv w" and r: "readers w i = Some r" "rphase r = R_Head" "read_head bg i (wtty w) r = (t, r', ev)"
  shows "wait_inv (set_reader (with_tty w t ev) i r')"
proof -
  have ok: "tty_ok (wtty w)" using inv by (simp add: wait_inv_def)
  have len: "0 < rlen r" using inv r(1,2) by (force simp: wait_inv_def)
  show ?thesis
  proof (cases "in_background (wtty w) r")
    case True
    have bg: "t = wtty w" "ev = []" "rphase r' = R_Head \<or> (\<exists>x. rphase r' = R_Done x)" "rlen r' = rlen r"
      using r(2,3) unfolding read_head_bg[OF True] by (auto split: option.splits)
    have "wait_inv (with_tty w t ev)" using inv bg(1,2) by (simp add: with_tty_def)
    with bg(3,4) len show ?thesis by (intro wait_inv_reader) auto
  next
    case False
    obtain bs t1 d room where rt: "read_turn i (wtty w) (length (rgot r)) (rlen r) = (bs, t1, d, room)"
      by (metis prod_cases4)
    from False rt obtain ph where ph: "read_head bg i (wtty w) r = (t1, r\<lparr>rgot := rgot r @ bs, rphase := ph\<rparr>, room_event t1 room)"
      "(\<exists>b. ph = R_Parked b) \<longrightarrow> \<not> d" by (rule read_head_turn[of _ _ _ _ _ _ _ bg])
    have turn: "read_turn i (wtty w) (length (rgot r)) (rlen r) = (bs, t, d, room)" "rlen r' = rlen r" "rphase r' = ph"
      using rt ph(1) r(3) by auto
    have "wait_inv (with_tty w t ev)"
    proof (rule wait_inv_tty[OF inv])
      show "tty_ok t" by (rule read_turn_ok[OF ok turn(1)])
      show "registered (wtty w) j" if "parked w j" "registered t j" for j
        using turn_registered[OF ok turn(1) that(2)] that(1) r(1,2) by (auto simp: parked_def)
      show "\<exists>a b. ev = a @ wake_locked t @ b" if "ready_locked t" "\<not> ready_locked (wtty w)"
        using turn_ready[OF ok turn(1)] that by simp
    qed
    moreover have "\<not> ready_locked t" if "rphase r' = R_Parked b" for b
      using turn_not_done[OF ok len] turn(1,3) ph(2) that by auto
    ultimately show ?thesis using turn(2) len by (intro wait_inv_reader) (auto simp: with_tty_def)
  qed
qed


lemma wait_inv_step:
  assumes "wait_step w w'" "wait_inv w"
  shows "wait_inv w'"
  using assms
proof (induction rule: wait_step.induct)
  case (input takes hook w buf n t ev st)
  then show ?case by (intro input_turn_inv)
next
  case (input_eof w t ev)
  then show ?case
    by (intro wait_inv_tty) (auto simp: espix_tty_input_eof_def Let_def wait_inv_def registered_def intro: exI[of _ "[]"])
next
  case (hangup w t ev)
  then show ?case
    by (intro wait_inv_tty) (auto simp: hangup_locked_def Let_def wait_inv_def registered_def intro: exI[of _ "[]"])
next
  case (setattr w wh io t ev)
  have "tty_ok t" using setattr setattr_ok[of "wtty w" wh io] by (auto simp: wait_inv_def)
  moreover have "waiters t = waiters (wtty w)"
    using setattr(1) by (auto simp: espix_tty_setattr_def Let_def flush_input_locked_def split: option.splits if_splits dest: commit_waiters)
  moreover have "ready_locked t \<Longrightarrow> ev = wake_locked t"
    using setattr(1) by (auto simp: espix_tty_setattr_def Let_def)
  ultimately show ?case using setattr(2)
    by (intro wait_inv_tty) (auto simp: registered_def intro: exI[of _ "[]"])
next
  case (flush w)
  have ok: "tty_ok (flush_input_locked (wtty w))" using flush by (simp add: flush_ok wait_inv_def)
  have "ready_locked (flush_input_locked (wtty w)) \<Longrightarrow> ready_locked (wtty w)"
    by (auto simp: flush_input_locked_def ready_locked_def used_locked_def canonical_mode_def split: if_splits)
  moreover have "registered (flush_input_locked (wtty w)) i = registered (wtty w) i" for i
    by (simp add: flush_input_locked_def registered_def)
  ultimately show ?case using flush ok by (intro wait_inv_tty) auto
next
  case (set_fg w pg)
  then show ?case by (intro wait_inv_tty) (auto simp: espix_tty_set_fg_def wait_inv_def registered_def)
next
  case (winsize hook w c r t ev)
  then show ?case by (intro wait_inv_tty) (auto simp: espix_tty_set_winsize_def Let_def wait_inv_def registered_def)
next
  case (signalled w i)
  then show ?case by (auto simp: wait_inv_def parked_def)
next
  case (start w i pg nb len)
  then show ?case by (intro wait_inv_reader) (auto simp: read_start_def split: if_splits)
next
  case (head w i r bg t r' ev)
  then show ?case by (intro head_inv)
next
  case (interrupted w i r b e)
  then show ?case by (intro wait_inv_reader) (force simp: wait_inv_def)+
next
  case (notified w i r b)
  then show ?case by (force simp: wait_inv_def parked_def set_reader_def)
next
  case (timeout w i r)
  then show ?case by (intro wait_inv_reader) (force simp: wait_inv_def)+
next
  case (leave w i r res t r')
  have "wait_inv (with_tty w t [])"
    using leave by (intro wait_inv_tty) (auto simp: read_leave_def wait_inv_def waiter_set_ok dest: waiter_unset_registered)
  then show ?case using leave by (intro wait_inv_reader) (force simp: read_leave_def wait_inv_def split: option.splits)+
qed

lemma wait_reach_inv: "wait_reach t0 w \<Longrightarrow> tty_ok t0 \<Longrightarrow> wait_inv w"
proof (induction rule: wait_reach.induct)
  case (init n)
  then show ?case by (simp add: wait_inv_def parked_def)
next
  case (step w w')
  then show ?case using wait_inv_step by blast
qed

section \<open>Properties\<close>

text \<open>
  C2. No wake-up is lost: however input, hang-ups, changes of settings, signals and readers
  interleave, a reader that is registered and waits while a read would return has a notification
  pending, so it can leave its wait and look again.
\<close>

theorem no_lost_wakeup:
  assumes "tty_ok t0" "wait_reach t0 w" "parked w i" "registered (wtty w) i" "ready_locked (wtty w)"
  shows "0 < notif w i \<and> (\<exists>w' r. wait_step w w' \<and> readers w' i = Some r \<and> rphase r = R_Leave None)"
proof -
  have n: "0 < notif w i" using wait_reach_inv[OF assms(2,1)] assms(3-) by (auto simp: wait_inv_def)
  obtain r b where "readers w i = Some r" "rphase r = R_Parked b"
    using assms(3) by (auto simp: parked_def split: option.splits)
  from wait_step.notified[OF this n] show ?thesis using n by (auto simp: set_reader_def)
qed

text \<open>A terminal with nothing to read, and a reader that parks on it.\<close>

definition idle_tty :: "tty \<Rightarrow> bool" where
  "idle_tty t \<longleftrightarrow> canonical_mode t \<and> ends t = [] \<and> \<not> hung t \<and> \<not> eof_in t \<and> fg t = 0 \<and> \<not> tfull t"

definition parked_reader :: reader where
  "parked_reader = \<lparr>rme = 0, rnonblock = False, rlen = 1, rgot = [], rphase = R_Parked False\<rparr>"

definition park :: "wsys \<Rightarrow> nat \<Rightarrow> wsys" where
  "park w i = w\<lparr>wtty := waiter_set_locked (wtty w) i True, readers := (readers w)(i := Some parked_reader)\<rparr>"

lemma idle_park: "idle_tty (wtty w) \<Longrightarrow> idle_tty (wtty (park w i))"
  by (auto simp: idle_tty_def park_def waiter_set_locked_def split: option.split)

lemma idle_turn:
  assumes "idle_tty t"
  shows "read_turn i t 0 1 = ([], waiter_set_locked t i True, False, False)"
proof -
  have "t\<lparr>ends := []\<rparr> = t" using assms by (auto simp: idle_tty_def intro: tty.equality)
  then have "take_locked t 1 = ([], t)"
    using assms by (simp add: take_locked_def idle_tty_def avail_locked_def Let_def)
  then show ?thesis using assms by (simp add: read_turn_def Let_def idle_tty_def)
qed

lemma park_reach:
  assumes "wait_reach t0 w" "idle_tty (wtty w)" "readers w i = None"
  shows "wait_reach t0 (park w i)"
proof -
  let ?r = "read_start 0 False 1 (wtty w)"
  let ?w = "set_reader w i ?r"
  have r: "?r = \<lparr>rme = 0, rnonblock = False, rlen = 1, rgot = [], rphase = R_Head\<rparr>" by (simp add: read_start_def)
  have 1: "wait_reach t0 ?w" using assms(1,3) by (intro wait_reach.step[OF assms(1)] wait_step.start) simp
  have h: "read_head None i (wtty ?w) ?r = (waiter_set_locked (wtty w) i True, parked_reader, [])"
    using idle_turn[OF assms(2), of i] assms(2) unfolding r
    by (simp add: read_head_def in_background_def set_reader_def parked_reader_def room_event_def idle_tty_def Let_def)
  have "wait_step ?w (set_reader (with_tty ?w (waiter_set_locked (wtty w) i True) []) i parked_reader)"
    by (rule wait_step.head[OF _ _ h]) (simp_all add: set_reader_def read_start_def)
  moreover have "set_reader (with_tty ?w (waiter_set_locked (wtty w) i True) []) i parked_reader = park w i"
    by (simp add: set_reader_def with_tty_def park_def)
  ultimately show ?thesis using 1 wait_reach.step by simp
qed

definition idle_sys :: wsys where
  "idle_sys = \<lparr>wtty = tty_new False False False 256 False, readers = (\<lambda>_. None), notif = (\<lambda>_. 0)\<rparr>"

lemma idle_sys_reach: "wait_reach (wtty idle_sys) idle_sys" "idle_tty (wtty idle_sys)" "tty_ok (wtty idle_sys)"
  using tty_new_ok[of 256 False False False False]
  by (simp_all add: idle_sys_def wait_reach.init idle_tty_def canonical_mode_def tty_new_def defaults_def espix_tty_sane_def Let_def)

theorem no_lost_wakeup_witness:
  "let t = fst (espix_tty_input_eof (wtty (park idle_sys 7))) in
   0 < notif (with_tty (park idle_sys 7) t (wake_locked t)) 7"
proof -
  let ?w = "park idle_sys 7"
  obtain t ev where e: "espix_tty_input_eof (wtty ?w) = (t, ev)" by (cases "espix_tty_input_eof (wtty ?w)")
  have ev: "ev = wake_locked t" "ready_locked t" using e by (auto simp: espix_tty_input_eof_def Let_def ready_locked_def)
  have "wait_reach (wtty idle_sys) ?w" using idle_sys_reach by (intro park_reach) (simp_all add: idle_sys_def)
  then have r: "wait_reach (wtty idle_sys) (with_tty ?w t ev)" using wait_step.input_eof[OF e] by (rule wait_reach.step)
  have "registered (wtty ?w) 7"
    by (simp add: park_def idle_sys_def tty_new_def Let_def waiter_set_locked_def registered_def numeral_eq_Suc)
  then have reg: "registered t 7" using e by (auto simp: espix_tty_input_eof_def Let_def registered_def)
  have "parked (with_tty ?w t ev) 7" by (auto simp: parked_def with_tty_def park_def parked_reader_def)
  from no_lost_wakeup[OF idle_sys_reach(3) r this] reg ev e show ?thesis by (simp add: with_tty_def)
qed

text \<open>
  C9. The terminal's arrays are never overrun and its positions never cross, in every state any
  interleaving of its readers, the transport and the owner of its settings can reach: the ring holds no
  more than its size, every line end lies within what is buffered and in order, at most 16 of them, and the line
  being edited fits its 255 bytes.
\<close>

theorem tty_invariant:
  assumes "tty_ok t0" "wait_reach t0 w"
  shows "tty_ok (wtty w)"
  using wait_reach_inv[OF assms(2,1)] by (simp add: wait_inv_def)

theorem tty_invariant_witness: "tty_ok (wtty (park idle_sys 7))"
proof -
  have "wait_reach (wtty idle_sys) (park idle_sys 7)"
    using idle_sys_reach by (intro park_reach) (simp_all add: idle_sys_def)
  from tty_invariant[OF idle_sys_reach(3) this] show ?thesis .
qed

definition five_readers :: wsys where
  "five_readers = park (park (park (park (park idle_sys 1) 2) 3) 4) 5"


end
