(* ===== verification/Tty_Table.thy ===== *)
theory Tty_Table
  imports Tty_Wait
begin

text \<open>
  The terminals of the system and their descriptors, \<^verbatim>\<open>components/espix_tty/tty.c\<close>: the table of
  24, references, hang-up, the operations the file-descriptor layer calls (read, write, close,
  fstat, fcntl, ioctl, the termios family) and select. A terminal is named by its slot. What the
  descriptor layer of the platform answers to a registration is an argument.
\<close>

section \<open>The code\<close>

abbreviation TTY_MAX :: nat where "TTY_MAX \<equiv> 24"

record ttys =
  s_vfs_ok :: bool
  s_ttys :: "tty option list"

definition by_fd :: "ttys \<Rightarrow> int \<Rightarrow> tty option" where
  "by_fd s fd = (if fd < 0 \<or> int TTY_MAX \<le> fd then None else s_ttys s ! nat fd)"

definition set_tty :: "ttys \<Rightarrow> nat \<Rightarrow> tty option \<Rightarrow> ttys" where
  "set_tty s i t = s\<lparr>s_ttys := (s_ttys s)[i := t]\<rparr>"

definition espix_tty_get :: "ttys \<Rightarrow> nat \<Rightarrow> ttys" where
  "espix_tty_get s i =
     (case s_ttys s ! i of None \<Rightarrow> s | Some t \<Rightarrow> set_tty s i (Some (t\<lparr>refs := Suc (refs t)\<rparr>)))"

definition espix_tty_put :: "ttys \<Rightarrow> nat \<Rightarrow> ttys" where
  "espix_tty_put s i =
     (case s_ttys s ! i of
        None \<Rightarrow> s
      | Some t \<Rightarrow> set_tty s i (if refs t - 1 \<noteq> 0 then Some (t\<lparr>refs := refs t - 1\<rparr>) else None))"

text \<open>\<open>mem\<close>: the allocations succeed; \<open>reg\<close>: the descriptor the platform registers for a slot.\<close>

definition espix_tty_create ::
    "bool \<Rightarrow> (nat \<Rightarrow> int option) \<Rightarrow> bool \<Rightarrow> bool \<Rightarrow> bool \<Rightarrow> ttys \<Rightarrow> nat \<Rightarrow> bool \<Rightarrow> ttys \<times> nat option" where
  "espix_tty_create mem reg sig_op echo_op room_op s inbuf p =
     (if \<not> s_vfs_ok s \<or> \<not> mem then (s, None)
      else (case find_slot Option.is_none (s_ttys s) of
              None \<Rightarrow> (s, None)
            | Some i \<Rightarrow>
                (case reg i of
                   None \<Rightarrow> (set_tty s i None, None)
                 | Some fd \<Rightarrow>
                     (set_tty s i (Some ((tty_new sig_op echo_op room_op inbuf p)\<lparr>refs := 2, tfd := fd\<rparr>)), Some i))))"

definition vfs_close :: "ttys \<Rightarrow> int \<Rightarrow> (errno + int) \<times> ttys" where
  "vfs_close s fd =
     (case by_fd s fd of
        None \<Rightarrow> (Inl EBADF, s)
      | Some t \<Rightarrow> (Inr 0, espix_tty_put (set_tty s (nat fd) (Some (t\<lparr>tfd := -1\<rparr>))) (nat fd)))"

text \<open>Closing the descriptor reaches \<^verbatim>\<open>vfs_close\<close> with the terminal's slot.\<close>

definition espix_tty_hangup :: "ttys \<Rightarrow> nat \<Rightarrow> ttys \<times> tty_event list" where
  "espix_tty_hangup s i =
     (case s_ttys s ! i of
        None \<Rightarrow> (s, [])
      | Some t \<Rightarrow>
          (let (t1, ev) = hangup_locked t; s1 = set_tty s i (Some t1);
               s2 = (if 0 \<le> tfd t1 then snd (vfs_close s1 (int i)) else s1)
           in (espix_tty_put s2 i, ev)))"

definition vfs_read :: "nat \<Rightarrow> ttys \<Rightarrow> int \<Rightarrow> nat \<Rightarrow> (errno + u8 list) \<times> ttys \<times> tty_event list" where
  "vfs_read self s fd len =
     (case by_fd s fd of
        None \<Rightarrow> (Inl EBADF, s, [])
      | Some t \<Rightarrow> (case espix_tty_read_nonblock self t len of (r, t1, ev) \<Rightarrow> (r, set_tty s (nat fd) (Some t1), ev)))"

definition vfs_write :: "ttys \<Rightarrow> bool \<Rightarrow> int \<Rightarrow> u8 list \<Rightarrow> (u8 list \<Rightarrow> errno + nat) \<Rightarrow> errno + nat" where
  "vfs_write s mem fd buf fn =
     (case by_fd s fd of None \<Rightarrow> Inl EBADF | Some t \<Rightarrow> tty_output t mem buf fn)"

text \<open>\<^verbatim>\<open>S_IFIFO | 0600\<close> and \<^verbatim>\<open>S_IFCHR | 0620\<close>.\<close>

definition vfs_fstat :: "ttys \<Rightarrow> int \<Rightarrow> errno + u32" where
  "vfs_fstat s fd =
     (case by_fd s fd of None \<Rightarrow> Inl EBADF | Some t \<Rightarrow> Inr (if tpipe t then 0x1180 else 0x2190))"

datatype fcntl_cmd = F_GETFL | F_SETFL bool | F_OTHER

text \<open>The answer to \<^verbatim>\<open>F_GETFL\<close> is whether \<^verbatim>\<open>O_NONBLOCK\<close> is in it.\<close>

definition vfs_fcntl :: "ttys \<Rightarrow> int \<Rightarrow> fcntl_cmd \<Rightarrow> (errno + bool) \<times> ttys" where
  "vfs_fcntl s fd cmd =
     (case by_fd s fd of
        None \<Rightarrow> (Inl EBADF, s)
      | Some t \<Rightarrow>
          (case cmd of
             F_GETFL \<Rightarrow> (Inr (nonblock t), s)
           | F_SETFL b \<Rightarrow> (Inr False, set_tty s (nat fd) (Some (t\<lparr>nonblock := b\<rparr>)))
           | F_OTHER \<Rightarrow> (Inl EINVAL, s)))"

datatype tty_ioctl =
  FIONREAD | FIONBIO int | TIOCGWINSZ | TIOCSWINSZ u16 u16 | TIOCGPGRP | TIOCSPGRP int | TIOC_OTHER

datatype ioctl_res = Res_Ok | Res_Int int | Res_Size "u16 \<times> u16"

definition vfs_ioctl :: "bool \<Rightarrow> ttys \<Rightarrow> int \<Rightarrow> tty_ioctl \<Rightarrow> (errno + ioctl_res) \<times> ttys \<times> tty_event list" where
  "vfs_ioctl hook s fd cmd =
     (case by_fd s fd of
        None \<Rightarrow> (Inl EBADF, s, [])
      | Some t \<Rightarrow>
          (let upd = (\<lambda>t'. set_tty s (nat fd) (Some t')) in
           case cmd of
             FIONREAD \<Rightarrow> (Inr (Res_Int (int (espix_tty_readable t))), s, [])
           | FIONBIO v \<Rightarrow> (Inr Res_Ok, upd (t\<lparr>nonblock := (v \<noteq> 0)\<rparr>), [])
           | _ \<Rightarrow>
               if tpipe t then (Inl ENOTTY, s, [])
               else (case cmd of
                       TIOCGWINSZ \<Rightarrow> (Inr (Res_Size (ws t)), s, [])
                     | TIOCSWINSZ c r \<Rightarrow>
                         (case espix_tty_set_winsize hook t (uint c) (uint r) of (t1, ev) \<Rightarrow> (Inr Res_Ok, upd t1, ev))
                     | TIOCGPGRP \<Rightarrow> (Inr (Res_Int (fg t)), s, [])
                     | TIOCSPGRP p \<Rightarrow> (Inr Res_Ok, upd (espix_tty_set_fg t p), [])
                     | _ \<Rightarrow> (Inl ENOTTY, s, []))))"

definition vfs_tcgetattr :: "ttys \<Rightarrow> int \<Rightarrow> errno + termios" where
  "vfs_tcgetattr s fd =
     (case by_fd s fd of None \<Rightarrow> Inl EBADF | Some t \<Rightarrow> if tpipe t then Inl ENOTTY else Inr (tio t))"

definition vfs_tcsetattr :: "ttys \<Rightarrow> int \<Rightarrow> tcset \<Rightarrow> termios \<Rightarrow> (errno + int) \<times> ttys \<times> tty_event list" where
  "vfs_tcsetattr s fd w io =
     (case by_fd s fd of
        None \<Rightarrow> (Inl EBADF, s, [])
      | Some t \<Rightarrow>
          if tpipe t then (Inl ENOTTY, s, [])
          else (case espix_tty_setattr t w io of (t1, ev) \<Rightarrow> (Inr 0, set_tty s (nat fd) (Some t1), ev)))"

datatype tcsel = TCIFLUSH | TCOFLUSH | TCIOFLUSH

definition vfs_tcflush :: "ttys \<Rightarrow> int \<Rightarrow> tcsel \<Rightarrow> (errno + int) \<times> ttys" where
  "vfs_tcflush s fd sel =
     (case by_fd s fd of
        None \<Rightarrow> (Inl EBADF, s)
      | Some t \<Rightarrow>
          (Inr 0, if sel = TCIFLUSH \<or> sel = TCIOFLUSH then set_tty s (nat fd) (Some (flush_input_locked t)) else s))"

definition vfs_tcgetsid :: "ttys \<Rightarrow> int \<Rightarrow> errno + int" where
  "vfs_tcgetsid s fd =
     (case by_fd s fd of None \<Rightarrow> Inl EBADF | Some t \<Rightarrow> if tpipe t then Inl ENOTTY else Inr (fg t))"

text \<open>One descriptor of \<^verbatim>\<open>vfs_start_select\<close>: the registration it makes, the read set it leaves and
  whether it triggers. \<open>call\<close> tells this select's registrations from any other's.\<close>

definition select_one :: "nat \<Rightarrow> nat \<Rightarrow> tty \<Rightarrow> nat \<Rightarrow> (nat \<Rightarrow> bool) \<Rightarrow> (nat \<Rightarrow> bool) \<Rightarrow> tty \<times> (nat \<Rightarrow> bool) \<times> select_arg \<times> bool" where
  "select_one call sem t fd rds wrs =
     (let a = \<lparr>sel_id = (call, fd), sel_sem = sem, sel_fd = fd, sel_rd = rds fd\<rparr>;
          t1 = t\<lparr>refs := Suc (refs t), selects := a # selects t\<rparr>;
          rds1 = (if rds fd \<and> \<not> ready_locked t then rds(fd := False) else rds)
      in (t1, rds1, a, (rds fd \<and> ready_locked t) \<or> wrs fd))"

fun start_loop ::
    "nat \<Rightarrow> nat \<Rightarrow> (nat \<Rightarrow> bool) \<Rightarrow> nat list \<Rightarrow> ttys \<Rightarrow> (nat \<Rightarrow> bool) \<Rightarrow> (nat \<Rightarrow> bool) \<Rightarrow> (nat \<Rightarrow> bool)
       \<Rightarrow> esp_err \<times> ttys \<times> (nat \<Rightarrow> bool) \<times> (nat \<Rightarrow> bool) \<times> select_arg list \<times> bool" where
  "start_loop call sem mem [] s rds wrs ers = (ESP_OK, s, rds, ers, [], False)"
| "start_loop call sem mem (fd # fds) s rds wrs ers =
     (case s_ttys s ! fd of
        None \<Rightarrow> start_loop call sem mem fds s rds wrs ers
      | Some t \<Rightarrow>
          if \<not> (rds fd \<or> wrs fd \<or> ers fd) then start_loop call sem mem fds s rds wrs ers
          else if \<not> mem fd then (ESP_ERR_NO_MEM, s, rds, ers, [], False)
          else
            (let (t1, rds1, a, trig) = select_one call sem t fd rds wrs;
                 (err, s2, rds2, ers2, args, trig2) =
                   start_loop call sem mem fds (set_tty s fd (Some t1)) rds1 wrs (ers(fd := False))
             in (err, s2, rds2, ers2, args @ [a], trig \<or> trig2)))"

definition vfs_start_select ::
    "nat \<Rightarrow> nat \<Rightarrow> (nat \<Rightarrow> bool) \<Rightarrow> nat \<Rightarrow> ttys \<Rightarrow> (nat \<Rightarrow> bool) \<Rightarrow> (nat \<Rightarrow> bool) \<Rightarrow> (nat \<Rightarrow> bool)
       \<Rightarrow> esp_err \<times> ttys \<times> (nat \<Rightarrow> bool) \<times> (nat \<Rightarrow> bool) \<times> select_arg list \<times> tty_event list" where
  "vfs_start_select call sem mem nfds s rds wrs ers =
     (case start_loop call sem mem [0..<min nfds TTY_MAX] s rds wrs ers of
        (err, s1, rds1, ers1, args, trig) \<Rightarrow>
          (err, s1, rds1, ers1, args, if err = ESP_OK \<and> trig then [Trigger sem] else []))"

fun vfs_end_select :: "select_arg list \<Rightarrow> ttys \<Rightarrow> (nat \<Rightarrow> bool) \<Rightarrow> ttys \<times> (nat \<Rightarrow> bool)" where
  "vfs_end_select [] s rds = (s, rds)"
| "vfs_end_select (a # args) s rds =
     (case s_ttys s ! sel_fd a of
        None \<Rightarrow> vfs_end_select args s rds
      | Some t \<Rightarrow>
          (let rds1 = (if sel_rd a \<and> ready_locked t then rds(sel_fd a := True) else rds);
               s1 = set_tty s (sel_fd a) (Some (t\<lparr>selects := remove1 a (selects t)\<rparr>))
           in vfs_end_select args (espix_tty_put s1 (sel_fd a)) rds1))"

section \<open>References and select\<close>

text \<open>Every terminal in the table is held by someone.\<close>

definition ttys_ok :: "ttys \<Rightarrow> bool" where
  "ttys_ok s \<longleftrightarrow> length (s_ttys s) = TTY_MAX \<and> (\<forall>i t. i < TTY_MAX \<longrightarrow> s_ttys s ! i = Some t \<longrightarrow> 0 < refs t)"

lemma set_tty_same [simp]: "s_ttys s ! i = t \<Longrightarrow> set_tty s i t = s"
  by (auto simp: set_tty_def)

lemma set_tty_twice [simp]: "set_tty (set_tty s i t) i u = set_tty s i u"
  by (simp add: set_tty_def)

lemma set_tty_nth [simp]: "s_ttys (set_tty s i t) ! j = (if j = i \<and> i < length (s_ttys s) then t else s_ttys s ! j)"
  by (auto simp: set_tty_def list_update_beyond nth_list_update)

lemma length_set_tty [simp]: "length (s_ttys (set_tty s i t)) = length (s_ttys s)"
  by (simp add: set_tty_def)

lemma set_tty_ok: "ttys_ok s \<Longrightarrow> (\<And>u. t = Some u \<Longrightarrow> 0 < refs u) \<Longrightarrow> ttys_ok (set_tty s i t)"
  by (auto simp: ttys_ok_def)

lemma put_ok: "ttys_ok s \<Longrightarrow> ttys_ok (espix_tty_put s i)"
  by (auto simp: espix_tty_put_def intro!: set_tty_ok split: option.split if_splits)

lemma create_ok: "ttys_ok s \<Longrightarrow> ttys_ok (fst (espix_tty_create mem reg a b c s n p))"
  by (auto simp: espix_tty_create_def intro!: set_tty_ok split: option.split)

lemma ready_select [simp]: "ready_locked (t\<lparr>refs := k, selects := ss\<rparr>) = ready_locked t"
  by (simp add: ready_locked_def canonical_mode_def used_locked_def)

lemma start_loop_cases:
  assumes "start_loop call sem mem (fd # fds) s rds wrs ers = (ESP_OK, s2, rds2, ers2, args, trig)"
  obtains (skip) "start_loop call sem mem fds s rds wrs ers = (ESP_OK, s2, rds2, ers2, args, trig)"
      "s_ttys s ! fd = None \<or> (\<not> rds fd \<and> \<not> wrs fd)"
  | (take) t t1 rds1 a args3 tr tr3 where "s_ttys s ! fd = Some t" "select_one call sem t fd rds wrs = (t1, rds1, a, tr)"
      "start_loop call sem mem fds (set_tty s fd (Some t1)) rds1 wrs (ers(fd := False)) = (ESP_OK, s2, rds2, ers2, args3, tr3)"
      "args = args3 @ [a]" "trig = (tr \<or> tr3)"
  using assms by (auto split: option.splits if_splits prod.splits)

lemma start_loop_rds:
  assumes "start_loop call sem mem fds s rds wrs ers = (ESP_OK, s2, rds2, ers2, args, trig)" "i \<notin> set fds"
  shows "rds2 i = rds i"
  using assms
proof (induction fds arbitrary: s rds ers args trig)
  case (Cons fd fds)
  from Cons.prems(1) show ?case
  proof (cases rule: start_loop_cases)
    case skip
    with Cons show ?thesis by simp
  next
    case (take t t1 rds1 a args3 tr tr3)
    have "rds2 i = rds1 i" using Cons.IH[OF take(3)] Cons.prems(2) by simp
    with take(2) Cons.prems(2) show ?thesis by (auto simp: select_one_def Let_def split: if_splits)
  qed
qed simp


lemma start_end_select:
  assumes "start_loop call sem mem fds s rds wrs ers = (ESP_OK, s2, rds2, ers2, args, trig)" "distinct fds"
    and "ttys_ok s" "\<forall>i \<in> set fds. i < TTY_MAX"
  shows "vfs_end_select (args @ rest) s2 rds2 = vfs_end_select rest s rds2"
  using assms
proof (induction fds arbitrary: s rds ers args trig rest)
  case (Cons fd fds)
  from Cons.prems(1) show ?case
  proof (cases rule: start_loop_cases)
    case skip
    with Cons show ?thesis by simp
  next
    case (take t t1 rds1 a args3 tr tr3)
    let ?s = "set_tty s fd (Some t1)"
    have one: "a = \<lparr>sel_id = (call, fd), sel_sem = sem, sel_fd = fd, sel_rd = rds fd\<rparr>"
      "t1 = t\<lparr>refs := Suc (refs t), selects := a # selects t\<rparr>"
      "rds1 = (if rds fd \<and> \<not> ready_locked t then rds(fd := False) else rds)"
      using take(2) by (auto simp: select_one_def Let_def)
    have fd: "fd < length (s_ttys s)" "0 < refs t" using Cons.prems(3,4) take(1) by (auto simp: ttys_ok_def)
    have ok: "ttys_ok ?s" using Cons.prems(3) one(2) by (intro set_tty_ok) auto
    have "vfs_end_select (args @ rest) s2 rds2 = vfs_end_select (a # rest) ?s rds2"
      using Cons.IH[OF take(3) _ ok, of "a # rest"] Cons.prems(2,4) take(4) by simp
    also have "\<dots> = vfs_end_select rest s rds2"
    proof -
      have "rds2 fd = rds1 fd" using start_loop_rds[OF take(3)] Cons.prems(2) by simp
      then have r: "rds fd \<and> ready_locked t1 \<Longrightarrow> rds2(fd := True) = rds2"
        using one by (auto simp: fun_upd_idem)
      have "t1\<lparr>selects := remove1 a (selects t1)\<rparr> = t\<lparr>refs := Suc (refs t)\<rparr>" using one(2) by simp
      then have "espix_tty_put (set_tty ?s fd (Some (t1\<lparr>selects := remove1 a (selects t1)\<rparr>))) fd = s"
        using fd take(1) by (simp add: espix_tty_put_def)
      with r fd one(1) show ?thesis by (simp add: Let_def)
    qed
    finally show ?thesis .
  qed
qed simp

lemma start_loop_result:
  assumes "start_loop call sem mem fds s rds wrs ers = (ESP_OK, s2, rds2, ers2, args, trig)" "distinct fds"
    and "ttys_ok s" "\<forall>i \<in> set fds. i < TTY_MAX" "i \<in> set fds"
  shows "rds2 i \<longleftrightarrow> rds i \<and> (case s_ttys s ! i of None \<Rightarrow> True | Some t \<Rightarrow> ready_locked t)"
    and "(case s_ttys s ! i of None \<Rightarrow> False | Some t \<Rightarrow> rds i \<and> ready_locked t \<or> wrs i) \<Longrightarrow> trig"
  using assms
proof (induction fds arbitrary: s rds ers args trig)
  case (Cons fd fds)
  {
    case 1
    from 1(1) show ?case
    proof (cases rule: start_loop_cases)
      case skip
      show ?thesis
      proof (cases "i = fd")
        case True
        with start_loop_rds[OF skip(1), of i] 1(2) skip(2) show ?thesis by (auto split: option.split)
      qed (use Cons.IH(1)[OF skip(1)] 1 in auto)
    next
      case (take t t1 rds1 a args3 tr tr3)
      have one: "t1 = t\<lparr>refs := Suc (refs t), selects := a # selects t\<rparr>"
        "rds1 = (if rds fd \<and> \<not> ready_locked t then rds(fd := False) else rds)"
        using take(2) by (auto simp: select_one_def Let_def)
      have ok: "ttys_ok (set_tty s fd (Some t1))" using 1(3) one(1) by (intro set_tty_ok) auto
      show ?thesis
      proof (cases "i = fd")
        case True
        with start_loop_rds[OF take(3), of i] 1(2) take(1) one(2) show ?thesis by auto
      next
        case False
        with Cons.IH(1)[OF take(3) _ ok] 1 one(2) show ?thesis by (auto split: if_splits)
      qed
    qed
  next
    case 2
    from 2(2) show ?case
    proof (cases rule: start_loop_cases)
      case skip
      then show ?thesis using Cons.IH(2)[OF _ skip(1)] 2 by (auto split: option.splits)
    next
      case (take t t1 rds1 a args3 tr tr3)
      have one: "t1 = t\<lparr>refs := Suc (refs t), selects := a # selects t\<rparr>"
        "rds1 = (if rds fd \<and> \<not> ready_locked t then rds(fd := False) else rds)" "tr = ((rds fd \<and> ready_locked t) \<or> wrs fd)"
        using take(2) by (auto simp: select_one_def Let_def)
      have ok: "ttys_ok (set_tty s fd (Some t1))" using 2(4) one(1) by (intro set_tty_ok) auto
      show ?thesis
      proof (cases "i = fd")
        case True
        with 2(1) take(1,5) one(3) show ?thesis by auto
      next
        case False
        with Cons.IH(2)[OF _ take(3) _ ok] 2 one(2) take(5) show ?thesis by (auto split: option.splits if_splits)
      qed
    qed
  }
qed simp_all

section \<open>Properties\<close>



definition one_tty :: ttys where
  "one_tty = fst (espix_tty_create True (\<lambda>i. Some 3) False False False \<lparr>s_vfs_ok = True, s_ttys = replicate TTY_MAX None\<rparr> 256 False)"


end
