(* ===== verification/Shell_Env.thy ===== *)
theory Shell_Env
  imports Espix_Base
begin

text \<open>
  \<^verbatim>\<open>components/espix_shell/env.c\<close>: a session's variables, a table of 24 slots allocated on the first
  assignment, and the scope that lays one-shot assignments over it and takes them off again.
  The abstract view is a finite map from names to a value and an export flag.

  An allocation's outcome is an argument: \<open>mem k\<close> says whether the \<open>k\<close>-th of a call succeeds.
  Names and values are never null here; what the code does on null arguments is to refuse them.
\<close>

section \<open>The code\<close>

abbreviation ESPIX_ENV_MAX :: nat where "ESPIX_ENV_MAX \<equiv> 24"
abbreviation ESPIX_ENV_NAME_MAX :: nat where "ESPIX_ENV_NAME_MAX \<equiv> 32"
abbreviation ESPIX_ENV_VALUE_MAX :: nat where "ESPIX_ENV_VALUE_MAX \<equiv> 192"
abbreviation ESPIX_ENV_SCOPE_MAX :: nat where "ESPIX_ENV_SCOPE_MAX \<equiv> 8"

record evar =
  vname :: string
  vvalue :: string
  vexported :: bool

record env =
  vars :: "evar option list"
  vcount :: nat

definition empty_env :: env where
  "empty_env = \<lparr>vars = replicate ESPIX_ENV_MAX None, vcount = 0\<rparr>"

definition is_var :: "string \<Rightarrow> evar option \<Rightarrow> bool" where
  "is_var name v \<longleftrightarrow> (case v of None \<Rightarrow> False | Some x \<Rightarrow> vname x = name)"

definition env_find :: "env option \<Rightarrow> string \<Rightarrow> nat option" where
  "env_find e name = (case e of None \<Rightarrow> None | Some t \<Rightarrow> find_slot (is_var name) (vars t))"

definition is_upper :: "char \<Rightarrow> bool" where "is_upper c \<longleftrightarrow> 65 \<le> (of_char c :: nat) \<and> (of_char c :: nat) \<le> 90"
definition is_lower :: "char \<Rightarrow> bool" where "is_lower c \<longleftrightarrow> 97 \<le> (of_char c :: nat) \<and> (of_char c :: nat) \<le> 122"
definition is_digit :: "char \<Rightarrow> bool" where "is_digit c \<longleftrightarrow> 48 \<le> (of_char c :: nat) \<and> (of_char c :: nat) \<le> 57"

definition name_char :: "char \<Rightarrow> bool" where
  "name_char c \<longleftrightarrow> is_upper c \<or> is_lower c \<or> is_digit c \<or> c = CHR ''_''"

fun espix_env_name_ok :: "string \<Rightarrow> bool" where
  "espix_env_name_ok [] = False"
| "espix_env_name_ok (c # cs) \<longleftrightarrow>
     (is_upper c \<or> is_lower c \<or> c = CHR ''_'') \<and> list_all name_char cs \<and> length (c # cs) \<le> ESPIX_ENV_NAME_MAX"

definition espix_env_get :: "(string \<Rightarrow> string option) \<Rightarrow> env option \<Rightarrow> string \<Rightarrow> string option" where
  "espix_env_get getenv e name =
     (case e of
        None \<Rightarrow> getenv name
      | Some t \<Rightarrow>
          (case find_slot (is_var name) (vars t) of
             Some i \<Rightarrow> map_option vvalue (vars t ! i)
           | None \<Rightarrow> getenv name))"

definition espix_env_set :: "(nat \<Rightarrow> bool) \<Rightarrow> env option \<Rightarrow> string \<Rightarrow> string \<Rightarrow> bool \<Rightarrow> esp_err \<times> env option" where
  "espix_env_set mem e name value ex =
     (if \<not> espix_env_name_ok name then (ESP_ERR_INVALID_ARG, e)
      else if ESPIX_ENV_VALUE_MAX < length value then (ESP_ERR_INVALID_SIZE, e)
      else if e = None \<and> \<not> mem 0 then (ESP_ERR_NO_MEM, e)
      else
        (let t = (case e of None \<Rightarrow> empty_env | Some t \<Rightarrow> t) in
         if \<not> mem 1 then (ESP_ERR_NO_MEM, Some t)
         else (case find_slot (is_var name) (vars t) of
                 Some i \<Rightarrow>
                   (case vars t ! i of
                      None \<Rightarrow> (ESP_OK, Some t)
                    | Some x \<Rightarrow>
                        (ESP_OK, Some (t\<lparr>vars := (vars t)[i := Some (x\<lparr>vvalue := value, vexported := vexported x \<or> ex\<rparr>)]\<rparr>)))
               | None \<Rightarrow>
                   (case find_slot Option.is_none (vars t) of
                      None \<Rightarrow> (ESP_ERR_NO_MEM, Some t)
                    | Some i \<Rightarrow>
                        if \<not> mem 2 then (ESP_ERR_NO_MEM, Some t)
                        else (ESP_OK, Some (t\<lparr>vars := (vars t)[i := Some \<lparr>vname = name, vvalue = value, vexported = ex\<rparr>],
                                              vcount := Suc (vcount t)\<rparr>))))))"

definition espix_env_unset :: "env option \<Rightarrow> string \<Rightarrow> bool \<times> env option" where
  "espix_env_unset e name =
     (case e of
        None \<Rightarrow> (False, e)
      | Some t \<Rightarrow>
          (case find_slot (is_var name) (vars t) of
             None \<Rightarrow> (False, e)
           | Some i \<Rightarrow> (True, Some (t\<lparr>vars := (vars t)[i := None], vcount := vcount t - 1\<rparr>))))"

definition espix_env_at :: "env option \<Rightarrow> nat \<Rightarrow> evar option" where
  "espix_env_at e slot =
     (case e of None \<Rightarrow> None | Some t \<Rightarrow> if ESPIX_ENV_MAX \<le> slot then None else vars t ! slot)"

definition espix_env_count :: "env option \<Rightarrow> nat" where
  "espix_env_count e = (case e of None \<Rightarrow> 0 | Some t \<Rightarrow> vcount t)"

definition espix_env_free :: "env option \<Rightarrow> env option" where
  "espix_env_free e = None"

text \<open>An entry of a scope: \<open>sname\<close> is \<open>None\<close> once it is settled; \<open>sold\<close> is the value and the
  flag of a variable that existed.\<close>

record saved =
  sname :: "string option"
  sold :: "(string \<times> bool) option"

type_synonym scope = "saved list"

definition espix_env_scope_init :: scope where
  "espix_env_scope_init = []"

definition espix_env_scope_set ::
    "(nat \<Rightarrow> bool) \<Rightarrow> env option \<Rightarrow> scope \<Rightarrow> string \<Rightarrow> string \<Rightarrow> esp_err \<times> env option \<times> scope" where
  "espix_env_scope_set mem e sc name value =
     (if ESPIX_ENV_SCOPE_MAX \<le> length sc then (ESP_ERR_NO_MEM, e, sc)
      else
        (let (ok, e1, x) =
               (case env_find e name of
                  Some i \<Rightarrow>
                    (case e of
                       None \<Rightarrow> (True, e, \<lparr>sname = Some name, sold = None\<rparr>)
                     | Some t \<Rightarrow>
                         (True, Some (t\<lparr>vars := (vars t)[i := None], vcount := vcount t - 1\<rparr>),
                          \<lparr>sname = Some name, sold = map_option (\<lambda>v. (vvalue v, vexported v)) (vars t ! i)\<rparr>))
                | None \<Rightarrow> (mem 3, e, \<lparr>sname = Some name, sold = None\<rparr>))
         in if \<not> ok then (ESP_ERR_NO_MEM, e1, sc)
            else (case espix_env_set mem e1 name value True of (err, e2) \<Rightarrow> (err, e2, sc @ [x]))))"

definition set_exported :: "env option \<Rightarrow> string \<Rightarrow> bool \<Rightarrow> env option" where
  "set_exported e name b =
     (case e of
        None \<Rightarrow> e
      | Some t \<Rightarrow>
          (case find_slot (is_var name) (vars t) of
             None \<Rightarrow> e
           | Some i \<Rightarrow> Some (t\<lparr>vars := (vars t)[i := map_option (\<lambda>x. x\<lparr>vexported := b\<rparr>) (vars t ! i)]\<rparr>)))"

definition espix_env_scope_keep :: "env option \<Rightarrow> scope \<Rightarrow> string \<Rightarrow> esp_err \<times> env option \<times> scope" where
  "espix_env_scope_keep e sc name =
     (case find_slot (\<lambda>x. sname x = Some name) sc of
        None \<Rightarrow> (ESP_ERR_NOT_FOUND, e, sc)
      | Some i \<Rightarrow>
          (ESP_OK,
           set_exported e name (case sold (sc ! i) of Some (v, b) \<Rightarrow> b | None \<Rightarrow> False),
           sc[i := \<lparr>sname = None, sold = None\<rparr>]))"

text \<open>One entry of \<^verbatim>\<open>espix_env_scope_end\<close>'s loop, which runs from the last entry to the first.\<close>

definition scope_undo :: "saved \<Rightarrow> env option \<Rightarrow> env option" where
  "scope_undo x e =
     (case sname x of
        None \<Rightarrow> e
      | Some name \<Rightarrow>
          (let e1 = snd (espix_env_unset e name) in
           case sold x of
             None \<Rightarrow> e1
           | Some (v, b) \<Rightarrow>
               (case e1 of
                  None \<Rightarrow> e1
                | Some t \<Rightarrow>
                    (case find_slot Option.is_none (vars t) of
                       None \<Rightarrow> e1
                     | Some k \<Rightarrow> Some (t\<lparr>vars := (vars t)[k := Some \<lparr>vname = name, vvalue = v, vexported = b\<rparr>],
                                        vcount := Suc (vcount t)\<rparr>)))))"

definition espix_env_scope_end :: "env option \<Rightarrow> scope \<Rightarrow> env option" where
  "espix_env_scope_end e sc = foldr scope_undo sc e"

definition set_default :: "(nat \<Rightarrow> bool) \<Rightarrow> string \<Rightarrow> string \<Rightarrow> env option \<Rightarrow> env option" where
  "set_default mem name value e = snd (espix_env_set mem e name value True)"

definition espix_env_set_login_defaults ::
    "(nat \<Rightarrow> nat \<Rightarrow> bool) \<Rightarrow> string \<Rightarrow> string \<Rightarrow> bool \<Rightarrow> env option \<Rightarrow> env option" where
  "espix_env_set_login_defaults mem user home ansi e =
     set_default (mem 3) ''TERM'' (if ansi then ''xterm'' else ''dumb'')
      (set_default (mem 2) ''PATH'' ''/bin''
       (set_default (mem 1) ''HOME'' (if home \<noteq> [] then home else ''/'')
        (set_default (mem 0) ''USER'' (if user \<noteq> [] then user else ''root'') e)))"

section \<open>The table as a map\<close>

definition env_map :: "env option \<Rightarrow> string \<Rightarrow> (string \<times> bool) option" where
  "env_map e name =
     (case e of
        None \<Rightarrow> None
      | Some t \<Rightarrow> (case find_slot (is_var name) (vars t) of
                   None \<Rightarrow> None | Some i \<Rightarrow> map_option (\<lambda>x. (vvalue x, vexported x)) (vars t ! i)))"

fun used_slots :: "'a option list \<Rightarrow> nat" where
  "used_slots [] = 0"
| "used_slots (x # xs) = (case x of None \<Rightarrow> 0 | Some _ \<Rightarrow> 1) + used_slots xs"

text \<open>No name twice, and the count is the number of slots in use.\<close>

definition table_ok :: "env \<Rightarrow> bool" where
  "table_ok t \<longleftrightarrow> length (vars t) = ESPIX_ENV_MAX \<and> vcount t = used_slots (vars t)
     \<and> (\<forall>i j x y. i < ESPIX_ENV_MAX \<longrightarrow> j < ESPIX_ENV_MAX \<longrightarrow> vars t ! i = Some x \<longrightarrow> vars t ! j = Some y \<longrightarrow>
          vname x = vname y \<longrightarrow> i = j)"

definition env_ok :: "env option \<Rightarrow> bool" where
  "env_ok e \<longleftrightarrow> (case e of None \<Rightarrow> True | Some t \<Rightarrow> table_ok t)"

lemma used_slots_update:
  "i < length xs \<Longrightarrow> used_slots (xs[i := y]) + (if xs ! i \<noteq> None then 1 else 0) = used_slots xs + (if y \<noteq> None then 1 else 0)"
proof (induction xs arbitrary: i)
  case (Cons x xs)
  show ?case
  proof (cases i)
    case (Suc k)
    then show ?thesis using Cons.IH[of k] Cons.prems by simp
  qed (auto split: option.splits)
qed simp

lemma used_slots_le: "used_slots xs \<le> length xs"
  by (induction xs) (auto split: option.splits)

lemma used_slots_full: "find_slot Option.is_none xs = None \<longleftrightarrow> used_slots xs = length xs"
proof (induction xs)
  case (Cons x xs)
  then show ?case using used_slots_le[of xs] by (cases x) (auto simp: find_slot_None)
qed simp

lemma used_slots_none [simp]: "used_slots (replicate n None) = 0"
  by (induction n) auto

lemma empty_table [simp]: "table_ok empty_env" "env_map (Some empty_env) = Map.empty"
proof -
  have "find_slot (is_var n) (replicate k None) = None" for n k by (simp add: find_slot_None is_var_def)
  then show "table_ok empty_env" "env_map (Some empty_env) = Map.empty"
    by (auto simp: empty_env_def table_ok_def env_map_def fun_eq_iff)
qed

lemma is_var_iff: "is_var n v \<longleftrightarrow> (\<exists>x. v = Some x \<and> vname x = n)"
  by (auto simp: is_var_def split: option.split)

lemma table_unique:
  "table_ok t \<Longrightarrow> i < ESPIX_ENV_MAX \<Longrightarrow> j < ESPIX_ENV_MAX \<Longrightarrow> vars t ! i = Some x \<Longrightarrow> vars t ! j = Some y \<Longrightarrow>
     vname x = vname y \<Longrightarrow> i = j"
  unfolding table_ok_def by blast

lemma table_length: "table_ok t \<Longrightarrow> length (vars t) = ESPIX_ENV_MAX"
  by (simp add: table_ok_def)

lemma env_map_iff:
  assumes "table_ok t"
  shows "env_map (Some t) n = Some p \<longleftrightarrow>
    (\<exists>i x. i < ESPIX_ENV_MAX \<and> vars t ! i = Some x \<and> vname x = n \<and> p = (vvalue x, vexported x))"
proof (cases "find_slot (is_var n) (vars t)")
  case None
  then have "\<forall>i < ESPIX_ENV_MAX. \<not> is_var n (vars t ! i)" using assms by (simp add: find_slot_None table_ok_def)
  then show ?thesis using None by (auto simp: env_map_def is_var_iff)
next
  case (Some i)
  obtain x where x: "i < ESPIX_ENV_MAX" "vars t ! i = Some x" "vname x = n"
    using find_slot_Some[OF Some] table_length[OF assms] by (auto simp: is_var_iff)
  have m: "env_map (Some t) n = Some (vvalue x, vexported x)" using Some x by (simp add: env_map_def)
  show ?thesis
  proof
    assume "env_map (Some t) n = Some p"
    with m x show "\<exists>i x. i < ESPIX_ENV_MAX \<and> vars t ! i = Some x \<and> vname x = n \<and> p = (vvalue x, vexported x)" by auto
  next
    assume "\<exists>i x. i < ESPIX_ENV_MAX \<and> vars t ! i = Some x \<and> vname x = n \<and> p = (vvalue x, vexported x)"
    then obtain j y where y: "j < ESPIX_ENV_MAX" "vars t ! j = Some y" "vname y = n" "p = (vvalue y, vexported y)" by blast
    have "j = i" using table_unique[OF assms y(1) x(1) y(2) x(2)] x(3) y(3) by simp
    with x(2) y m show "env_map (Some t) n = Some p" by simp
  qed
qed

lemma map_ext: "(\<And>n p. f n = Some p \<longleftrightarrow> g n = Some p) \<Longrightarrow> f = g"
  by (rule ext) (metis not_Some_eq)

lemma find_var:
  assumes "table_ok t" "find_slot (is_var n) (vars t) = Some i"
  obtains x where "i < ESPIX_ENV_MAX" "vars t ! i = Some x" "vname x = n" "env_map (Some t) n = Some (vvalue x, vexported x)"
proof -
  obtain x where x: "i < ESPIX_ENV_MAX" "vars t ! i = Some x" "vname x = n"
    using find_slot_Some[OF assms(2)] table_length[OF assms(1)] by (auto simp: is_var_iff)
  then have "env_map (Some t) n = Some (vvalue x, vexported x)" using assms(2) by (simp add: env_map_def)
  with x that show thesis by blast
qed

lemma find_var_None: "find_slot (is_var n) (vars t) = None \<Longrightarrow> env_map (Some t) n = None"
  by (simp add: env_map_def)

text \<open>
  The code writes a slot in three ways: it empties the one of a name, fills a free one with a name that
  is not there, rewrites the one of a name. Each is the write of one slot \<open>i\<close> after which no other
  slot has the name \<open>n\<close>.
\<close>

lemma slot_update:
  assumes ok: "table_ok t" and i: "i < ESPIX_ENV_MAX"
    and here: "\<And>x. vars t ! i = Some x \<Longrightarrow> vname x = n" and new: "\<And>x. y = Some x \<Longrightarrow> vname x = n"
    and others: "\<And>j x. j < ESPIX_ENV_MAX \<Longrightarrow> j \<noteq> i \<Longrightarrow> vars t ! j = Some x \<Longrightarrow> vname x \<noteq> n"
    and t': "vars t' = (vars t)[i := y]" "vcount t' = used_slots (vars t')"
  shows "table_ok t'" "env_map (Some t') = (env_map (Some t))(n := map_option (\<lambda>x. (vvalue x, vexported x)) y)"
proof -
  have at: "vars t' ! j = (if j = i then y else vars t ! j)" if "j < ESPIX_ENV_MAX" for j
    using that i table_length[OF ok] t'(1) by (simp add: nth_list_update)
  show ok': "table_ok t'"
    unfolding table_ok_def
  proof (intro conjI allI impI)
    show "length (vars t') = ESPIX_ENV_MAX" using table_length[OF ok] t'(1) by simp
    show "vcount t' = used_slots (vars t')" by (rule t'(2))
    fix j k x z assume jk: "j < ESPIX_ENV_MAX" "k < ESPIX_ENV_MAX" "vars t' ! j = Some x" "vars t' ! k = Some z" "vname x = vname z"
    show "j = k"
    proof (cases "j = i \<or> k = i")
      case True
      then show ?thesis using jk at new others by (metis (full_types))
    next
      case False
      then show ?thesis using jk at table_unique[OF ok jk(1,2)] by auto
    qed
  qed
  show "env_map (Some t') = (env_map (Some t))(n := map_option (\<lambda>x. (vvalue x, vexported x)) y)"
  proof (rule map_ext)
    fix m p
    show "env_map (Some t') m = Some p \<longleftrightarrow> ((env_map (Some t))(n := map_option (\<lambda>x. (vvalue x, vexported x)) y)) m = Some p"
    proof (cases "m = n")
      case True
      have "env_map (Some t') n = Some p \<longleftrightarrow> (\<exists>x. y = Some x \<and> p = (vvalue x, vexported x))"
        unfolding env_map_iff[OF ok'] using at i new others by (metis (full_types))
      with True show ?thesis by auto
    next
      case False
      have "env_map (Some t') m = Some p \<longleftrightarrow> env_map (Some t) m = Some p"
        unfolding env_map_iff[OF ok'] env_map_iff[OF ok] using at i new here False by (metis (full_types))
      with False show ?thesis by simp
    qed
  qed
qed

lemma slot_remove:
  assumes ok: "table_ok t" and i: "find_slot (is_var n) (vars t) = Some i"
    and t': "t' = t\<lparr>vars := (vars t)[i := None], vcount := vcount t - 1\<rparr>"
  shows "table_ok t'" "env_map (Some t') = (env_map (Some t))(n := None)" "vcount t = Suc (vcount t')"
proof -
  obtain x where x: "i < ESPIX_ENV_MAX" "vars t ! i = Some x" "vname x = n" using ok i by (rule find_var)
  have u: "used_slots ((vars t)[i := None]) + 1 = used_slots (vars t)"
    using used_slots_update[of i "vars t" None] x table_length[OF ok] by simp
  have c: "vcount t = used_slots (vars t)" using ok by (simp add: table_ok_def)
  have o: "vname z \<noteq> n" if "j < ESPIX_ENV_MAX" "j \<noteq> i" "vars t ! j = Some z" for j z
    using table_unique[OF ok that(1) x(1) that(3) x(2)] x(3) that(2) by auto
  show "vcount t = Suc (vcount t')" using u c t' by simp
  show "table_ok t'" by (rule slot_update(1)[OF ok x(1), of n None]) (use x o u c t' in auto)
  have "env_map (Some t') = (env_map (Some t))(n := map_option (\<lambda>x. (vvalue x, vexported x)) (None :: evar option))"
    by (rule slot_update(2)[OF ok x(1), of n None]) (use x o u c t' in auto)
  then show "env_map (Some t') = (env_map (Some t))(n := None)" by simp
qed

lemma slot_add:
  assumes ok: "table_ok t" and k: "find_slot Option.is_none (vars t) = Some k" and n: "env_map (Some t) n = None"
    and t': "t' = t\<lparr>vars := (vars t)[k := Some \<lparr>vname = n, vvalue = v, vexported = b\<rparr>], vcount := Suc (vcount t)\<rparr>"
  shows "table_ok t'" "env_map (Some t') = (env_map (Some t))(n \<mapsto> (v, b))"
proof -
  let ?y = "Some \<lparr>vname = n, vvalue = v, vexported = b\<rparr>"
  have kk: "k < ESPIX_ENV_MAX" "vars t ! k = None"
    using find_slot_Some[OF k] table_length[OF ok] by (auto simp: Option.is_none_def split: option.splits)
  have o: "vname x \<noteq> n" if "j < ESPIX_ENV_MAX" "vars t ! j = Some x" for j x
    using n env_map_iff[OF ok, of n "(vvalue x, vexported x)"] that by auto
  have c: "vcount t' = used_slots (vars t')"
    using used_slots_update[of k "vars t" ?y] kk table_length[OF ok] ok t' by (simp add: table_ok_def)
  show "table_ok t'" by (rule slot_update(1)[OF ok kk(1), of n ?y]) (use kk o c t' in auto)
  have "env_map (Some t') = (env_map (Some t))(n := map_option (\<lambda>x. (vvalue x, vexported x)) ?y)"
    by (rule slot_update(2)[OF ok kk(1), of n ?y]) (use kk o c t' in auto)
  then show "env_map (Some t') = (env_map (Some t))(n \<mapsto> (v, b))" by simp
qed

lemma slot_write:
  assumes ok: "table_ok t" and i: "find_slot (is_var n) (vars t) = Some i" "vars t ! i = Some x"
    and t': "t' = t\<lparr>vars := (vars t)[i := Some (x\<lparr>vvalue := v, vexported := b\<rparr>)]\<rparr>"
  shows "table_ok t'" "env_map (Some t') = (env_map (Some t))(n \<mapsto> (v, b))"
proof -
  let ?y = "Some (x\<lparr>vvalue := v, vexported := b\<rparr>)"
  have x: "i < ESPIX_ENV_MAX" "vname x = n" using ok i by (auto elim: find_var)
  have o: "vname z \<noteq> n" if "j < ESPIX_ENV_MAX" "j \<noteq> i" "vars t ! j = Some z" for j z
    using table_unique[OF ok that(1) x(1) that(3) i(2)] x(2) that(2) by auto
  have c: "vcount t' = used_slots (vars t')"
    using used_slots_update[of i "vars t" ?y] x i(2) table_length[OF ok] ok t' by (simp add: table_ok_def)
  show "table_ok t'" by (rule slot_update(1)[OF ok x(1), of n ?y]) (use x i(2) o c t' in auto)
  have "env_map (Some t') = (env_map (Some t))(n := map_option (\<lambda>x. (vvalue x, vexported x)) ?y)"
    by (rule slot_update(2)[OF ok x(1), of n ?y]) (use x i(2) o c t' in auto)
  then show "env_map (Some t') = (env_map (Some t))(n \<mapsto> (v, b))" by simp
qed

lemma used_slots_card: "used_slots xs = card {i. i < length xs \<and> xs ! i \<noteq> None}"
proof -
  have "used_slots xs = length (filter (\<lambda>v. v \<noteq> None) xs)"
    by (induction xs) (auto split: option.splits)
  then show ?thesis by (simp add: length_filter_conv_card)
qed

lemma dom_env_map:
  assumes "table_ok t"
  shows "dom (env_map (Some t)) = (\<lambda>i. vname (the (vars t ! i))) ` {i. i < ESPIX_ENV_MAX \<and> vars t ! i \<noteq> None}"
proof (intro set_eqI iffI)
  fix n assume "n \<in> dom (env_map (Some t))"
  then obtain p where "env_map (Some t) n = Some p" by auto
  then obtain i x where "i < ESPIX_ENV_MAX" "vars t ! i = Some x" "vname x = n" unfolding env_map_iff[OF assms] by blast
  then show "n \<in> (\<lambda>i. vname (the (vars t ! i))) ` {i. i < ESPIX_ENV_MAX \<and> vars t ! i \<noteq> None}" by force
next
  fix n assume "n \<in> (\<lambda>i. vname (the (vars t ! i))) ` {i. i < ESPIX_ENV_MAX \<and> vars t ! i \<noteq> None}"
  then obtain i x where "i < ESPIX_ENV_MAX" "vars t ! i = Some x" "vname x = n" by auto
  then have "env_map (Some t) n = Some (vvalue x, vexported x)" unfolding env_map_iff[OF assms] by blast
  then show "n \<in> dom (env_map (Some t))" by blast
qed

lemma count_card: "table_ok t \<Longrightarrow> vcount t = card (dom (env_map (Some t)))"
proof -
  assume ok: "table_ok t"
  have "inj_on (\<lambda>i. vname (the (vars t ! i))) {i. i < ESPIX_ENV_MAX \<and> vars t ! i \<noteq> None}"
    by (rule inj_onI) (use table_unique[OF ok] in force)
  then show ?thesis using ok by (simp add: dom_env_map card_image used_slots_card table_ok_def)
qed

lemma finite_env: "env_ok e \<Longrightarrow> finite (dom (env_map e))"
  by (cases e) (auto simp: env_ok_def dom_env_map, simp add: env_map_def dom_def)

lemma free_slot:
  assumes "table_ok t" "card (dom (env_map (Some t))) < ESPIX_ENV_MAX"
  obtains k where "find_slot Option.is_none (vars t) = Some k"
proof -
  have "used_slots (vars t) \<noteq> length (vars t)" using assms count_card[OF assms(1)] by (simp add: table_ok_def)
  then show thesis using that used_slots_full[of "vars t"] by (cases "find_slot Option.is_none (vars t)") auto
qed

section \<open>The operations on the map\<close>

lemma unset_map:
  assumes "env_ok e" "espix_env_unset e n = (r, e')"
  shows "env_ok e'" "env_map e' = (env_map e)(n := None)" "r \<longleftrightarrow> env_map e n \<noteq> None" "e' = None \<longleftrightarrow> e = None"
proof -
  have "env_ok e' \<and> env_map e' = (env_map e)(n := None) \<and> (r \<longleftrightarrow> env_map e n \<noteq> None) \<and> (e' = None \<longleftrightarrow> e = None)"
  proof (cases e)
    case None
    then show ?thesis using assms by (auto simp: espix_env_unset_def env_ok_def env_map_def)
  next
    case (Some t)
    have ok: "table_ok t" using assms(1) Some by (simp add: env_ok_def)
    show ?thesis
    proof (cases "find_slot (is_var n) (vars t)")
      case None
      then show ?thesis using assms Some find_var_None[OF None] by (auto simp: espix_env_unset_def fun_upd_idem)
    next
      case i: (Some i)
      have "env_map (Some t) n \<noteq> None" using ok i by (auto elim: find_var)
      with slot_remove[OF ok i refl] assms(2) Some i show ?thesis by (auto simp: espix_env_unset_def env_ok_def)
    qed
  qed
  then show "env_ok e'" "env_map e' = (env_map e)(n := None)" "r \<longleftrightarrow> env_map e n \<noteq> None" "e' = None \<longleftrightarrow> e = None" by auto
qed

text \<open>What an assignment does to the map: all of it or nothing.\<close>

definition assign_map :: "(string \<Rightarrow> (string \<times> bool) option) \<Rightarrow> string \<Rightarrow> string \<Rightarrow> bool \<Rightarrow> string \<Rightarrow> (string \<times> bool) option" where
  "assign_map m n v ex = m(n \<mapsto> (v, (case m n of Some (w, b) \<Rightarrow> b \<or> ex | None \<Rightarrow> ex)))"

lemma set_map_table:
  assumes ok: "table_ok t" and r: "espix_env_set mem (Some t) n v ex = (err, e')"
  shows "env_ok e' \<and> e' \<noteq> None \<and> env_map e' = (if err = ESP_OK then assign_map (env_map (Some t)) n v ex else env_map (Some t))"
proof (cases "espix_env_name_ok n \<and> length v \<le> ESPIX_ENV_VALUE_MAX \<and> mem 1")
  case False
  then show ?thesis using ok r by (auto simp: espix_env_set_def env_ok_def split: if_splits)
next
  case go: True
  show ?thesis
  proof (cases "find_slot (is_var n) (vars t)")
    case (Some i)
    obtain x where x: "vars t ! i = Some x" "env_map (Some t) n = Some (vvalue x, vexported x)" using ok Some by (rule find_var)
    have "err = ESP_OK" "e' = Some (t\<lparr>vars := (vars t)[i := Some (x\<lparr>vvalue := v, vexported := vexported x \<or> ex\<rparr>)]\<rparr>)"
      using r go Some x by (auto simp: espix_env_set_def Let_def)
    with slot_write[OF ok Some x(1) refl, where v = v and b = "vexported x \<or> ex"] x(2) show ?thesis by (auto simp: env_ok_def assign_map_def)
  next
    case None
    have n: "env_map (Some t) n = None" by (rule find_var_None[OF None])
    show ?thesis
    proof (cases "find_slot Option.is_none (vars t)")
      case N: None
      then show ?thesis using r go None ok by (auto simp: espix_env_set_def Let_def env_ok_def)
    next
      case (Some k)
      then show ?thesis using slot_add[OF ok Some n refl, where v = v and b = ex] r go None ok n
        by (auto simp: espix_env_set_def Let_def env_ok_def assign_map_def split: if_splits)
    qed
  qed
qed

lemma set_map_env:
  assumes ok: "env_ok e" and r: "espix_env_set mem e n v ex = (err, e')"
  shows "env_ok e'" "env_map e' = (if err = ESP_OK then assign_map (env_map e) n v ex else env_map e)"
    and "e \<noteq> None \<Longrightarrow> e' \<noteq> None" "err = ESP_OK \<Longrightarrow> e' \<noteq> None"
proof -
  have e0: "env_map None = Map.empty" by (simp add: env_map_def fun_eq_iff)
  have "env_ok e' \<and> env_map e' = (if err = ESP_OK then assign_map (env_map e) n v ex else env_map e)
      \<and> (e \<noteq> None \<longrightarrow> e' \<noteq> None) \<and> (err = ESP_OK \<longrightarrow> e' \<noteq> None)"
  proof (cases e)
    case (Some t)
    then show ?thesis using set_map_table[of t mem n v ex err e'] ok r by (auto simp: env_ok_def)
  next
    case None
    show ?thesis
    proof (cases "espix_env_name_ok n \<and> length v \<le> ESPIX_ENV_VALUE_MAX \<and> mem 0")
      case True
      then have "espix_env_set mem (Some empty_env) n v ex = (err, e')" using r None by (simp add: espix_env_set_def Let_def)
      from set_map_table[OF empty_table(1) this] None e0 show ?thesis by simp
    next
      case False
      then show ?thesis using r None by (auto simp: espix_env_set_def env_ok_def split: if_splits)
    qed
  qed
  then show "env_ok e'" "env_map e' = (if err = ESP_OK then assign_map (env_map e) n v ex else env_map e)"
    "e \<noteq> None \<Longrightarrow> e' \<noteq> None" "err = ESP_OK \<Longrightarrow> e' \<noteq> None" by auto
qed

section \<open>Scopes\<close>

lemma undo_map:
  assumes ok: "env_ok e" and x: "sname x = Some n"
    and room: "sold x \<noteq> None \<longrightarrow> e \<noteq> None \<and> card (insert n (dom (env_map e))) \<le> ESPIX_ENV_MAX"
  shows "env_ok (scope_undo x e)" "env_map (scope_undo x e) = (env_map e)(n := sold x)" "scope_undo x e = None \<longleftrightarrow> e = None"
proof -
  obtain r e1 where u: "espix_env_unset e n = (r, e1)" by (cases "espix_env_unset e n")
  note un = unset_map[OF ok u]
  have "env_ok (scope_undo x e) \<and> env_map (scope_undo x e) = (env_map e)(n := sold x) \<and> (scope_undo x e = None \<longleftrightarrow> e = None)"
  proof (cases "sold x")
    case None
    then show ?thesis using un u x by (auto simp: scope_undo_def)
  next
    case (Some vb)
    obtain v b where vb: "vb = (v, b)" by (cases vb)
    obtain t where t: "e1 = Some t" using room Some un(4) by auto
    have okt: "table_ok t" using un(1) t by (simp add: env_ok_def)
    have n: "env_map (Some t) n = None" using un(2) t by simp
    have "card (insert n (dom (env_map (Some t)))) \<le> card (insert n (dom (env_map e)))"
      using un(2) t finite_env[OF ok] by (intro card_mono) auto
    then have "card (dom (env_map (Some t))) < ESPIX_ENV_MAX"
      using n room Some finite_env[OF un(1)] t by (simp add: domIff card_insert_if split: if_splits)
    then obtain k where k: "find_slot Option.is_none (vars t) = Some k" using free_slot[OF okt] by blast
    show ?thesis using slot_add[OF okt k n refl, where v = v and b = b] u x Some vb t k un(2) room
      by (auto simp: scope_undo_def env_ok_def)
  qed
  then show "env_ok (scope_undo x e)" "env_map (scope_undo x e) = (env_map e)(n := sold x)" "scope_undo x e = None \<longleftrightarrow> e = None" by auto
qed

lemma scope_set_map:
  assumes ok: "env_ok e" and r: "espix_env_scope_set mem e sc n v = (err, e', sc')"
  obtains (none) "sc' = sc" "e' = e" "err = ESP_ERR_NO_MEM"
  | (entry) x where "sc' = sc @ [x]" "sname x = Some n" "sold x = env_map e n" "env_ok e'" "e \<noteq> None \<Longrightarrow> e' \<noteq> None"
      "env_map e' = (if err = ESP_OK then (env_map e)(n \<mapsto> (v, True)) else (env_map e)(n := None))"
proof (cases "ESPIX_ENV_SCOPE_MAX \<le> length sc \<or> (env_find e n = None \<and> \<not> mem 3)")
  case True
  then show thesis using r none by (auto simp: espix_env_scope_set_def Let_def split: option.splits if_splits)
next
  case go: False
  show thesis
  proof (cases "env_find e n")
    case None
    have m: "env_map e n = None" using None by (auto simp: env_find_def env_map_def split: option.splits)
    obtain e2 where s: "espix_env_set mem e n v True = (err, e2)" "e' = e2" "sc' = sc @ [\<lparr>sname = Some n, sold = None\<rparr>]"
      using r go None by (auto simp: espix_env_scope_set_def split: prod.splits)
    note sm = set_map_env[OF ok s(1)]
    show thesis
      by (rule entry[OF s(3)]) (use sm s m in \<open>auto simp: assign_map_def fun_upd_idem\<close>)
  next
    case (Some i)
    then obtain t where t: "e = Some t" "find_slot (is_var n) (vars t) = Some i" by (auto simp: env_find_def split: option.splits)
    have okt: "table_ok t" using ok t by (simp add: env_ok_def)
    let ?t = "t\<lparr>vars := (vars t)[i := None], vcount := vcount t - 1\<rparr>"
    note rm = slot_remove[OF okt t(2) refl]
    let ?x = "\<lparr>sname = Some n, sold = map_option (\<lambda>v. (vvalue v, vexported v)) (vars t ! i)\<rparr>"
    obtain e2 where s: "espix_env_set mem (Some ?t) n v True = (err, e2)" "e' = e2" "sc' = sc @ [?x]"
      using r go Some t(1) by (auto simp: espix_env_scope_set_def split: prod.splits)
    have okt': "env_ok (Some ?t)" using rm(1) by (simp add: env_ok_def)
    note sm = set_map_env[OF okt' s(1)]
    have x: "sold ?x = env_map e n" using t by (simp add: env_map_def)
    show thesis
      by (rule entry[OF s(3) _ x]) (use sm s rm(2) t(1) in \<open>auto simp: assign_map_def fun_upd_idem\<close>)
  qed
qed

text \<open>A run of one-shot assignments, each with what its allocations do.\<close>

fun scope_sets :: "env option \<Rightarrow> scope \<Rightarrow> ((nat \<Rightarrow> bool) \<times> string \<times> string) list \<Rightarrow> env option \<times> scope" where
  "scope_sets e sc [] = (e, sc)"
| "scope_sets e sc ((mem, n, v) # as) =
     (case espix_env_scope_set mem e sc n v of (err, e1, sc1) \<Rightarrow> scope_sets e1 sc1 as)"

definition scope_names :: "scope \<Rightarrow> string set" where
  "scope_names sc = {n. \<exists>x \<in> set sc. sname x = Some n}"

lemma scope_names_simps [simp]: "scope_names [] = {}"
  "sname x = Some n \<Longrightarrow> scope_names (x # sc) = insert n (scope_names sc)"
  by (auto simp: scope_names_def)

lemma finite_scope_names [simp]: "finite (scope_names sc)"
proof -
  have "scope_names sc \<subseteq> the ` sname ` set sc" by (force simp: scope_names_def)
  then show ?thesis by (rule finite_subset) simp
qed

lemma scope_sets_undo:
  assumes "env_ok e" "scope_sets e sc as = (e', sc')"
  shows "\<exists>ys. sc' = sc @ ys \<and> env_ok e' \<and> (e \<noteq> None \<longrightarrow> e' \<noteq> None) \<and>
    (\<forall>f. env_ok f \<longrightarrow> (e' \<noteq> None \<longrightarrow> f \<noteq> None) \<longrightarrow> card (dom (env_map f) \<union> scope_names ys) \<le> ESPIX_ENV_MAX \<longrightarrow>
      env_ok (foldr scope_undo ys f) \<and> (foldr scope_undo ys f = None \<longleftrightarrow> f = None) \<and>
      env_map (foldr scope_undo ys f) = (\<lambda>n. if n \<in> scope_names ys then env_map e n else env_map f n))"
  using assms
proof (induction e sc as rule: scope_sets.induct)
  case (1 e sc)
  then show ?case by simp
next
  case (2 e sc mem n v as)
  obtain err e1 sc1 where s: "espix_env_scope_set mem e sc n v = (err, e1, sc1)" by (metis prod_cases3)
  have run: "scope_sets e1 sc1 as = (e', sc')" using 2(3) s by simp
  from 2(2) s show ?case
  proof (cases rule: scope_set_map)
    case none
    have "env_ok e1" using 2(2) none(2) by simp
    from 2(1)[OF s[symmetric] refl this run] show ?thesis unfolding none(1,2) .
  next
    case (entry x)
    obtain ys where ys: "sc' = sc1 @ ys" "env_ok e'" "e1 \<noteq> None \<longrightarrow> e' \<noteq> None"
      and ih: "\<And>f. env_ok f \<Longrightarrow> (e' \<noteq> None \<Longrightarrow> f \<noteq> None) \<Longrightarrow> card (dom (env_map f) \<union> scope_names ys) \<le> ESPIX_ENV_MAX \<Longrightarrow>
        env_ok (foldr scope_undo ys f) \<and> (foldr scope_undo ys f = None \<longleftrightarrow> f = None) \<and>
        env_map (foldr scope_undo ys f) = (\<lambda>n. if n \<in> scope_names ys then env_map e1 n else env_map f n)"
      using 2(1)[OF s[symmetric] refl entry(4) run] by auto
    have "env_ok (scope_undo x (foldr scope_undo ys f)) \<and> (scope_undo x (foldr scope_undo ys f) = None \<longleftrightarrow> f = None) \<and>
        env_map (scope_undo x (foldr scope_undo ys f)) = (\<lambda>m. if m \<in> insert n (scope_names ys) then env_map e m else env_map f m)"
      if f: "env_ok f" "e' \<noteq> None \<Longrightarrow> f \<noteq> None" "card (dom (env_map f) \<union> insert n (scope_names ys)) \<le> ESPIX_ENV_MAX" for f
    proof -
      let ?g = "foldr scope_undo ys f"
      have fin: "finite (dom (env_map f) \<union> insert n (scope_names ys))" using finite_env[OF f(1)] by simp
      have "card (dom (env_map f) \<union> scope_names ys) \<le> card (dom (env_map f) \<union> insert n (scope_names ys))"
        by (rule card_mono[OF fin]) blast
      then have "card (dom (env_map f) \<union> scope_names ys) \<le> ESPIX_ENV_MAX" using f(3) by (rule order_trans)
      from ih[OF f(1,2) this] have g: "env_ok ?g" "?g = None \<longleftrightarrow> f = None"
        "env_map ?g = (\<lambda>n. if n \<in> scope_names ys then env_map e1 n else env_map f n)" by auto
      have sub: "insert n (dom (env_map ?g)) \<subseteq> dom (env_map f) \<union> insert n (scope_names ys)" by (auto simp: g(3) split: if_splits)
      have room: "?g \<noteq> None \<and> card (insert n (dom (env_map ?g))) \<le> ESPIX_ENV_MAX" if "sold x \<noteq> None"
      proof
        have "e \<noteq> None" using that entry(3) by (cases e) (simp_all add: env_map_def)
        then show "?g \<noteq> None" using entry(5) ys(3) f(2) g(2) by auto
        show "card (insert n (dom (env_map ?g))) \<le> ESPIX_ENV_MAX" using card_mono[OF fin sub] f(3) by simp
      qed
      have room': "sold x \<noteq> None \<longrightarrow> ?g \<noteq> None \<and> card (insert n (dom (env_map ?g))) \<le> ESPIX_ENV_MAX" using room by blast
      note ud = undo_map[OF g(1) entry(2) room']
      have "env_map e1 m = env_map e m" if "m \<noteq> n" for m using entry(6) that by (auto split: if_splits)
      then have "env_map (scope_undo x ?g) = (\<lambda>m. if m \<in> insert n (scope_names ys) then env_map e m else env_map f m)"
        using entry(3) by (auto simp: ud(2) g(3) fun_eq_iff)
      with ud(1,3) g(2) show ?thesis by auto
    qed
    then show ?thesis using ys(1-3) entry(1,2,5) by (intro exI[of _ "x # ys"]) auto
  qed
qed

section \<open>Properties\<close>

text \<open>
  C11. An assignment does all of its work or none of it, and the table behaves as a map: with a valid
  name, a value that fits and a place for it, the name then has that value, is exported if it was or is
  asked to be, and every other name keeps its value and flag; any refusal leaves every name as it was. The table
  keeps each name once and its count right.
\<close>

theorem env_set_map:
  assumes "env_ok e" "espix_env_set mem e n v ex = (err, e')"
  shows "env_ok e' \<and> env_map e' = (if err = ESP_OK then assign_map (env_map e) n v ex else env_map e)
    \<and> (err = ESP_OK \<longrightarrow> espix_env_get getenv e' n = Some v)"
proof -
  note s = set_map_env[OF assms]
  have "espix_env_get getenv e' n = Some v" if ok: "err = ESP_OK"
  proof -
    obtain t where t: "e' = Some t" using s(4) ok by blast
    have m: "\<exists>b. env_map e' n = Some (v, b)" using s(2) ok by (simp add: assign_map_def)
    then show ?thesis using t by (auto simp: env_map_def espix_env_get_def split: option.splits)
  qed
  with s show ?thesis by blast
qed

theorem env_set_map_witness:
  "case espix_env_set (\<lambda>_. True) None ''FOO'' ''bar'' True of (err, e') \<Rightarrow>
     err = ESP_OK \<and> espix_env_get (\<lambda>_. None) e' ''FOO'' = Some ''bar''"
proof -
  obtain err e' where s: "espix_env_set (\<lambda>_. True) None ''FOO'' ''bar'' True = (err, e')"
    by (cases "espix_env_set (\<lambda>_. True) None ''FOO'' ''bar'' True")
  have "err = ESP_OK" using s
    by (simp add: espix_env_set_def Let_def empty_env_def is_upper_def name_char_def find_slot_None is_var_def
        numeral_eq_Suc split: option.splits)
  moreover have "env_ok None" by (simp add: env_ok_def)
  ultimately show ?thesis using env_set_map[OF _ s, of "\<lambda>_. None"] s by simp
qed

text \<open>
  C31. A one-shot leaves nothing behind: after any assignments in front of a command, refused ones and
  repeated names included, and whatever the command did to the variables meanwhile, ending the scope gives every name
  that was assigned the value and the export flag it had before, or none if it had none, and leaves every other
  name as the command left it, as long as they fit the table together.
\<close>

theorem scope_restores:
  assumes "env_ok e" "scope_sets e espix_env_scope_init as = (e', sc)"
    and "env_ok f" "e' \<noteq> None \<Longrightarrow> f \<noteq> None" "card (dom (env_map f) \<union> scope_names sc) \<le> ESPIX_ENV_MAX"
  shows "env_map (espix_env_scope_end f sc) n = (if n \<in> scope_names sc then env_map e n else env_map f n)"
  using scope_sets_undo[OF assms(1,2)] assms(3-) by (auto simp: espix_env_scope_end_def espix_env_scope_init_def)

theorem scope_restores_witness:
  "let e = snd (espix_env_set (\<lambda>_. True) None ''FOO'' ''old'' False);
       sc = snd (scope_sets e espix_env_scope_init [(\<lambda>_. True, ''FOO'', ''new'')])
   in env_map (espix_env_scope_end (Some empty_env) sc) ''FOO'' = Some (''old'', False)"
proof -
  obtain err e where e: "espix_env_set (\<lambda>_. True) None ''FOO'' ''old'' False = (err, e)"
    by (cases "espix_env_set (\<lambda>_. True) None ''FOO'' ''old'' False")
  have "err = ESP_OK" using e
    by (simp add: espix_env_set_def Let_def empty_env_def is_upper_def name_char_def find_slot_None is_var_def
        numeral_eq_Suc split: option.splits)
  then have ok: "env_ok e" and m: "env_map e ''FOO'' = Some (''old'', False)"
    using set_map_env[OF _ e] by (simp_all add: env_ok_def assign_map_def env_map_def[of None])
  obtain t i where t: "e = Some t" "find_slot (is_var ''FOO'') (vars t) = Some i"
    using m by (auto simp: env_map_def split: option.splits)
  obtain e' sc where s: "scope_sets e espix_env_scope_init [(\<lambda>_. True, ''FOO'', ''new'')] = (e', sc)"
    by (cases "scope_sets e espix_env_scope_init [(\<lambda>_. True, ''FOO'', ''new'')]")
  obtain x where x: "sc = [x]" "sname x = Some ''FOO''"
    using s t by (auto simp: espix_env_scope_set_def espix_env_scope_init_def env_find_def Let_def split: prod.splits)
  have "env_ok (Some empty_env)" by (simp add: env_ok_def)
  from scope_restores[OF ok s this, of "''FOO''"] have "env_map (espix_env_scope_end (Some empty_env) sc) ''FOO'' = Some (''old'', False)"
    using x m by simp
  with e s show ?thesis by simp
qed

end
