(* ===== verification/Shell_History.thy ===== *)
theory Shell_History
  imports Espix_Base
begin

text \<open>
  \<^verbatim>\<open>components/espix_shell/history.c\<close>: the command history, one list per user in a table of
  four buckets, newest entry first. A session keeps the address of its user's list, which is here the
  number of the bucket; every operation runs under one lock and is one function.
\<close>

section \<open>The code\<close>

abbreviation HISTORY_USERS :: nat where "HISTORY_USERS \<equiv> 4"
abbreviation ESPIX_HISTORY_MAX :: nat where "ESPIX_HISTORY_MAX \<equiv> 16"
abbreviation ESPIX_SESSION_USER_MAX :: nat where "ESPIX_SESSION_USER_MAX \<equiv> 17"

record bucket =
  huser :: string
  claimed :: bool
  seq :: u32
  entries :: "string list"

record histories =
  s_users :: "bucket list"
  s_seq :: u32

definition history_free_locked :: "bucket \<Rightarrow> bucket" where
  "history_free_locked b = b\<lparr>entries := []\<rparr>"

text \<open>The scan for the bucket claimed first.\<close>

fun oldest :: "bucket list \<Rightarrow> nat \<Rightarrow> nat list \<Rightarrow> nat" where
  "oldest bs slot [] = slot"
| "oldest bs slot (i # is) = oldest bs (if seq (bs ! i) < seq (bs ! slot) then i else slot) is"

definition espix_history_for :: "histories \<Rightarrow> string \<Rightarrow> nat \<times> histories" where
  "espix_history_for h user =
     (let bs = s_users h;
          (slot, bs1) =
            (case find_slot (\<lambda>b. claimed b \<and> huser b = user) bs of
               Some i \<Rightarrow> (i, bs)
             | None \<Rightarrow>
                 (case find_slot (\<lambda>b. \<not> claimed b) bs of
                    Some i \<Rightarrow> (i, bs)
                  | None \<Rightarrow>
                      (let i = oldest bs 0 [1..<HISTORY_USERS] in (i, bs[i := history_free_locked (bs ! i)]))));
          b = bs1 ! slot
      in if \<not> claimed b \<or> huser b \<noteq> user then
           (slot, h\<lparr>s_users := bs1[slot := b\<lparr>huser := strlcpy ESPIX_SESSION_USER_MAX user, claimed := True, seq := s_seq h + 1\<rparr>],
                   s_seq := s_seq h + 1\<rparr>)
         else (slot, h\<lparr>s_users := bs1\<rparr>))"

definition history_is_private :: "string \<Rightarrow> bool" where
  "history_is_private line \<longleftrightarrow>
     cchar line 0 = CHR '' '' \<or>
     (starts_with line ''passwd'' \<and> (cchar line 6 = NUL \<or> cchar line 6 = CHR '' ''))"

text \<open>\<^verbatim>\<open>espix_history_push\<close> on one list; \<open>mem\<close> says whether the copy could be allocated.\<close>

definition push_entries :: "bool \<Rightarrow> string list \<Rightarrow> string \<Rightarrow> string list" where
  "push_entries mem es line =
     (if line = [] \<or> history_is_private line then es
      else if es \<noteq> [] \<and> hd es = line then es
      else if \<not> mem then es
      else line # (if length es = ESPIX_HISTORY_MAX then butlast es else es))"

definition espix_history_push :: "bool \<Rightarrow> histories \<Rightarrow> nat \<Rightarrow> string \<Rightarrow> histories" where
  "espix_history_push mem h i line =
     h\<lparr>s_users := (s_users h)[i := (s_users h ! i)\<lparr>entries := push_entries mem (entries (s_users h ! i)) line\<rparr>]\<rparr>"

text \<open>What the line editor is given: a placeholder, then the entries.\<close>

definition espix_history_apply :: "histories \<Rightarrow> nat \<Rightarrow> string list" where
  "espix_history_apply h i = [] # entries (s_users h ! i)"

definition espix_history_free :: "histories \<Rightarrow> nat \<Rightarrow> histories" where
  "espix_history_free h i = h\<lparr>s_users := (s_users h)[i := history_free_locked (s_users h ! i)]\<rparr>"

section \<open>The list\<close>

definition keepable :: "string \<Rightarrow> bool" where
  "keepable line \<longleftrightarrow> line \<noteq> [] \<and> \<not> history_is_private line"

text \<open>What a user expects to find: the lines worth keeping, newest first, a repeat of the last one not
  added, the oldest dropped beyond the sixteenth.\<close>

definition expected :: "string list \<Rightarrow> string list" where
  "expected lines = take ESPIX_HISTORY_MAX (remdups_adj (rev (filter keepable lines)))"

lemma take_cons_limit:
  assumes "0 < n"
  shows "x # (if length (take n ys) = n then butlast (take n ys) else take n ys) = take n (x # ys)"
  using assms by (cases "n \<le> length ys") (simp_all add: butlast_take min_def take_Cons')

lemma push_expected:
  "push_entries True (take ESPIX_HISTORY_MAX (remdups_adj xs)) line =
     take ESPIX_HISTORY_MAX (remdups_adj (if keepable line then line # xs else xs))"
proof (cases "keepable line")
  case False
  then show ?thesis by (auto simp: push_entries_def keepable_def)
next
  case True
  show ?thesis
  proof (cases xs)
    case Nil
    with True show ?thesis by (simp add: push_entries_def keepable_def)
  next
    case (Cons y ys)
    obtain zs where zs: "remdups_adj xs = y # zs" using Cons by (metis hd_remdups_adj list.collapse list.discI list.sel(1) remdups_adj_Nil_iff)
    show ?thesis
    proof (cases "y = line")
      case e: True
      with True Cons zs show ?thesis by (simp add: push_entries_def keepable_def)
    next
      case False
      have "push_entries True es line = line # (if length es = ESPIX_HISTORY_MAX then butlast es else es)"
        if "es \<noteq> []" "hd es \<noteq> line" for es using True that by (simp add: push_entries_def keepable_def)
      from this[of "take ESPIX_HISTORY_MAX (y # zs)"]
      have "push_entries True (take ESPIX_HISTORY_MAX (remdups_adj xs)) line = take ESPIX_HISTORY_MAX (line # y # zs)"
        using False zs take_cons_limit[of ESPIX_HISTORY_MAX line "y # zs"] by simp
      with True False Cons zs show ?thesis by simp
    qed
  qed
qed

lemma pushes_expected: "fold (\<lambda>l es. push_entries True es l) lines [] = expected lines"
proof (induction lines rule: rev_induct)
  case (snoc l ls)
  then show ?case using push_expected[of "rev (filter keepable ls)" l] by (simp add: expected_def)
qed (simp add: expected_def)

section \<open>The buckets\<close>

definition histories_ok :: "histories \<Rightarrow> bool" where
  "histories_ok h \<longleftrightarrow> length (s_users h) = HISTORY_USERS \<and>
     (\<forall>i < HISTORY_USERS. \<not> claimed (s_users h ! i) \<longrightarrow> entries (s_users h ! i) = [])"

lemma oldest_range: "slot < n \<Longrightarrow> \<forall>i \<in> set is. i < n \<Longrightarrow> oldest bs slot is < n"
  by (induction bs slot "is" rule: oldest.induct) auto

lemma oldest_min: "\<forall>i \<in> insert slot (set is). seq (bs ! oldest bs slot is) \<le> seq (bs ! i)"
proof (induction bs slot "is" rule: oldest.induct)
  case (2 bs slot i "is")
  let ?s = "if seq (bs ! i) < seq (bs ! slot) then i else slot"
  have m: "seq (bs ! oldest bs ?s is) \<le> seq (bs ! ?s)" and r: "\<forall>j \<in> set is. seq (bs ! oldest bs ?s is) \<le> seq (bs ! j)"
    using 2 by auto
  have "seq (bs ! ?s) \<le> seq (bs ! i)" "seq (bs ! ?s) \<le> seq (bs ! slot)" by (auto simp: not_less)
  with m r show ?case by (auto intro: order_trans)
qed simp

lemma history_for_cases:
  assumes ok: "histories_ok h" and r: "espix_history_for h user = (i, h')"
  obtains (found) "find_slot (\<lambda>b. claimed b \<and> huser b = user) (s_users h) = Some i" "h' = h"
  | (fresh) "\<not> claimed (s_users h ! i)" "i < HISTORY_USERS"
      "s_users h' = (s_users h)[i := (s_users h ! i)\<lparr>huser := strlcpy ESPIX_SESSION_USER_MAX user, claimed := True, seq := s_seq h + 1\<rparr>]"
  | (recycled) "\<forall>b \<in> set (s_users h). claimed b \<and> huser b \<noteq> user" "i < HISTORY_USERS"
      "\<forall>j < HISTORY_USERS. seq (s_users h ! i) \<le> seq (s_users h ! j)"
      "s_users h' = (s_users h)[i := (s_users h ! i)\<lparr>entries := [], huser := strlcpy ESPIX_SESSION_USER_MAX user, claimed := True,
         seq := s_seq h + 1\<rparr>]"
proof -
  let ?bs = "s_users h"
  have len: "length ?bs = HISTORY_USERS" using ok by (simp add: histories_ok_def)
  show thesis
  proof (cases "find_slot (\<lambda>b. claimed b \<and> huser b = user) ?bs")
    case (Some k)
    then have "claimed (?bs ! k) \<and> huser (?bs ! k) = user" using find_slot_sat[OF Some] by simp
    then have "i = k" "h' = h" using Some r unfolding espix_history_for_def Let_def by simp_all
    then show thesis using found Some by blast
  next
    case a: None
    show thesis
    proof (cases "find_slot (\<lambda>b. \<not> claimed b) ?bs")
      case (Some k)
      then have k: "\<not> claimed (?bs ! k)" "k < HISTORY_USERS" using find_slot_Some[OF Some] len by auto
      have "i = k" "s_users h' = ?bs[k := (?bs ! k)\<lparr>huser := strlcpy ESPIX_SESSION_USER_MAX user, claimed := True, seq := s_seq h + 1\<rparr>]"
        using a Some r k unfolding espix_history_for_def Let_def by auto
      with k show thesis using fresh by blast
    next
      case b: None
    let ?k = "oldest ?bs 0 [1..<HISTORY_USERS]"
    have k: "?k < HISTORY_USERS" by (rule oldest_range) auto
    have all: "\<forall>b \<in> set ?bs. claimed b \<and> huser b \<noteq> user" using a b by (auto simp: find_slot_None)
    have "\<forall>j < HISTORY_USERS. seq (?bs ! ?k) \<le> seq (?bs ! j)"
    proof (intro allI impI)
      fix j :: nat assume "j < HISTORY_USERS"
      then have "j \<in> insert 0 (set [1..<HISTORY_USERS])" by auto
      then show "seq (?bs ! ?k) \<le> seq (?bs ! j)" using oldest_min by blast
    qed
    moreover have "huser (?bs ! ?k) \<noteq> user" using all k len nth_mem[of ?k ?bs] by simp
    moreover from this have "i = ?k" "s_users h' = ?bs[?k := (?bs ! ?k)\<lparr>entries := [], huser := strlcpy ESPIX_SESSION_USER_MAX user, claimed := True,
         seq := s_seq h + 1\<rparr>]"
      using r a b k len by (auto simp: espix_history_for_def Let_def history_free_locked_def)
    ultimately show thesis using k all by (intro recycled) simp_all
  qed
  qed
qed

section \<open>Properties\<close>

text \<open>
  C32. The history a user walks is what they typed: over any lines given to an empty list, the entries
  are those worth keeping, newest first, a repeat of the newest not added again, never more than sixteen, and
  neither a line that starts with a space nor the password command is ever among them.
\<close>

theorem history_expected:
  assumes "i < length (s_users h)" "entries (s_users h ! i) = []"
  shows "entries (s_users (fold (\<lambda>l g. espix_history_push True g i l) lines h) ! i) = expected lines"
proof -
  have "entries (s_users (fold (\<lambda>l g. espix_history_push True g i l) lines h) ! i) =
      fold (\<lambda>l es. push_entries True es l) lines (entries (s_users h ! i))"
    using assms(1) by (induction lines arbitrary: h) (simp_all add: espix_history_push_def)
  with assms(2) show ?thesis by (simp add: pushes_expected)
qed

definition no_histories :: histories where
  "no_histories = \<lparr>s_users = replicate HISTORY_USERS \<lparr>huser = [], claimed = False, seq = 0, entries = []\<rparr>, s_seq = 0\<rparr>"

theorem history_expected_witness:
  "entries (s_users (fold (\<lambda>l g. espix_history_push True g 0 l) [''ls'', '' secret'', ''ls'', ''passwd x'', ''ps''] no_histories) ! 0)
     = [''ps'', ''ls'']"
  using history_expected[of 0 no_histories "[''ls'', '' secret'', ''ls'', ''passwd x'', ''ps'']"]
  by (simp add: no_histories_def expected_def keepable_def history_is_private_def starts_with_def cchar_def NUL_def)

text \<open>
  A fifth user takes the bucket claimed first, emptied, and every other user keeps theirs. Nobody
  tells a session of the user who had it: what that session goes on to type lands in the list of the new owner.
\<close>

theorem history_recycled:
  assumes ok: "histories_ok h" and full: "\<forall>b \<in> set (s_users h). claimed b \<and> huser b \<noteq> user"
    and u: "length user < ESPIX_SESSION_USER_MAX" and r: "espix_history_for h user = (i, h')" and k: "keepable line"
  shows "huser (s_users h ! i) \<noteq> user \<and> huser (s_users h' ! i) = user \<and> entries (s_users h' ! i) = []
    \<and> (\<forall>j. j \<noteq> i \<longrightarrow> s_users h' ! j = s_users h ! j)
    \<and> entries (s_users (espix_history_push True h' i line) ! i) = [line]"
proof -
  from ok r show ?thesis
  proof (cases rule: history_for_cases)
    case found
    then show ?thesis using find_slot_Some[OF found(1)] full nth_mem by metis
  next
    case fresh
    then show ?thesis using full ok by (auto simp: histories_ok_def)
  next
    case recycled
    have i: "i < length (s_users h)" using ok recycled(2) by (simp add: histories_ok_def)
    then show ?thesis using full recycled(4) u k
      by (auto simp: espix_history_push_def push_entries_def keepable_def)
  qed
qed

definition four_users :: histories where
  "four_users = snd (espix_history_for (snd (espix_history_for (snd (espix_history_for (snd (espix_history_for no_histories ''ann''))
     ''bob'')) ''cat'')) ''dan'')"

theorem history_recycled_witness:
  "entries (s_users (espix_history_push True (snd (espix_history_for four_users ''eve'')) 0 ''ls'') ! 0) = [''ls'']"
proof -
  have f: "s_users four_users = [\<lparr>huser = ''ann'', claimed = True, seq = 1, entries = []\<rparr>, \<lparr>huser = ''bob'', claimed = True, seq = 2, entries = []\<rparr>,
      \<lparr>huser = ''cat'', claimed = True, seq = 3, entries = []\<rparr>, \<lparr>huser = ''dan'', claimed = True, seq = 4, entries = []\<rparr>]"
    by (simp add: four_users_def no_histories_def espix_history_for_def Let_def numeral_eq_Suc)
  have "histories_ok four_users" by (auto simp: histories_ok_def f less_Suc_eq numeral_eq_Suc)
  moreover have "fst (espix_history_for four_users ''eve'') = 0"
    by (simp add: espix_history_for_def Let_def f upt_rec history_free_locked_def)
  ultimately show ?thesis
    using history_recycled[of four_users "''eve''" 0 "snd (espix_history_for four_users ''eve'')" "''ls''"] f
    by (simp add: keepable_def history_is_private_def starts_with_def cchar_def NUL_def prod_eq_iff)
qed

end
