(* ===== verification/Shell_Words.thy ===== *)
theory Shell_Words
  imports Shell_Env
begin

text \<open>
  The words of a command line, \<^verbatim>\<open>components/espix_shell/session.c\<close>: \<^verbatim>\<open>espix_split_argv\<close>, which
  writes the words back over the line it reads, and \<^verbatim>\<open>expand_token\<close>, which fills a second buffer.

  The line is a buffer: a list of bytes with the NUL in it. Reading or writing outside it is
  \<open>None\<close>. The read position \<open>p\<close> and the write position \<open>out\<close> are offsets into the same buffer,
  and every byte is read again where the code reads it again, so what a write does to a later read shows.
\<close>

section \<open>The code\<close>

abbreviation ESPIX_LINE_MAX :: nat where "ESPIX_LINE_MAX \<equiv> 256"
abbreviation ESPIX_ARGS_MAX :: nat where "ESPIX_ARGS_MAX \<equiv> 16"

definition QUOTE :: char where "QUOTE = CHR 0x27"
definition DQUOTE :: char where "DQUOTE = CHR 0x22"
definition BSLASH :: char where "BSLASH = CHR 0x5C"
definition DOLLAR :: char where "DOLLAR = CHR ''$''"

definition blank :: "char \<Rightarrow> bool" where
  "blank c \<longleftrightarrow> c = CHR '' '' \<or> c = CHR 0x09 \<or> c = CHR 0x0A"

definition peek :: "char list \<Rightarrow> nat \<Rightarrow> char option" where
  "peek buf i = (if i < length buf then Some (buf ! i) else None)"

definition poke :: "char list \<Rightarrow> nat \<Rightarrow> char \<Rightarrow> char list option" where
  "poke buf i c = (if i < length buf then Some (buf[i := c]) else None)"

text \<open>\<^verbatim>\<open>*out++ = *p++\<close>.\<close>

definition copy_byte :: "char list \<Rightarrow> nat \<Rightarrow> nat \<Rightarrow> char list option" where
  "copy_byte buf p out = Option.bind (peek buf p) (poke buf out)"

lemma peek_Some: "peek buf i = Some c \<longleftrightarrow> i < length buf \<and> c = buf ! i"
  by (auto simp: peek_def)

lemma poke_Some: "poke buf i c = Some b \<longleftrightarrow> i < length buf \<and> b = buf[i := c]"
  by (auto simp: poke_def)

lemma copy_byte_Some: "copy_byte buf p out = Some b \<longleftrightarrow> p < length buf \<and> out < length buf \<and> b = buf[out := buf ! p]"
  by (auto simp: copy_byte_def peek_def poke_def split: if_splits)

function skip_blanks :: "char list \<Rightarrow> nat \<Rightarrow> nat option" where
  "skip_blanks buf p =
     (case peek buf p of
        None \<Rightarrow> None
      | Some c \<Rightarrow> if blank c then skip_blanks buf (p + 1) else Some p)"
  by pat_completeness auto
termination by (relation "measure (\<lambda>(buf, p). length buf - p)") (auto simp: peek_Some)

text \<open>Inside single quotes.\<close>

function single_quoted :: "char list \<Rightarrow> nat \<Rightarrow> nat \<Rightarrow> (char list \<times> nat \<times> nat) option" where
  "single_quoted buf p out =
     (case peek buf p of
        None \<Rightarrow> None
      | Some c \<Rightarrow>
          if c = NUL \<or> c = QUOTE then Some (buf, p, out)
          else
            (case (if c = DOLLAR then poke buf out BSLASH else Some buf) of
               None \<Rightarrow> None
             | Some b1 \<Rightarrow>
                 (let out1 = (if c = DOLLAR then out + 1 else out) in
                  case copy_byte b1 p out1 of
                    None \<Rightarrow> None
                  | Some b2 \<Rightarrow> single_quoted b2 (p + 1) (out1 + 1))))"
  by pat_completeness auto
termination
  by (relation "measure (\<lambda>(buf, p, out). length buf - p)") (auto simp: peek_Some poke_Some copy_byte_Some split: if_splits)

text \<open>Inside double quotes.\<close>

function double_quoted :: "char list \<Rightarrow> nat \<Rightarrow> nat \<Rightarrow> (char list \<times> nat \<times> nat) option" where
  "double_quoted buf p out =
     (case peek buf p of
        None \<Rightarrow> None
      | Some c \<Rightarrow>
          if c = NUL \<or> c = DQUOTE then Some (buf, p, out)
          else
            (let p1 = (if c = BSLASH \<and> (peek buf (p + 1) = Some DQUOTE \<or> peek buf (p + 1) = Some BSLASH) then p + 1 else p) in
             case copy_byte buf p1 out of
               None \<Rightarrow> None
             | Some b1 \<Rightarrow> double_quoted b1 (p1 + 1) (out + 1)))"
  by pat_completeness auto
termination
  by (relation "measure (\<lambda>(buf, p, out). length buf - p)") (auto simp: peek_Some copy_byte_Some split: if_splits)

declare skip_blanks.simps [simp del] single_quoted.simps [simp del] double_quoted.simps [simp del]

lemma single_quoted_length: "single_quoted buf p out = Some (b, q, r) \<Longrightarrow> length b = length buf \<and> p \<le> q \<and> q < length buf"
proof (induction buf p out rule: single_quoted.induct)
  case (1 buf p out)
  from 1(2) obtain c where c: "peek buf p = Some c" by (subst (asm) single_quoted.simps) (auto split: option.splits)
  show ?case
  proof (cases "c = NUL \<or> c = QUOTE")
    case True
    then show ?thesis using 1(2) c by (subst (asm) single_quoted.simps) (auto simp: peek_Some)
  next
    case False
    then obtain b1 b2 where b: "(if c = DOLLAR then poke buf out BSLASH else Some buf) = Some b1"
      "copy_byte b1 p (if c = DOLLAR then out + 1 else out) = Some b2"
      "single_quoted b2 (p + 1) ((if c = DOLLAR then out + 1 else out) + 1) = Some (b, q, r)"
      using 1(2) c by (subst (asm) single_quoted.simps) (auto simp: Let_def split: option.splits)
    have "length b2 = length buf" using b(1,2) by (auto simp: poke_Some copy_byte_Some split: if_splits)
    with 1(1)[OF c False b(1) refl b(2) b(3)] show ?thesis by auto
  qed
qed

lemma double_quoted_length: "double_quoted buf p out = Some (b, q, r) \<Longrightarrow> length b = length buf \<and> p \<le> q \<and> q < length buf"
proof (induction buf p out rule: double_quoted.induct)
  case (1 buf p out)
  from 1(2) obtain c where c: "peek buf p = Some c" by (subst (asm) double_quoted.simps) (auto split: option.splits)
  show ?case
  proof (cases "c = NUL \<or> c = DQUOTE")
    case True
    then show ?thesis using 1(2) c by (subst (asm) double_quoted.simps) (auto simp: peek_Some)
  next
    case False
    let ?p1 = "if c = BSLASH \<and> (peek buf (p + 1) = Some DQUOTE \<or> peek buf (p + 1) = Some BSLASH) then p + 1 else p"
    obtain b1 where b: "copy_byte buf ?p1 out = Some b1" "double_quoted b1 (?p1 + 1) (out + 1) = Some (b, q, r)"
      using 1(2) c False by (subst (asm) double_quoted.simps) (auto simp: Let_def split: option.splits)
    have "length b1 = length buf" using b(1) by (auto simp: copy_byte_Some)
    with 1(1)[OF c False refl b(1) b(2)] show ?thesis by (auto split: if_splits)
  qed
qed

text \<open>One word, up to a blank or the end.\<close>

function one_word :: "char list \<Rightarrow> nat \<Rightarrow> nat \<Rightarrow> (char list \<times> nat \<times> nat) option" where
  "one_word buf p out =
     (case peek buf p of
        None \<Rightarrow> None
      | Some c \<Rightarrow>
          if c = NUL \<or> blank c then Some (buf, p, out)
          else if c = QUOTE then
            (case single_quoted buf (p + 1) out of
               None \<Rightarrow> None
             | Some (b1, q, out1) \<Rightarrow> one_word b1 (if peek b1 q = Some QUOTE then q + 1 else q) out1)
          else if c = DQUOTE then
            (case double_quoted buf (p + 1) out of
               None \<Rightarrow> None
             | Some (b1, q, out1) \<Rightarrow> one_word b1 (if peek b1 q = Some DQUOTE then q + 1 else q) out1)
          else
            (case copy_byte buf p out of
               None \<Rightarrow> None
             | Some b1 \<Rightarrow> one_word b1 (p + 1) (out + 1)))"
  by pat_completeness auto
termination
proof (relation "measure (\<lambda>(buf, p, out). length buf - p)", goal_cases)
  case (2 buf p out c x b1 y q out1)
  then have "single_quoted buf (p + 1) out = Some (b1, q, out1)" by simp
  from single_quoted_length[OF this] 2(1) show ?case by (auto simp: peek_Some)
next
  case (3 buf p out c x b1 y q out1)
  then have "double_quoted buf (p + 1) out = Some (b1, q, out1)" by simp
  from double_quoted_length[OF this] 3(1) show ?case by (auto simp: peek_Some)
next
  case (4 buf p out c b1)
  then show ?case by (auto simp: peek_Some copy_byte_Some)
qed simp

declare one_word.simps [simp del]

text \<open>The offsets of the words, and the buffer they are in.\<close>

function split_loop :: "char list \<Rightarrow> nat \<Rightarrow> nat \<Rightarrow> nat \<Rightarrow> (char list \<times> nat list) option" where
  "split_loop buf p out room =
     (case peek buf p of
        None \<Rightarrow> None
      | Some c \<Rightarrow>
          if c = NUL \<or> room = 0 then Some (buf, [])
          else
            (case skip_blanks buf p of
               None \<Rightarrow> None
             | Some p1 \<Rightarrow>
                 if peek buf p1 = Some NUL then Some (buf, [])
                 else
                   (case one_word buf p1 out of
                      None \<Rightarrow> None
                    | Some (b1, q, out1) \<Rightarrow>
                        (case poke b1 out1 NUL of
                           None \<Rightarrow> None
                         | Some b2 \<Rightarrow>
                             (case split_loop b2 (if peek b1 q \<noteq> Some NUL then q + 1 else q) (out1 + 1) (room - 1) of
                                None \<Rightarrow> None
                              | Some (b, ws) \<Rightarrow> Some (b, out # ws))))))"
  by pat_completeness auto
termination by (relation "measure (\<lambda>(buf, p, out, room). room)") auto

declare split_loop.simps [simp del]

definition espix_split_argv :: "char list \<Rightarrow> nat \<Rightarrow> (char list \<times> nat list) option" where
  "espix_split_argv line argv_size = split_loop line 0 0 argv_size"

text \<open>The C string at an offset.\<close>

definition str_at :: "char list \<Rightarrow> nat \<Rightarrow> string" where
  "str_at buf i = takeWhile (\<lambda>c. c \<noteq> NUL) (drop i buf)"

section \<open>What the words should be\<close>

text \<open>A dollar from single quotes keeps a backslash for the expansion.\<close>

definition esc :: "string \<Rightarrow> string" where
  "esc xs = concat (map (\<lambda>c. if c = DOLLAR then [BSLASH, DOLLAR] else [c]) xs)"

definition sq_in :: "string \<Rightarrow> string" where "sq_in xs = takeWhile (\<lambda>c. c \<noteq> QUOTE) xs"
definition sq_after :: "string \<Rightarrow> string" where "sq_after xs = drop 1 (dropWhile (\<lambda>c. c \<noteq> QUOTE) xs)"

fun dq :: "string \<Rightarrow> string \<times> string" where
  "dq [] = ([], [])"
| "dq (c # cs) =
     (if c = DQUOTE then ([], cs)
      else if c = BSLASH \<and> cs \<noteq> [] \<and> (hd cs = DQUOTE \<or> hd cs = BSLASH) then
        (let (o1, r) = dq (tl cs) in (hd cs # o1, r))
      else (let (o1, r) = dq cs in (c # o1, r)))"

lemma dq_shorter: "length (snd (dq xs)) \<le> length xs"
  by (induction xs rule: dq.induct) (auto simp: case_prod_beta Let_def)

lemma sq_after_shorter: "length (sq_after xs) \<le> length xs"
  by (simp add: sq_after_def) (metis diff_le_self length_dropWhile_le order_trans)

function word_of :: "string \<Rightarrow> string \<times> string" where
  "word_of [] = ([], [])"
| "word_of (c # cs) =
     (if blank c then ([], c # cs)
      else if c = QUOTE then (let (w, r) = word_of (sq_after cs) in (esc (sq_in cs) @ w, r))
      else if c = DQUOTE then (let (w, r) = word_of (snd (dq cs)) in (fst (dq cs) @ w, r))
      else (let (w, r) = word_of cs in (c # w, r)))"
  by pat_completeness auto
termination
  by (relation "measure length") (auto simp: le_imp_less_Suc sq_after_shorter dq_shorter)

text \<open>The first \<open>room\<close> words of a line.\<close>

fun words_of :: "nat \<Rightarrow> string \<Rightarrow> string list" where
  "words_of 0 xs = []"
| "words_of (Suc room) xs =
     (let ys = dropWhile blank xs in
      if ys = [] then [] else (let (w, r) = word_of ys in w # words_of room (drop 1 r)))"

text \<open>No single-quoted part has more than one dollar.\<close>

function quotes_safe :: "string \<Rightarrow> bool" where
  "quotes_safe [] = True"
| "quotes_safe (c # cs) =
     (if c = QUOTE then count_list (sq_in cs) DOLLAR \<le> 1 \<and> quotes_safe (sq_after cs)
      else if c = DQUOTE then quotes_safe (snd (dq cs))
      else quotes_safe cs)"
  by pat_completeness auto
termination
  by (relation "measure length") (auto simp: le_imp_less_Suc sq_after_shorter dq_shorter)

section \<open>The write position never passes the read position\<close>

text \<open>\<open>b\<close> is \<open>buf\<close> with \<open>w\<close> written at \<open>out\<close> and nothing changed from \<open>q\<close> on.\<close>

definition wrote :: "char list \<Rightarrow> nat \<Rightarrow> string \<Rightarrow> nat \<Rightarrow> char list \<Rightarrow> bool" where
  "wrote buf out w q b \<longleftrightarrow>
     length b = length buf \<and> take (out + length w) b = take out buf @ w \<and> drop q b = drop q buf"

definition text_at :: "char list \<Rightarrow> nat \<Rightarrow> string \<Rightarrow> bool" where
  "text_at buf p xs \<longleftrightarrow> NUL \<notin> set xs \<and> (\<exists>junk. drop p buf = xs @ NUL # junk)"

lemma wrote_Nil: "wrote buf out [] q buf"
  by (simp add: wrote_def)

lemma wrote_trans:
  "wrote buf out w q b \<Longrightarrow> wrote b (out + length w) v r c \<Longrightarrow> q \<le> r \<Longrightarrow> wrote buf out (w @ v) r c"
  unfolding wrote_def by (metis append.assoc add.assoc drop_drop le_add_diff_inverse2 length_append)

lemma wrote_one: "out < length buf \<Longrightarrow> out < q \<Longrightarrow> wrote buf out [c] q (buf[out := c])"
  by (simp add: wrote_def take_Suc_conv_app_nth)

lemma wrote_Cons:
  assumes "out < length buf" "out < r" "wrote (buf[out := c]) (out + 1) v r b"
  shows "wrote buf out (c # v) r b"
  using wrote_trans[OF wrote_one[OF assms(1,2), of c], of v r b] assms(3) by simp

lemma text_at_len: "text_at buf p xs \<Longrightarrow> p + length xs < length buf"
proof -
  assume "text_at buf p xs"
  then obtain j where "drop p buf = xs @ NUL # j" by (auto simp: text_at_def)
  then have "length buf - p = length xs + Suc (length j)" by (metis length_append length_drop length_Cons)
  then show ?thesis by linarith
qed

lemma text_at_nth: "text_at buf p (x # xs) \<Longrightarrow> p < length buf \<and> buf ! p = x \<and> x \<noteq> NUL \<and> text_at buf (p + 1) xs"
  unfolding text_at_def
  by (auto, metis drop_eq_Nil leI list.distinct(1), metis hd_drop_conv_nth drop_eq_Nil leI list.distinct(1) list.sel(1),
      metis drop_Suc list.sel(3) tl_drop)

lemma text_at_end: "text_at buf p [] \<Longrightarrow> p < length buf \<and> buf ! p = NUL"
  unfolding text_at_def by (metis append_Nil drop_eq_Nil hd_drop_conv_nth leI list.distinct(1) list.sel(1))

lemma text_at_drop: "text_at buf p (xs @ ys) \<Longrightarrow> text_at buf (p + length xs) ys"
proof -
  assume "text_at buf p (xs @ ys)"
  then obtain j where "drop p buf = xs @ ys @ NUL # j" "NUL \<notin> set ys" by (auto simp: text_at_def)
  then have "drop (length xs) (drop p buf) = ys @ NUL # j" by simp
  then show ?thesis using \<open>NUL \<notin> set ys\<close> by (auto simp: text_at_def add.commute)
qed

lemma text_at_wrote: "text_at buf q xs \<Longrightarrow> wrote buf out w q b \<Longrightarrow> text_at b q xs"
  by (auto simp: text_at_def wrote_def)

lemma esc_simps [simp]: "esc [] = []" "esc (c # cs) = (if c = DOLLAR then [BSLASH, DOLLAR] else [c]) @ esc cs"
  by (simp_all add: esc_def)

lemma single_quoted_ok:
  assumes "text_at buf p xs" "out + count_list (sq_in xs) DOLLAR \<le> p"
  shows "\<exists>b. single_quoted buf p out = Some (b, p + length (sq_in xs), out + length (esc (sq_in xs)))
    \<and> wrote buf out (esc (sq_in xs)) (p + length (sq_in xs)) b"
  using assms
proof (induction xs arbitrary: buf p out)
  case Nil
  then show ?case using text_at_end[OF Nil(1)]
    by (subst single_quoted.simps) (simp add: peek_def sq_in_def wrote_Nil)
next
  case (Cons x xs)
  note at = text_at_nth[OF Cons.prems(1)]
  show ?case
  proof (cases "x = QUOTE")
    case True
    then show ?thesis using at by (subst single_quoted.simps) (simp add: peek_def sq_in_def wrote_Nil)
  next
    case nq: False
    then have sq: "sq_in (x # xs) = x # sq_in xs" by (simp add: sq_in_def)
    show ?thesis
    proof (cases "x = DOLLAR")
      case True
      let ?b = "buf[out := BSLASH, out + 1 := DOLLAR]"
      have o: "out < p" "out + 1 < length buf" using Cons.prems(2) True sq at by auto
      have w: "wrote buf out [BSLASH, DOLLAR] (p + 1) ?b"
        using o by (intro wrote_Cons wrote_one) simp_all
      have t: "text_at ?b (p + 1) xs" using text_at_wrote[OF _ w] at by blast
      have "out + 2 + count_list (sq_in xs) DOLLAR \<le> p + 1" using Cons.prems(2) True sq by simp
      from Cons.IH[OF t this] obtain b where b: "single_quoted ?b (p + 1) (out + 2) =
          Some (b, p + 1 + length (sq_in xs), out + 2 + length (esc (sq_in xs)))"
        "wrote ?b (out + 2) (esc (sq_in xs)) (p + 1 + length (sq_in xs)) b" by blast
      have "single_quoted buf p out = single_quoted ?b (p + 1) (out + 2)"
        using at nq True o by (subst single_quoted.simps) (simp add: peek_def poke_def copy_byte_def Let_def)
      with b wrote_trans[OF w, of "esc (sq_in xs)" "p + 1 + length (sq_in xs)" b] True sq show ?thesis by simp
    next
      case False
      let ?b = "buf[out := x]"
      have o: "out \<le> p" "out < length buf" using Cons.prems(2) at by auto
      have w: "wrote buf out [x] (p + 1) ?b" using wrote_one o by simp
      have t: "text_at ?b (p + 1) xs" using text_at_wrote[OF _ w] at by blast
      have "out + 1 + count_list (sq_in xs) DOLLAR \<le> p + 1" using Cons.prems(2) False sq by simp
      from Cons.IH[OF t this] obtain b where b: "single_quoted ?b (p + 1) (out + 1) =
          Some (b, p + 1 + length (sq_in xs), out + 1 + length (esc (sq_in xs)))"
        "wrote ?b (out + 1) (esc (sq_in xs)) (p + 1 + length (sq_in xs)) b" by blast
      have "single_quoted buf p out = single_quoted ?b (p + 1) (out + 1)"
        using at nq False o by (subst single_quoted.simps) (simp add: peek_def poke_def copy_byte_def Let_def)
      with b wrote_trans[OF w, of "esc (sq_in xs)" "p + 1 + length (sq_in xs)" b] False sq show ?thesis by simp
    qed
  qed
qed

text \<open>How far the double-quoted part reaches: the bytes before its closing quote or the end.\<close>

lemma double_quoted_ok:
  assumes "text_at buf p xs" "out \<le> p"
  shows "\<exists>b q. double_quoted buf p out = Some (b, q, out + length (fst (dq xs)))
    \<and> wrote buf out (fst (dq xs)) q b \<and> out + length (fst (dq xs)) \<le> q
    \<and> (if peek b q = Some DQUOTE then text_at b (q + 1) (snd (dq xs)) else snd (dq xs) = [] \<and> text_at b q [])"
  using assms
proof (induction xs arbitrary: buf p out rule: dq.induct)
  case 1
  then show ?case using text_at_end[OF 1(1)] by (subst double_quoted.simps) (simp add: peek_def wrote_Nil NUL_def DQUOTE_def)
next
  case (2 c cs)
  note at = text_at_nth[OF 2(3)]
  show ?case
  proof (cases "c = DQUOTE")
    case True
    then show ?thesis using at 2(4) by (subst double_quoted.simps) (simp add: peek_def wrote_Nil)
  next
    case nq: False
    show ?thesis
    proof (cases "c = BSLASH \<and> cs \<noteq> [] \<and> (hd cs = DQUOTE \<or> hd cs = BSLASH)")
      case True
      then obtain d ds where ds: "cs = d # ds" "d = DQUOTE \<or> d = BSLASH" by (cases cs) auto
      note at2 = text_at_nth[of buf "p + 1" d ds]
      have a2: "p + 1 < length buf" "buf ! (p + 1) = d" "text_at buf (p + 2) ds" using at ds at2 by auto
      let ?b = "buf[out := d]"
      have w: "wrote buf out [d] (p + 2) ?b" using wrote_one[of out buf "p + 2" d] 2(4) a2 by simp
      have t: "text_at ?b (p + 2) ds" using text_at_wrote[OF _ w] a2 by blast
      have le: "out + 1 \<le> p + 2" using 2(4) by simp
      have ih: "\<exists>b q. double_quoted ?b (p + 2) (out + 1) = Some (b, q, out + 1 + length (fst (dq ds)))
        \<and> wrote ?b (out + 1) (fst (dq ds)) q b \<and> out + 1 + length (fst (dq ds)) \<le> q
        \<and> (if peek b q = Some DQUOTE then text_at b (q + 1) (snd (dq ds)) else snd (dq ds) = [] \<and> text_at b q [])"
        by (rule 2(1)[OF nq True, unfolded ds(1) list.sel(3), OF t le])
      then obtain b q where b: "double_quoted ?b (p + 2) (out + 1) = Some (b, q, out + 1 + length (fst (dq ds)))"
        "wrote ?b (out + 1) (fst (dq ds)) q b" "out + 1 + length (fst (dq ds)) \<le> q"
        "if peek b q = Some DQUOTE then text_at b (q + 1) (snd (dq ds)) else snd (dq ds) = [] \<and> text_at b q []" by blast
      have "p + 2 \<le> q" using double_quoted_length[OF b(1)] by simp
      then have w2: "wrote buf out (d # fst (dq ds)) q b" using wrote_trans[OF w, of "fst (dq ds)" q b] b(2) by simp
      have "double_quoted buf p out = double_quoted ?b (p + 2) (out + 1)"
        using at a2 True ds nq 2(4) by (subst double_quoted.simps) (auto simp: peek_def poke_def copy_byte_def Let_def)
      then show ?thesis using b w2 nq True ds(1) by (auto simp: case_prod_beta)
    next
      case False
      let ?b = "buf[out := c]"
      have o: "out < length buf" using 2(4) at by simp
      have w: "wrote buf out [c] (p + 1) ?b" using wrote_one[of out buf "p + 1" c] 2(4) o by simp
      have t: "text_at ?b (p + 1) cs" using text_at_wrote[OF _ w] at by blast
      have le: "out + 1 \<le> p + 1" using 2(4) by simp
      from 2(2)[OF nq False t le] obtain b q where b: "double_quoted ?b (p + 1) (out + 1) = Some (b, q, out + 1 + length (fst (dq cs)))"
        "wrote ?b (out + 1) (fst (dq cs)) q b" "out + 1 + length (fst (dq cs)) \<le> q"
        "if peek b q = Some DQUOTE then text_at b (q + 1) (snd (dq cs)) else snd (dq cs) = [] \<and> text_at b q []" by blast
      have "p + 1 \<le> q" using double_quoted_length[OF b(1)] by simp
      then have w2: "wrote buf out (c # fst (dq cs)) q b" using wrote_trans[OF w, of "fst (dq cs)" q b] b(2) by simp
      have "\<not> (c = BSLASH \<and> (peek buf (p + 1) = Some DQUOTE \<or> peek buf (p + 1) = Some BSLASH))"
      proof (cases cs)
        case Nil
        then have "buf ! (p + 1) = NUL" using at text_at_end by auto
        then show ?thesis by (auto simp: peek_def NUL_def DQUOTE_def BSLASH_def)
      next
        case (Cons d ds)
        then have "buf ! (p + 1) = d" using at text_at_nth by auto
        then show ?thesis using False Cons by (auto simp: peek_def)
      qed
      then have "double_quoted buf p out = double_quoted ?b (p + 1) (out + 1)"
        using at nq o by (subst double_quoted.simps) (auto simp: peek_def poke_def copy_byte_def Let_def)
      then show ?thesis using b w2 nq False by (auto simp: case_prod_beta)
    qed
  qed
qed

lemma sq_split: "(QUOTE \<in> set cs \<and> cs = sq_in cs @ QUOTE # sq_after cs) \<or> (QUOTE \<notin> set cs \<and> sq_in cs = cs \<and> sq_after cs = [])"
proof (cases "QUOTE \<in> set cs")
  case True
  then obtain a b where ab: "cs = a @ QUOTE # b" "QUOTE \<notin> set a" by (metis split_list_first)
  then show ?thesis using takeWhile_not_in[of QUOTE a b] dropWhile_not_in[of QUOTE a b] by (simp add: sq_in_def sq_after_def)
next
  case False
  then have w: "takeWhile (\<lambda>c. c \<noteq> QUOTE) cs = cs" "dropWhile (\<lambda>c. c \<noteq> QUOTE) cs = []"
    by (auto simp: takeWhile_eq_all_conv dropWhile_eq_Nil_conv)
  show ?thesis unfolding sq_in_def sq_after_def w using False by simp
qed

lemma length_esc: "length (esc xs) = length xs + count_list xs DOLLAR"
  by (induction xs) auto

lemma peek_text: "text_at b q (x # xs) \<Longrightarrow> peek b q = Some x" "text_at b q [] \<Longrightarrow> peek b q = Some NUL"
  using text_at_nth[of b q x xs] text_at_end[of b q] by (auto simp: peek_def)

lemma after_single:
  assumes "text_at buf p cs" "wrote buf out w (p + length (sq_in cs)) b"
  shows "text_at b (if peek b (p + length (sq_in cs)) = Some QUOTE then p + length (sq_in cs) + 1 else p + length (sq_in cs)) (sq_after cs)"
  using sq_split[of cs]
proof
  assume c: "QUOTE \<in> set cs \<and> cs = sq_in cs @ QUOTE # sq_after cs"
  then have "text_at buf (p + length (sq_in cs)) (QUOTE # sq_after cs)" using text_at_drop[of buf p "sq_in cs" "QUOTE # sq_after cs"] assms(1) by simp
  then have t: "text_at b (p + length (sq_in cs)) (QUOTE # sq_after cs)" using text_at_wrote assms(2) by blast
  then show ?thesis using peek_text(1)[OF t] text_at_nth[OF t] by simp
next
  assume c: "QUOTE \<notin> set cs \<and> sq_in cs = cs \<and> sq_after cs = []"
  then have "text_at buf (p + length (sq_in cs)) []" using text_at_drop[of buf p cs "[]"] assms(1) by simp
  then have t: "text_at b (p + length (sq_in cs)) []" using text_at_wrote assms(2) by blast
  then show ?thesis using peek_text(2)[OF t] c by (simp add: NUL_def QUOTE_def)
qed

lemma one_word_ok:
  assumes "text_at buf p xs" "out \<le> p" "quotes_safe xs"
  shows "\<exists>b q. one_word buf p out = Some (b, q, out + length (fst (word_of xs)))
    \<and> wrote buf out (fst (word_of xs)) q b \<and> out + length (fst (word_of xs)) \<le> q \<and> text_at b q (snd (word_of xs)) \<and> p \<le> q"
  using assms
proof (induction xs arbitrary: buf p out rule: word_of.induct)
  case 1
  then show ?case using text_at_end[OF 1(1)] by (subst one_word.simps) (simp add: peek_def wrote_Nil)
next
  case (2 c cs)
  note at = text_at_nth[OF 2(4)]
  have step: "\<exists>b q. one_word buf p out = Some (b, q, out + length (v @ fst (word_of ys)))
      \<and> wrote buf out (v @ fst (word_of ys)) q b \<and> out + length (v @ fst (word_of ys)) \<le> q \<and> text_at b q (snd (word_of ys)) \<and> p \<le> q"
    if eq: "one_word buf p out = one_word b1 p1 (out + length v)" and w: "wrote buf out v p1 b1" and t: "text_at b1 p1 ys"
      and le: "out + length v \<le> p1" "p \<le> p1" and safe: "quotes_safe ys"
      and ih: "\<And>buf p out. text_at buf p ys \<Longrightarrow> out \<le> p \<Longrightarrow> quotes_safe ys \<Longrightarrow>
        \<exists>b q. one_word buf p out = Some (b, q, out + length (fst (word_of ys)))
        \<and> wrote buf out (fst (word_of ys)) q b \<and> out + length (fst (word_of ys)) \<le> q \<and> text_at b q (snd (word_of ys)) \<and> p \<le> q"
    for b1 p1 v ys
  proof -
    obtain b q where b: "one_word b1 p1 (out + length v) = Some (b, q, out + length v + length (fst (word_of ys)))"
      "wrote b1 (out + length v) (fst (word_of ys)) q b" "out + length v + length (fst (word_of ys)) \<le> q"
      "text_at b q (snd (word_of ys))" "p1 \<le> q" using ih[OF t le(1) safe] by blast
    then show ?thesis using eq wrote_trans[OF w b(2) b(5)] le(2) by (auto simp: add.assoc)
  qed
  show ?case
  proof (cases "blank c")
    case True
    then show ?thesis using at 2(4,5) by (subst one_word.simps) (simp add: peek_def wrote_Nil)
  next
    case nb: False
    show ?thesis
    proof (cases "c = QUOTE")
      case True
      have safe: "count_list (sq_in cs) DOLLAR \<le> 1" "quotes_safe (sq_after cs)" using 2(6) True by auto
      have "out + count_list (sq_in cs) DOLLAR \<le> p + 1" using safe(1) 2(5) by simp
      then obtain b1 where b1: "single_quoted buf (p + 1) out = Some (b1, p + 1 + length (sq_in cs), out + length (esc (sq_in cs)))"
        "wrote buf out (esc (sq_in cs)) (p + 1 + length (sq_in cs)) b1" using single_quoted_ok at by blast
      let ?q = "p + 1 + length (sq_in cs)"
      let ?p1 = "if peek b1 ?q = Some QUOTE then ?q + 1 else ?q"
      have eq: "one_word buf p out = one_word b1 ?p1 (out + length (esc (sq_in cs)))"
        using at nb True b1(1) by (subst one_word.simps) (simp add: peek_def)
      have t: "text_at b1 ?p1 (sq_after cs)" using after_single[OF _ b1(2)] at by simp
      have w: "wrote buf out (esc (sq_in cs)) ?p1 b1" using b1(2) wrote_trans[OF b1(2) wrote_Nil, of ?p1] by simp
      have le: "out + length (esc (sq_in cs)) \<le> ?p1" "p \<le> ?p1" using safe(1) 2(5) by (auto simp: length_esc)
      show ?thesis using step[OF eq w t le safe(2)] 2(1)[OF nb True] nb True by (simp add: case_prod_beta)
    next
      case nq: False
      show ?thesis
      proof (cases "c = DQUOTE")
        case True
        have safe: "quotes_safe (snd (dq cs))" using 2(6) True by (simp add: QUOTE_def DQUOTE_def)
        have "out \<le> p + 1" using 2(5) by simp
        then obtain b1 q where b1: "double_quoted buf (p + 1) out = Some (b1, q, out + length (fst (dq cs)))"
          "wrote buf out (fst (dq cs)) q b1" "out + length (fst (dq cs)) \<le> q"
          "if peek b1 q = Some DQUOTE then text_at b1 (q + 1) (snd (dq cs)) else snd (dq cs) = [] \<and> text_at b1 q []"
          using double_quoted_ok at by blast
        let ?p1 = "if peek b1 q = Some DQUOTE then q + 1 else q"
        have pq: "p + 1 \<le> q" using double_quoted_length[OF b1(1)] by simp
        have eq: "one_word buf p out = one_word b1 ?p1 (out + length (fst (dq cs)))"
          using at nb nq True b1(1) by (subst one_word.simps) (simp add: peek_def)
        have t: "text_at b1 ?p1 (snd (dq cs))" using b1(4) by (auto split: if_splits)
        have w: "wrote buf out (fst (dq cs)) ?p1 b1" using b1(2) wrote_trans[OF b1(2) wrote_Nil, of ?p1] by simp
        have le: "out + length (fst (dq cs)) \<le> ?p1" "p \<le> ?p1" using b1(3) pq by auto
        show ?thesis using step[OF eq w t le safe] 2(2)[OF nb nq True] nb nq True by (simp add: case_prod_beta)
      next
        case nd: False
        have safe: "quotes_safe cs" using 2(6) nq nd by simp
        have o: "out < length buf" using at 2(5) by simp
        have eq: "one_word buf p out = one_word (buf[out := c]) (p + 1) (out + length [c])"
          using at nb nq nd o by (subst one_word.simps) (simp add: peek_def poke_def copy_byte_def)
        have w: "wrote buf out [c] (p + 1) (buf[out := c])" using o 2(5) by (intro wrote_one) simp_all
        have t: "text_at (buf[out := c]) (p + 1) cs" using text_at_wrote[OF _ w] at by blast
        have le: "out + length [c] \<le> p + 1" "p \<le> p + 1" using 2(5) by simp_all
        show ?thesis using step[OF eq w t le safe] 2(3)[OF nb nq nd] nb nq nd by (simp add: case_prod_beta)
      qed
    qed
  qed
qed

lemma dq_set: "set (fst (dq xs)) \<union> set (snd (dq xs)) \<subseteq> set xs"
proof (induction xs rule: dq.induct)
  case (2 c cs)
  show ?case
  proof (cases "c = BSLASH \<and> cs \<noteq> [] \<and> (hd cs = DQUOTE \<or> hd cs = BSLASH)")
    case True
    then obtain d ds where ds: "cs = d # ds" by (cases cs) auto
    have nd: "c \<noteq> DQUOTE" using True by (simp add: BSLASH_def DQUOTE_def)
    have "dq (c # cs) = (d # fst (dq ds), snd (dq ds))" using True nd ds by (simp add: case_prod_beta)
    with 2(1)[OF nd True] ds show ?thesis by auto
  next
    case False
    with 2 show ?thesis by (auto simp: case_prod_beta Let_def)
  qed
qed simp

lemma esc_set: "set (esc xs) \<subseteq> insert BSLASH (set xs)"
  by (induction xs) auto

lemma sq_sets: "set (sq_in xs) \<subseteq> set xs" "set (sq_after xs) \<subseteq> set xs"
  by (auto simp: sq_in_def sq_after_def dest: set_takeWhileD in_set_dropD set_dropWhileD)

lemma word_of_no_nul: "NUL \<notin> set xs \<Longrightarrow> NUL \<notin> set (fst (word_of xs))"
proof (induction xs rule: word_of.induct)
  case (2 c cs)
  have "NUL \<noteq> BSLASH" by (simp add: NUL_def BSLASH_def)
  moreover have "NUL \<notin> set (fst (dq cs))" "NUL \<notin> set (snd (dq cs))" "NUL \<notin> set (sq_after cs)" "NUL \<notin> set (sq_in cs)"
    using 2(4) dq_set[of cs] sq_sets[of cs] by auto
  ultimately show ?case using 2 esc_set[of "sq_in cs"] by (auto simp: case_prod_beta)
qed simp

lemma word_of_rest: "snd (word_of xs) = [] \<or> (\<exists>d r. snd (word_of xs) = d # r \<and> blank d)"
  by (induction xs rule: word_of.induct) (auto simp: case_prod_beta)

lemma word_of_safe: "quotes_safe xs \<Longrightarrow> quotes_safe (snd (word_of xs))"
  by (induction xs rule: word_of.induct) (auto simp: case_prod_beta QUOTE_def DQUOTE_def)

lemma quotes_safe_blanks: "quotes_safe xs \<Longrightarrow> quotes_safe (dropWhile blank xs)"
  by (induction xs) (auto simp: blank_def QUOTE_def DQUOTE_def)

lemma not_blank: "\<not> blank NUL" by (simp add: blank_def NUL_def)

lemma skip_blanks_ok:
  "text_at buf p xs \<Longrightarrow> skip_blanks buf p = Some (p + length (takeWhile blank xs)) \<and>
     text_at buf (p + length (takeWhile blank xs)) (dropWhile blank xs)"
proof (induction xs arbitrary: p)
  case Nil
  then show ?case using text_at_end[OF Nil] not_blank by (subst skip_blanks.simps) (simp add: peek_def)
next
  case (Cons x xs)
  note at = text_at_nth[OF Cons.prems]
  show ?case
  proof (cases "blank x")
    case True
    then show ?thesis using at Cons.IH[of "p + 1"] by (subst skip_blanks.simps) (simp add: peek_def)
  next
    case False
    then show ?thesis using at Cons.prems by (subst skip_blanks.simps) (simp add: peek_def)
  qed
qed

lemma str_at_written:
  assumes "take (out + Suc (length w)) b = pre @ w @ [NUL]" "length pre = out" "NUL \<notin> set w"
  shows "str_at b out = w"
proof -
  have "b = take (out + Suc (length w)) b @ drop (out + Suc (length w)) b" by simp
  then have "b = pre @ w @ NUL # drop (out + Suc (length w)) b" using assms(1) by (metis append_assoc append_Cons append_Nil)
  then have "drop out b = w @ NUL # drop (out + Suc (length w)) b" using assms(2) by (metis append_eq_conv_conj)
  then show ?thesis using takeWhile_not_in[OF assms(3)] by (simp add: str_at_def)
qed

lemma split_loop_end: "text_at buf p [] \<Longrightarrow> split_loop buf p out room = Some (buf, [])"
  using text_at_end[of buf p] by (subst split_loop.simps) (simp add: peek_def)

lemma split_loop_ok:
  assumes "text_at buf p xs" "out \<le> p" "quotes_safe xs"
  shows "\<exists>b ws. split_loop buf p out room = Some (b, ws) \<and> length b = length buf \<and> take out b = take out buf
    \<and> map (str_at b) ws = words_of room xs"
  using assms
proof (induction room arbitrary: buf p out xs)
  case 0
  have "p < length buf" using text_at_len[OF 0(1)] by simp
  then show ?case by (subst split_loop.simps) (simp add: peek_def)
next
  case (Suc room)
  let ?ys = "dropWhile blank xs" and ?p1 = "p + length (takeWhile blank xs)"
  note sk = skip_blanks_ok[OF Suc.prems(1)]
  show ?case
  proof (cases "?ys = []")
    case True
    show ?thesis
    proof (cases xs)
      case Nil
      then show ?thesis using split_loop_end Suc.prems(1) by auto
    next
      case (Cons x xs')
      note at = text_at_nth[OF Suc.prems(1)[unfolded Cons]]
      have "text_at buf ?p1 []" using sk True by simp
      then have pk: "peek buf ?p1 = Some NUL" by (rule peek_text)
      have "split_loop buf p out (Suc room) = Some (buf, [])"
        using at sk pk by (subst split_loop.simps) (simp add: peek_def[of buf p])
      then show ?thesis using True by simp
    qed
  next
    case False
    then obtain y ys where ys: "?ys = y # ys" by (cases ?ys) auto
    obtain x xs' where x: "xs = x # xs'" using False by (cases xs) auto
    note at = text_at_nth[OF Suc.prems(1)[unfolded x]]
    have t1: "text_at buf ?p1 ?ys" using sk by simp
    have pk1: "peek buf ?p1 \<noteq> Some NUL" using t1 ys text_at_nth peek_text(1) by fastforce
    have le1: "out \<le> ?p1" using Suc.prems(2) by simp
    let ?w = "fst (word_of ?ys)" and ?r = "snd (word_of ?ys)"
    obtain b1 q where b1: "one_word buf ?p1 out = Some (b1, q, out + length ?w)" "wrote buf out ?w q b1"
      "out + length ?w \<le> q" "text_at b1 q ?r" using one_word_ok[OF t1 le1 quotes_safe_blanks[OF Suc.prems(3)]] by blast
    let ?o = "out + length ?w" and ?b2 = "b1[out + length ?w := NUL]"
    have q: "q < length b1" using text_at_len[OF b1(4)] by simp
    have pk2: "poke b1 ?o NUL = Some ?b2" using q b1(3) by (simp add: poke_def)
    let ?p2 = "if peek b1 q \<noteq> Some NUL then q + 1 else q"
    have nul: "NUL \<notin> set ?w" using t1 by (intro word_of_no_nul) (simp add: text_at_def)
    have tk: "take (Suc ?o) ?b2 = take out buf @ ?w @ [NUL]"
      using b1(2,3) q by (simp add: wrote_def take_Suc_conv_app_nth)
    have lb: "length b1 = length buf" using b1(2) by (simp add: wrote_def)
    have pre: "length (take out buf) = out" using b1(3) q lb by simp
    have loop: "split_loop buf p out (Suc room) =
        (case split_loop ?b2 ?p2 (?o + 1) room of None \<Rightarrow> None | Some (b, ws) \<Rightarrow> Some (b, out # ws))"
      using at sk pk1 b1(1) pk2 by (subst split_loop.simps) (simp add: peek_def[of buf p])
    have fin: ?thesis if r: "split_loop ?b2 ?p2 (?o + 1) room = Some (b, ws)" "length b = length ?b2"
      "take (?o + 1) b = take (?o + 1) ?b2" "map (str_at b) ws = words_of room (drop 1 ?r)" for b ws
    proof -
      have tb: "take (out + Suc (length ?w)) b = take out buf @ ?w @ [NUL]" using r(3) tk by simp
      have "str_at b out = ?w" by (rule str_at_written[OF tb pre nul])
      moreover have "take out b = take out buf"
      proof -
        have "take out b = take out (take (out + Suc (length ?w)) b)" by simp
        also have "\<dots> = take out buf" unfolding tb using pre by simp
        finally show ?thesis .
      qed
      ultimately show ?thesis using loop r lb False by (auto simp: case_prod_beta Let_def)
    qed
    show ?thesis
    proof (cases ?r)
      case Nil
      have "text_at ?b2 q []" using b1(3,4) q Nil by (cases "?o = q") (auto simp: text_at_def drop_update_cancel Cons_nth_drop_Suc[symmetric] nth_list_update)
      moreover have "?p2 = q" using peek_text(2) b1(4) Nil by simp
      ultimately show ?thesis using fin[of ?b2 "[]"] split_loop_end[of ?b2 q "?o + 1" room] Nil by (cases room) auto
    next
      case (Cons d r)
      have "peek b1 q = Some d" "d \<noteq> NUL" "text_at b1 (q + 1) r" using b1(4) Cons text_at_nth peek_text(1) by force+
      then have p2: "?p2 = q + 1" "text_at ?b2 (q + 1) r" using b1(3) by (auto simp: text_at_def)
      have "quotes_safe ?r" by (intro word_of_safe quotes_safe_blanks Suc.prems(3))
      moreover have "blank d" using word_of_rest[of ?ys] Cons by auto
      ultimately have "quotes_safe r" using Cons by (auto simp: blank_def QUOTE_def DQUOTE_def)
      with Suc.IH[OF p2(2), of "?o + 1"] b1(3) obtain b ws where "split_loop ?b2 (q + 1) (?o + 1) room = Some (b, ws)"
        "length b = length ?b2" "take (?o + 1) b = take (?o + 1) ?b2" "map (str_at b) ws = words_of room r" by auto
      then show ?thesis using fin[of b ws] p2(1) Cons by simp
    qed
  qed
qed

section \<open>When it does pass it\<close>

lemma single_quoted_runaway:
  assumes "p < length buf" "buf ! p \<noteq> NUL" "buf ! p \<noteq> QUOTE" "buf ! p \<noteq> DOLLAR"
  shows "single_quoted buf p (p + 1) = None"
  using assms
proof (induction "length buf - p" arbitrary: buf p)
  case (Suc n)
  show ?case
  proof (cases "p + 1 < length buf")
    case True
    let ?b = "buf[p + 1 := buf ! p]"
    have "single_quoted buf p (p + 1) = single_quoted ?b (p + 1) (p + 1 + 1)"
      using Suc.prems True by (subst single_quoted.simps) (simp add: peek_def poke_def copy_byte_def Let_def)
    also have "\<dots> = None" using Suc.hyps Suc.prems True by (intro Suc.hyps(1)) simp_all
    finally show ?thesis .
  next
    case False
    then show ?thesis using Suc.prems by (subst single_quoted.simps) (simp add: peek_def poke_def copy_byte_def Let_def)
  qed
qed simp

lemma single_quoted_dollar:
  assumes "p < length buf" "buf ! p = DOLLAR"
  shows "single_quoted buf p p = None"
proof (cases "p + 1 < length buf")
  case True
  let ?b = "buf[p := BSLASH, p + 1 := BSLASH]"
  have d: "DOLLAR \<noteq> NUL" "DOLLAR \<noteq> QUOTE" "BSLASH \<noteq> NUL" "BSLASH \<noteq> QUOTE" "BSLASH \<noteq> DOLLAR"
    by (simp_all add: DOLLAR_def NUL_def QUOTE_def BSLASH_def)
  have "single_quoted buf p p = single_quoted ?b (p + 1) (p + 1 + 1)"
    using assms True d by (subst single_quoted.simps) (simp add: peek_def poke_def copy_byte_def Let_def)
  also have "\<dots> = None" using True d by (intro single_quoted_runaway) simp_all
  finally show ?thesis .
next
  case False
  have d: "DOLLAR \<noteq> NUL" "DOLLAR \<noteq> QUOTE" by (simp_all add: DOLLAR_def NUL_def QUOTE_def)
  with False assms show ?thesis by (subst single_quoted.simps) (simp add: peek_def poke_def copy_byte_def Let_def)
qed

lemma drop_nth: "drop p buf = x # rest \<Longrightarrow> p < length buf \<and> buf ! p = x \<and> drop (p + 1) buf = rest"
  by (metis drop_eq_Nil leI list.distinct(1) hd_drop_conv_nth list.sel(1) drop_Suc list.sel(3) tl_drop Suc_eq_plus1)

lemma single_quoted_plain:
  assumes "drop p buf = a @ rest" "\<forall>c \<in> set a. c \<noteq> NUL \<and> c \<noteq> QUOTE \<and> c \<noteq> DOLLAR" "out \<le> p"
  shows "\<exists>b. single_quoted buf p out = single_quoted b (p + length a) (out + length a) \<and> drop (p + length a) b = rest \<and> length b = length buf"
  using assms
proof (induction a arbitrary: buf p out)
  case (Cons x a)
  have p: "p < length buf" "buf ! p = x" "drop (p + 1) buf = a @ rest" using Cons.prems(1) drop_nth by force+
  have x: "x \<noteq> NUL" "x \<noteq> QUOTE" "x \<noteq> DOLLAR" using Cons.prems(2) by auto
  let ?b = "buf[out := x]"
  have "single_quoted buf p out = single_quoted ?b (p + 1) (out + 1)"
    using p x Cons.prems(3) by (subst single_quoted.simps) (simp add: peek_def poke_def copy_byte_def Let_def)
  moreover have "drop (p + 1) ?b = a @ rest" using p(3) Cons.prems(3) by simp
  ultimately show ?case using Cons.IH[of "p + 1" ?b "out + 1"] Cons.prems(2,3) by simp
qed auto

lemma one_word_plain:
  assumes "drop p buf = a @ rest" "\<forall>c \<in> set a. c \<noteq> NUL \<and> \<not> blank c \<and> c \<noteq> QUOTE \<and> c \<noteq> DQUOTE"
  shows "one_word buf p p = one_word buf (p + length a) (p + length a)"
  using assms
proof (induction a arbitrary: p)
  case (Cons x a)
  have p: "p < length buf" "buf ! p = x" "drop (p + 1) buf = a @ rest" using Cons.prems(1) drop_nth by force+
  have x: "x \<noteq> NUL" "x \<noteq> QUOTE" "x \<noteq> DQUOTE" "\<not> blank x" using Cons.prems(2) by auto
  have "buf[p := x] = buf" using p(2) list_update_id[of buf p] by simp
  then have "one_word buf p p = one_word buf (p + 1) (p + 1)"
    using p x by (subst one_word.simps) (simp add: peek_def poke_def copy_byte_def)
  then show ?case using Cons.IH[OF p(3)] Cons.prems(2) by simp
qed simp

text \<open>One dollar uses up the byte the opening quote left; the second one has none.\<close>

lemma single_quoted_two_dollars:
  assumes d: "drop p buf = a @ DOLLAR # c @ DOLLAR # rest" and out: "out + 1 = p"
    and ac: "\<forall>x \<in> set a \<union> set c. x \<noteq> NUL \<and> x \<noteq> QUOTE \<and> x \<noteq> DOLLAR"
  shows "single_quoted buf p out = None"
proof -
  have dl: "DOLLAR \<noteq> NUL" "DOLLAR \<noteq> QUOTE" by (simp_all add: DOLLAR_def NUL_def QUOTE_def)
  obtain b where b: "single_quoted buf p out = single_quoted b (p + length a) (out + length a)"
    "drop (p + length a) b = DOLLAR # c @ DOLLAR # rest"
    using single_quoted_plain[OF d, of out] ac out by auto
  define q where "q = p + length a"
  have q: "q < length b" "b ! q = DOLLAR" "drop (q + 1) b = c @ DOLLAR # rest" "out + length a + 1 = q"
    using drop_nth[OF b(2)] out by (simp_all add: q_def)
  let ?b = "b[out + length a := BSLASH, q := DOLLAR]"
  have "single_quoted b q (out + length a) = single_quoted ?b (q + 1) (q + 1)"
    using q dl by (subst single_quoted.simps) (simp add: peek_def poke_def copy_byte_def Let_def flip: q(4))
  moreover have "drop (q + 1) ?b = c @ DOLLAR # rest" using q by simp
  then obtain b' where b': "single_quoted ?b (q + 1) (q + 1) = single_quoted b' (q + 1 + length c) (q + 1 + length c)"
    "drop (q + 1 + length c) b' = DOLLAR # rest"
    using single_quoted_plain[of "q + 1" ?b c _ "q + 1"] ac by auto
  moreover have "single_quoted b' (q + 1 + length c) (q + 1 + length c) = None"
    using drop_nth[OF b'(2)] by (intro single_quoted_dollar) auto
  ultimately show ?thesis using b(1) by (simp add: q_def)
qed



text \<open>
  C7. On every line that has at most one dollar in each single-quoted part, \<^verbatim>\<open>espix_split_argv\<close>
  ends inside its buffer and leaves there, at the offsets it stored, the words a reading of the line gives:
  blanks separate, single quotes keep everything but mark a dollar, double quotes take a backslash before
  a quote or a backslash, an unclosed quote runs to the end.
\<close>

theorem split_argv_words:
  assumes "text_at buf 0 line" "quotes_safe line"
  shows "\<exists>b ws. espix_split_argv buf argv_size = Some (b, ws) \<and> length b = length buf \<and>
           map (str_at b) ws = words_of argv_size line"
  using split_loop_ok[OF assms(1) _ assms(2), of 0 argv_size] by (auto simp: espix_split_argv_def)

theorem split_argv_words_witness:
  "\<exists>b ws. espix_split_argv (''a  \"b c\"'' @ NUL # []) 16 = Some (b, ws) \<and> map (str_at b) ws = [''a'', ''b c'']"
proof -
  have l: "text_at (''a  \"b c\"'' @ NUL # []) 0 ''a  \"b c\"''" by (auto simp: text_at_def NUL_def)
  have q: "quotes_safe ''a  \"b c\"''" by (simp add: QUOTE_def DQUOTE_def BSLASH_def)
  have "words_of 16 ''a  \"b c\"'' = [''a'', ''b c'']"
    by (simp add: numeral_eq_Suc blank_def QUOTE_def DQUOTE_def BSLASH_def)
  then show ?thesis using split_argv_words[OF l q, of 16] by auto
qed

end
