(* ===== verification/Shell_Expand.thy ===== *)
theory Shell_Expand
  imports Shell_Words
begin

text \<open>
  The expansion of a word, \<^verbatim>\<open>components/espix_shell/session.c\<close>: \<^verbatim>\<open>expand_token\<close> replaces
  \<^verbatim>\<open>$NAME\<close>, \<^verbatim>\<open>${NAME}\<close>, \<^verbatim>\<open>$?\<close> and \<^verbatim>\<open>$$\<close> into a second buffer and refuses
  when the result does not fit. A word from single quotes has its dollars marked with a backslash and comes back as typed.
\<close>

section \<open>Expansion\<close>

text \<open>\<^verbatim>\<open>snprintf("%d")\<close>.\<close>

fun dec_nat :: "nat \<Rightarrow> string" where
  "dec_nat n = (if n < 10 then [char_of (48 + n)] else dec_nat (n div 10) @ [char_of (48 + n mod 10)])"

declare dec_nat.simps [simp del]

definition dec :: "int \<Rightarrow> string" where
  "dec v = (if v < 0 then CHR ''-'' # dec_nat (nat (- v)) else dec_nat (nat v))"

text \<open>The name after \<open>$\<close> or \<open>${\<close>, of at most 32 bytes, and the text after it.\<close>

fun scan_name :: "nat \<Rightarrow> string \<Rightarrow> string \<times> string" where
  "scan_name 0 xs = ([], xs)"
| "scan_name (Suc room) [] = ([], [])"
| "scan_name (Suc room) (c # cs) =
     (if name_char c then (let (n, r) = scan_name room cs in (c # n, r)) else ([], c # cs))"

lemma scan_name_append: "fst (scan_name room xs) @ snd (scan_name room xs) = xs"
  by (induction room xs rule: scan_name.induct) (auto simp: case_prod_beta Let_def)

lemma scan_name_shorter: "length (snd (scan_name room xs)) \<le> length xs"
  by (metis scan_name_append length_append le_add2)

text \<open>The variable a dollar before \<open>cs\<close> names, and what follows it; \<open>None\<close> when the dollar stands for itself.\<close>

definition dollar_name :: "string \<Rightarrow> (string \<times> string) option" where
  "dollar_name cs =
     (let brace = (cs \<noteq> [] \<and> hd cs = CHR ''{'');
          nq = scan_name ESPIX_ENV_NAME_MAX (if brace then tl cs else cs)
      in if fst nq = [] \<or> (brace \<and> (snd nq = [] \<or> hd (snd nq) \<noteq> CHR ''}'')) then None
         else Some (fst nq, if brace then tl (snd nq) else snd nq))"

lemma dollar_name_shorter: "dollar_name cs = Some (n, r) \<Longrightarrow> length r \<le> length cs"
  using scan_name_shorter[of 32 cs] scan_name_shorter[of 32 "tl cs"]
  by (auto simp: dollar_name_def Let_def split: if_splits)

text \<open>\<open>get\<close> is \<^verbatim>\<open>espix_env_get()\<close>, \<open>st\<close> the last status and \<open>pid\<close> the shell's; \<open>acc\<close> is what
  the output buffer of \<open>len\<close> bytes holds so far.\<close>

function expand_loop :: "(string \<Rightarrow> string option) \<Rightarrow> int \<Rightarrow> int \<Rightarrow> nat \<Rightarrow> string \<Rightarrow> string \<Rightarrow> string option" where
  "expand_loop get st pid len acc [] = Some acc"
| "expand_loop get st pid len acc (c # cs) =
     (if c = BSLASH \<and> cs \<noteq> [] \<and> hd cs = DOLLAR then
        (if len \<le> length acc + 1 then None else expand_loop get st pid len (acc @ [DOLLAR]) (tl cs))
      else if c \<noteq> DOLLAR \<or> cs = [] then
        (if len \<le> length acc + 1 then None else expand_loop get st pid len (acc @ [c]) cs)
      else if hd cs = CHR ''?'' \<or> hd cs = DOLLAR then
        (let num = dec (if hd cs = CHR ''?'' then st else if 0 < pid then pid else 0) in
         if len \<le> length acc + length num then None else expand_loop get st pid len (acc @ num) (tl cs))
      else
        (case dollar_name cs of
           None \<Rightarrow> if len \<le> length acc + 1 then None else expand_loop get st pid len (acc @ [c]) cs
         | Some (name, q) \<Rightarrow>
             (case get name of
                None \<Rightarrow> expand_loop get st pid len acc q
              | Some val \<Rightarrow>
                  if len \<le> length acc + length val then None else expand_loop get st pid len (acc @ val) q)))"
  by pat_completeness auto
termination
  by (relation "measure (\<lambda>(get, st, pid, len, acc, xs). length xs)") (auto dest: dollar_name_shorter simp: less_Suc_eq_le)

declare expand_loop.simps(2) [simp del]

definition expand_token :: "(string \<Rightarrow> string option) \<Rightarrow> int \<Rightarrow> int \<Rightarrow> string \<Rightarrow> nat \<Rightarrow> string option" where
  "expand_token get st pid xs len = expand_loop get st pid len [] xs"

text \<open>What comes out fits its buffer with the NUL.\<close>

lemma expand_loop_fits: "expand_loop get st pid len acc xs = Some out \<Longrightarrow> length acc < len \<Longrightarrow> length out < len"
proof (induction get st pid len acc xs rule: expand_loop.induct)
  case (2 get st pid len acc c cs)
  note IH = 2(1-6) and p = 2(7,8)
  consider (esc) "c = BSLASH \<and> cs \<noteq> [] \<and> hd cs = DOLLAR"
    | (plain) "\<not> (c = BSLASH \<and> cs \<noteq> [] \<and> hd cs = DOLLAR)" "c \<noteq> DOLLAR \<or> cs = []"
    | (num) "\<not> (c = BSLASH \<and> cs \<noteq> [] \<and> hd cs = DOLLAR)" "\<not> (c \<noteq> DOLLAR \<or> cs = [])" "hd cs = CHR ''?'' \<or> hd cs = DOLLAR"
    | (name) "\<not> (c = BSLASH \<and> cs \<noteq> [] \<and> hd cs = DOLLAR)" "\<not> (c \<noteq> DOLLAR \<or> cs = [])" "\<not> (hd cs = CHR ''?'' \<or> hd cs = DOLLAR)"
    by argo
  then show ?case
  proof cases
    case esc
    with p have "expand_loop get st pid len (acc @ [DOLLAR]) (tl cs) = Some out" "length acc + 1 < len"
      by (simp_all only: expand_loop.simps if_True) (simp_all split: if_splits)
    with IH(1)[OF esc] show ?thesis by simp
  next
    case plain
    with p have "expand_loop get st pid len (acc @ [c]) cs = Some out" "length acc + 1 < len"
      by (simp_all only: expand_loop.simps if_True if_False) (simp_all split: if_splits)
    with IH(2)[OF plain] show ?thesis by simp
  next
    case num
    let ?n = "dec (if hd cs = CHR ''?'' then st else if 0 < pid then pid else 0)"
    from num p have "expand_loop get st pid len (acc @ ?n) (tl cs) = Some out" "length acc + length ?n < len"
      by (simp_all only: expand_loop.simps if_True if_False Let_def) (simp_all split: if_splits)
    with IH(3)[OF num refl] show ?thesis by simp
  next
    case name
    show ?thesis
    proof (cases "dollar_name cs")
      case None
      with name p have "expand_loop get st pid len (acc @ [c]) cs = Some out" "length acc + 1 < len"
        by (simp_all only: expand_loop.simps if_False option.case) (simp_all split: if_splits)
      with IH(4)[OF name None] show ?thesis by simp
    next
      case (Some nq)
      obtain n q where nq: "nq = (n, q)" by (cases nq)
      show ?thesis
      proof (cases "get n")
        case None
        with name p Some nq have "expand_loop get st pid len acc q = Some out"
          by (simp only: expand_loop.simps if_False option.case prod.case)
        with IH(5)[OF name Some nq[symmetric] None] p(2) show ?thesis by simp
      next
        case v: (Some val)
        with name p Some nq have "expand_loop get st pid len (acc @ val) q = Some out" "length acc + length val < len"
          by (simp_all only: expand_loop.simps if_False option.case prod.case) (simp_all split: if_splits)
        with IH(6)[OF name Some nq[symmetric] v] show ?thesis by simp
      qed
    qed
  qed
qed simp

lemma expand_esc:
  "length acc + length xs < len \<Longrightarrow> expand_loop get st pid len acc (esc xs) = Some (acc @ xs)"
proof (induction xs arbitrary: acc)
  case (Cons c cs)
  show ?case
  proof (cases "c = DOLLAR")
    case True
    then have e: "esc (c # cs) = BSLASH # DOLLAR # esc cs" by (simp add: esc_def)
    show ?thesis using Cons.prems Cons.IH[of "acc @ [DOLLAR]"] True unfolding e by (subst expand_loop.simps) simp
  next
    case False
    then have e: "esc (c # cs) = c # esc cs" by (simp add: esc_def)
    have "\<not> (c = BSLASH \<and> esc cs \<noteq> [] \<and> hd (esc cs) = DOLLAR)"
      by (cases cs) (auto simp: esc_def BSLASH_def DOLLAR_def)
    then show ?thesis using Cons.prems Cons.IH[of "acc @ [c]"] False unfolding e by (subst expand_loop.simps) auto
  qed
qed (simp add: esc_def)


text \<open>
  C34. Single quotes keep what they enclose: a word written between single quotes, with at most one
  dollar in it and whatever blanks, double quotes and backslashes, comes out of the splitting and the expansion
  as it was typed, whatever variables are set, when the expansion has room for it.
\<close>

theorem quoted_word_literal:
  assumes "text_at buf 0 (QUOTE # xs @ [QUOTE])" "QUOTE \<notin> set xs" "count_list xs DOLLAR \<le> 1"
    and "0 < argv_size" "length xs < len"
  shows "\<exists>b w. espix_split_argv buf argv_size = Some (b, [w]) \<and> expand_token get st pid (str_at b w) len = Some xs"
proof -
  have q: "sq_in (xs @ [QUOTE]) = xs" "sq_after (xs @ [QUOTE]) = []"
    using assms(2) by (auto simp: sq_in_def sq_after_def takeWhile_not_in dropWhile_not_in)
  have nb: "\<not> blank QUOTE" by (simp add: blank_def QUOTE_def)
  obtain k where k: "argv_size = Suc k" using assms(4) by (cases argv_size) auto
  have "word_of (QUOTE # xs @ [QUOTE]) = (esc xs, [])" using nb q by simp
  then have w: "words_of argv_size (QUOTE # xs @ [QUOTE]) = [esc xs]" using nb by (cases k) (simp_all add: k)
  have "quotes_safe (QUOTE # xs @ [QUOTE])" using q assms(3) by simp
  from split_loop_ok[OF assms(1) _ this, of 0 argv_size] obtain b ws
    where b: "espix_split_argv buf argv_size = Some (b, ws)" "map (str_at b) ws = [esc xs]"
    using w by (auto simp: espix_split_argv_def)
  from b(2) obtain w where "ws = [w]" "str_at b w = esc xs" by auto
  then show ?thesis using b(1) expand_esc[of "[]" xs len get st pid] assms(5) by (auto simp: expand_token_def)
qed

theorem quoted_word_literal_witness:
  "\<exists>b w. espix_split_argv (QUOTE # ''a $b'' @ [QUOTE] @ NUL # []) 16 = Some (b, [w]) \<and>
     expand_token (\<lambda>_. Some ''x'') 0 7 (str_at b w) 16 = Some ''a $b''"
  using quoted_word_literal[of "QUOTE # ''a $b'' @ [QUOTE] @ NUL # []" "''a $b''" 16 16 "\<lambda>_. Some ''x''" 0 7]
  by (auto simp: text_at_def NUL_def QUOTE_def DOLLAR_def)

end
