(* ===== verification/Shell_Line.thy ===== *)
theory Shell_Line
  imports Shell_Expand Fs_Path "HOL-Library.Multiset"
begin

text \<open>
  One command line, \<^verbatim>\<open>components/espix_shell/session.c\<close>: redirections, one-shot assignments, the background
  operator, dispatch to a builtin, a process or a program, pipelines, and the sequence operators.

  The state is the session and what the line touches outside it: the open \<^verbatim>\<open>FILE\<close>s, by number, and the
  diagnostics printed, each with where it went. Builtins, the program loader, the process table and the
  outcome of \<^verbatim>\<open>fopen\<close>, \<^verbatim>\<open>fclose\<close> and allocations are arguments. An access outside \<^verbatim>\<open>argv\<close> or
  a line buffer is \<open>None\<close>.
\<close>

section \<open>Session and diagnostics\<close>

abbreviation ESPIX_SHELL_ENOENT :: int where "ESPIX_SHELL_ENOENT \<equiv> - 127"
abbreviation ESPIX_SHELL_EMPTY :: int where "ESPIX_SHELL_EMPTY \<equiv> - 1"
abbreviation ESPIX_SESSION_JOBS :: nat where "ESPIX_SESSION_JOBS \<equiv> 4"
abbreviation ESPIX_JOB_NAME_MAX :: nat where "ESPIX_JOB_NAME_MAX \<equiv> 24"
abbreviation PIPE_MAX_STAGES :: nat where "PIPE_MAX_STAGES \<equiv> 4"

record job =
  j_pid :: int
  j_name :: string

record sess =
  s_env :: "env option"
  s_last :: int
  s_pid :: int
  s_background :: bool
  s_redirect :: "nat option"
  s_redirect_err :: "nat option"
  s_redirect_in :: "nat option"
  s_err_to_out :: bool
  s_jobs :: "job list"
  s_cwd :: string
  s_home :: string
  s_user :: string
  s_uid :: nat
  s_write :: bool
  s_write_err :: bool
  s_on_shell :: bool

datatype sink = To_File nat | To_Write | To_Write_Err | To_Stdout | To_Stderr | Nowhere

datatype diag =
    Bad_Descriptor | Too_Many_Words | No_Background_Redirect | Unexpected string | Needs_Target string
  | Path_Too_Long string | Input_Twice string | Cannot_Read string | Twice string | Cannot_Write string
  | Write_Failed string | Line_Too_Long | Value_Too_Long | Too_Many_Variables | Cannot_Set string
  | Cannot_Start string | No_Job_Memory string | No_Job_Slot int | No_Background_Assign | Not_Found string
  | Too_Many_Pipes | No_Background_Pipe | No_Process_Table | Builtins_Only string | No_Pipe_Memory | No_Stage
  | Job_Started int string

record shell =
  cur :: sess
  files :: "nat list"
  next_file :: nat
  said :: "(sink \<times> diag) list"

definition with_cur :: "(sess \<Rightarrow> sess) \<Rightarrow> shell \<Rightarrow> shell" where
  "with_cur f st = st\<lparr>cur := f (cur st)\<rparr>"

text \<open>Where \<^verbatim>\<open>session_out\<close> and \<^verbatim>\<open>session_err\<close> put what they are given; \<open>stopping\<close> is
  \<^verbatim>\<open>proc_stopping()\<close>.\<close>

definition session_out :: "bool \<Rightarrow> sess \<Rightarrow> sink" where
  "session_out stopping s =
     (case s_redirect s of
        Some f \<Rightarrow> To_File f
      | None \<Rightarrow> if \<not> s_write s then To_Stdout else if stopping then Nowhere else To_Write)"

definition session_err :: "bool \<Rightarrow> sess \<Rightarrow> sink" where
  "session_err stopping s =
     (if s_err_to_out s then session_out stopping s
      else (case s_redirect_err s of
              Some f \<Rightarrow> To_File f
            | None \<Rightarrow> if stopping then Nowhere else if s_write_err s then To_Write_Err
                     else if \<not> s_write s then To_Stderr else To_Write))"

section \<open>What the line runs\<close>

type_synonym body = "shell \<Rightarrow> (int \<times> shell) option"

record cmd =
  c_name :: string
  c_fn :: "string list \<Rightarrow> shell \<Rightarrow> int \<times> shell"
  c_shell :: bool
  c_backgrounds :: bool
  c_internal :: bool

text \<open>\<^verbatim>\<open>espix_shell_proc_ops_t\<close>. A process runs its body on the session of the line, or on the copy it is
  given, in the foreground or not and in the group of the number given; \<open>spawn\<close> answers the error, the pid and the group.\<close>

record proc_ops =
  p_spawn :: "string \<Rightarrow> bool \<Rightarrow> int \<Rightarrow> sess option \<Rightarrow> body \<Rightarrow> shell \<Rightarrow> esp_err \<times> int \<times> int \<times> shell"
  p_wait :: "int \<Rightarrow> shell \<Rightarrow> int \<times> shell"
  p_alive :: "int \<Rightarrow> bool"

datatype fmode = Rb | Wb | Ab

record shell_ops =
  o_find :: "string \<Rightarrow> cmd option"
  o_fallback :: "(string list \<Rightarrow> shell \<Rightarrow> int \<times> shell) option"
  o_proc :: "proc_ops option"
  o_getenv :: "string \<Rightarrow> string option"
  o_mem :: "env option \<Rightarrow> nat \<Rightarrow> bool"
  o_job_mem :: bool
  o_pipe_mem :: "nat \<Rightarrow> bool"
  o_stage_mem :: bool
  o_fopen :: "shell \<Rightarrow> string \<Rightarrow> fmode \<Rightarrow> bool"
  o_fclose :: "nat \<Rightarrow> bool"
  o_stopping :: bool
  o_stack :: "nat \<Rightarrow> char"

definition espix_eprintf :: "shell_ops \<Rightarrow> diag \<Rightarrow> shell \<Rightarrow> shell" where
  "espix_eprintf ops d st = st\<lparr>said := said st @ [(session_err (o_stopping ops) (cur st), d)]\<rparr>"

definition espix_printf :: "shell_ops \<Rightarrow> diag \<Rightarrow> shell \<Rightarrow> shell" where
  "espix_printf ops d st = st\<lparr>said := said st @ [(session_out (o_stopping ops) (cur st), d)]\<rparr>"

definition fopen :: "shell_ops \<Rightarrow> string \<Rightarrow> fmode \<Rightarrow> shell \<Rightarrow> nat option \<times> shell" where
  "fopen ops path m st =
     (if o_fopen ops st path m
      then (Some (next_file st), st\<lparr>files := next_file st # files st, next_file := Suc (next_file st)\<rparr>)
      else (None, st))"

definition fclose :: "nat \<Rightarrow> shell \<Rightarrow> shell" where
  "fclose f st = st\<lparr>files := remove1 f (files st)\<rparr>"

section \<open>Redirections\<close>

record redirects =
  r_out :: "(nat \<times> string) option"
  r_err :: "(nat \<times> string) option"
  r_in :: "(nat \<times> string) option"
  r_err_to_out :: bool

definition no_redirects :: redirects where
  "no_redirects = \<lparr>r_out = None, r_err = None, r_in = None, r_err_to_out = False\<rparr>"

datatype attached = Att_No | Att_Split string string | Att_Bad_Fd | Att_Full | Att_Overrun

text \<open>\<open>argc\<close> counts the words after the \<open>assigned\<close> ones; the array has 16 entries for all of them.\<close>

definition take_attached :: "nat \<Rightarrow> nat \<Rightarrow> string \<Rightarrow> attached" where
  "take_attached assigned argc tok =
     (let (fd, x) = (if tok \<noteq> [] \<and> is_digit (hd tok) then (int (of_char (hd tok)) - 48, tl tok) else (- 1, tok));
          split = (\<lambda>op target.
            if target = [] then Att_No
            else if ESPIX_ARGS_MAX \<le> argc + 1 then Att_Full
            else if ESPIX_ARGS_MAX \<le> assigned + argc then Att_Overrun
            else Att_Split op target)
      in if cchar x 0 = CHR ''<'' then (if 0 < fd then Att_Bad_Fd else split ''<'' (drop 1 x))
         else if cchar x 0 = CHR ''>'' \<and> cchar x 1 = CHR ''>'' then
           (if 2 < fd \<or> fd = 0 then Att_Bad_Fd else split (if fd = 2 then ''2>>'' else ''>>'') (drop 2 x))
         else if cchar x 0 = CHR ''>'' then
           (if cchar x 1 = CHR ''&'' then Att_No
            else if 2 < fd \<or> fd = 0 then Att_Bad_Fd else split (if fd = 2 then ''2>'' else ''>'') (drop 1 x))
         else Att_No)"

text \<open>One redirection to a target: the file is opened, or the line refused.\<close>

definition open_target :: "shell_ops \<Rightarrow> string \<Rightarrow> string \<Rightarrow> redirects \<Rightarrow> shell \<Rightarrow> bool \<times> redirects \<times> shell" where
  "open_target ops tok target r st =
     (case espix_fs_resolve (Some (s_cwd (cur st))) (Some target) (Some (replicate ESPIX_PATH_MAX NUL)) of
        Inl _ \<Rightarrow> (False, r, espix_eprintf ops (Path_Too_Long target) st)
      | Inr buf \<Rightarrow>
          (let path = cstr_of buf in
           if tok = ''<'' then
             (if r_in r \<noteq> None then (False, r, espix_eprintf ops (Input_Twice tok) st)
              else (case fopen ops path Rb st of
                      (None, st1) \<Rightarrow> (False, r, espix_eprintf ops (Cannot_Read path) st1)
                    | (Some f, st1) \<Rightarrow> (True, r\<lparr>r_in := Some (f, target)\<rparr>, st1)))
           else
             (let to_out = (tok = ''>'' \<or> tok = ''>>'');
                  m = (if tok = ''>>'' \<or> tok = ''2>>'' then Ab else Wb)
              in if (if to_out then r_out r else r_err r) \<noteq> None then (False, r, espix_eprintf ops (Twice tok) st)
                 else (case fopen ops path m st of
                         (None, st1) \<Rightarrow> (False, r, espix_eprintf ops (Cannot_Write path) st1)
                       | (Some f, st1) \<Rightarrow>
                           (True, if to_out then r\<lparr>r_out := Some (f, target)\<rparr> else r\<lparr>r_err := Some (f, target)\<rparr>, st1)))))"

definition needs_target :: "string \<Rightarrow> bool" where
  "needs_target tok \<longleftrightarrow> tok \<in> {''>'', ''>>'', ''2>'', ''2>>'', ''<''}"

text \<open>The words before the first redirection, or nothing for -1; with what was opened either way.\<close>

function redirect_loop ::
    "shell_ops \<Rightarrow> nat \<Rightarrow> nat \<Rightarrow> string list \<Rightarrow> bool \<Rightarrow> redirects \<Rightarrow> shell \<Rightarrow> string list \<Rightarrow>
     (string list option \<times> redirects \<times> shell) option" where
  "redirect_loop ops assigned argc ws seen r st [] = Some (Some ws, r, st)"
| "redirect_loop ops assigned argc ws seen r st (t # ts) =
     (let att = take_attached assigned argc t;
          (tok, rest, argc1) = (case att of Att_Split op target \<Rightarrow> (op, target # ts, argc + 1) | _ \<Rightarrow> (t, ts, argc))
      in if att = Att_Overrun then None
         else if att = Att_Bad_Fd then Some (None, r, espix_eprintf ops Bad_Descriptor st)
         else if att = Att_Full then Some (None, r, espix_eprintf ops Too_Many_Words st)
         else if \<not> needs_target tok \<and> tok \<noteq> ''2>&1'' then
           (if seen then
              Some (None, r, espix_eprintf ops (if tok = ''&'' \<and> rest = [] then No_Background_Redirect else Unexpected tok) st)
            else redirect_loop ops assigned argc1 (ws @ [tok]) False r st ts)
         else if tok = ''2>&1'' then redirect_loop ops assigned argc1 ws True (r\<lparr>r_err_to_out := True\<rparr>) st ts
         else
           (case rest of
              [] \<Rightarrow> Some (None, r, espix_eprintf ops (Needs_Target tok) st)
            | target # more_toks \<Rightarrow>
                (case open_target ops tok target r st of
                   (ok, r1, st1) \<Rightarrow>
                     if ok then redirect_loop ops assigned argc1 ws True r1 st1 more_toks else Some (None, r1, st1))))"
  by pat_completeness auto
termination
  by (relation "measure (\<lambda>(ops, assigned, argc, ws, seen, r, st, ts). length ts)") (auto split: attached.splits)

declare redirect_loop.simps(2) [simp del]

definition take_redirects ::
    "shell_ops \<Rightarrow> nat \<Rightarrow> string list \<Rightarrow> shell \<Rightarrow> (string list option \<times> redirects \<times> shell) option" where
  "take_redirects ops assigned av st = redirect_loop ops assigned (length av) [] False no_redirects st av"

definition redirects_apply :: "redirects \<Rightarrow> shell \<Rightarrow> shell" where
  "redirects_apply r =
     with_cur (\<lambda>s. s\<lparr>s_redirect := (case r_out r of Some (f, _) \<Rightarrow> Some f | None \<Rightarrow> s_redirect s),
       s_redirect_err := (case r_err r of Some (f, _) \<Rightarrow> Some f | None \<Rightarrow> s_redirect_err s),
       s_redirect_in := (case r_in r of Some (f, _) \<Rightarrow> Some f | None \<Rightarrow> s_redirect_in s),
       s_err_to_out := r_err_to_out r\<rparr>)"

text \<open>A close that fails is where a buffered write is lost; it is reported.\<close>

definition close_reported :: "shell_ops \<Rightarrow> (nat \<times> string) option \<Rightarrow> shell \<Rightarrow> shell" where
  "close_reported ops r st =
     (case r of
        None \<Rightarrow> st
      | Some (f, name) \<Rightarrow>
          (let st1 = fclose f st in if o_fclose ops f then st1 else espix_eprintf ops (Write_Failed name) st1))"

definition redirects_release :: "shell_ops \<Rightarrow> redirects \<Rightarrow> shell \<Rightarrow> shell" where
  "redirects_release ops r st =
     (let st1 = with_cur (\<lambda>s. s\<lparr>s_redirect := (if r_out r \<noteq> None then None else s_redirect s),
                   s_redirect_err := (if r_err r \<noteq> None then None else s_redirect_err s),
                   s_redirect_in := (if r_in r \<noteq> None then None else s_redirect_in s),
                   s_err_to_out := False\<rparr>) st;
          st2 = (case r_in r of None \<Rightarrow> st1 | Some (f, _) \<Rightarrow> fclose f st1)
      in close_reported ops (r_err r) (close_reported ops (r_out r) st2))"

section \<open>Assignments\<close>

fun split_eq :: "string \<Rightarrow> (string \<times> string) option" where
  "split_eq [] = None"
| "split_eq (c # cs) =
     (if c = CHR ''='' then Some ([], cs)
      else (case split_eq cs of None \<Rightarrow> None | Some (n, v) \<Rightarrow> Some (c # n, v)))"

text \<open>\<^verbatim>\<open>NAME=value\<close>, with a name the shell accepts.\<close>

definition assignment :: "string \<Rightarrow> (string \<times> string) option" where
  "assignment w =
     (case split_eq w of
        None \<Rightarrow> None
      | Some (n, v) \<Rightarrow> if n = [] \<or> \<not> espix_env_name_ok n then None else Some (n, v))"

text \<open>How many words were taken, or nothing for -1.\<close>

fun take_assignments :: "shell_ops \<Rightarrow> nat \<Rightarrow> scope \<Rightarrow> shell \<Rightarrow> string list \<Rightarrow> nat option \<times> scope \<times> shell" where
  "take_assignments ops taken sc st [] = (Some taken, sc, st)"
| "take_assignments ops taken sc st (w # ws) =
     (case assignment w of
        None \<Rightarrow> (Some taken, sc, st)
      | Some (n, v) \<Rightarrow>
          (case espix_env_scope_set (o_mem ops (s_env (cur st))) (s_env (cur st)) sc n v of
             (err, e1, sc1) \<Rightarrow>
               (let st1 = with_cur (\<lambda>s. s\<lparr>s_env := e1\<rparr>) st in
                if err \<noteq> ESP_OK
                then (None, sc1, espix_eprintf ops (if err = ESP_ERR_INVALID_SIZE then Value_Too_Long else Too_Many_Variables) st1)
                else take_assignments ops (Suc taken) sc1 st1 ws)))"

definition scope_end :: "scope \<Rightarrow> shell \<Rightarrow> shell" where
  "scope_end sc = with_cur (\<lambda>s. s\<lparr>s_env := espix_env_scope_end (s_env s) sc\<rparr>)"

text \<open>A line of assignments only: each is kept as a shell variable.\<close>

fun keep_assignments :: "shell_ops \<Rightarrow> scope \<Rightarrow> shell \<Rightarrow> string list \<Rightarrow> scope \<times> shell" where
  "keep_assignments ops sc st [] = (sc, st)"
| "keep_assignments ops sc st (w # ws) =
     (case split_eq w of
        None \<Rightarrow> keep_assignments ops sc st ws
      | Some (n, v) \<Rightarrow>
          (case espix_env_scope_keep (s_env (cur st)) sc n of
             (err, e1, sc1) \<Rightarrow>
               (let st1 = with_cur (\<lambda>s. s\<lparr>s_env := e1\<rparr>) st in
                keep_assignments ops sc1 (if err = ESP_OK then st1 else espix_eprintf ops (Cannot_Set n) st1) ws)))"

section \<open>Jobs\<close>

definition no_job :: job where "no_job = \<lparr>j_pid = 0, j_name = []\<rparr>"

definition espix_shell_jobs_prune :: "shell_ops \<Rightarrow> sess \<Rightarrow> sess" where
  "espix_shell_jobs_prune ops s =
     s\<lparr>s_jobs := map (\<lambda>j. if 0 < j_pid j \<and> (case o_proc ops of None \<Rightarrow> True | Some p \<Rightarrow> \<not> p_alive p (j_pid j))
                        then no_job else j) (s_jobs s)\<rparr>"

definition espix_shell_job_add :: "shell_ops \<Rightarrow> sess \<Rightarrow> int \<Rightarrow> string \<Rightarrow> bool \<times> sess" where
  "espix_shell_job_add ops s pid name =
     (if pid \<le> 0 then (False, s)
      else
        (let s1 = espix_shell_jobs_prune ops s in
         case find_slot (\<lambda>j. j_pid j \<le> 0) (s_jobs s1) of
           None \<Rightarrow> (False, s1)
         | Some i \<Rightarrow> (True, s1\<lparr>s_jobs := (s_jobs s1)[i := \<lparr>j_pid = pid, j_name = strlcpy ESPIX_JOB_NAME_MAX name\<rparr>]\<rparr>)))"

definition espix_shell_job_clear :: "sess \<Rightarrow> nat \<Rightarrow> sess" where
  "espix_shell_job_clear s slot =
     (if ESPIX_SESSION_JOBS \<le> slot then s else s\<lparr>s_jobs := (s_jobs s)[slot := no_job]\<rparr>)"

text \<open>A builtin in the background runs on a copy of the session.\<close>

definition start_background_job :: "shell_ops \<Rightarrow> proc_ops \<Rightarrow> cmd \<Rightarrow> string list \<Rightarrow> shell \<Rightarrow> int \<times> shell" where
  "start_background_job ops p c av st =
     (if \<not> o_job_mem ops then (1, espix_eprintf ops (No_Job_Memory (hd av)) st)
      else
        (case p_spawn p (c_name c) False 0 (Some ((cur st)\<lparr>s_background := False\<rparr>)) (\<lambda>s. Some (c_fn c av s)) st of
           (err, pid, _, st1) \<Rightarrow>
             if err \<noteq> ESP_OK then (1, espix_eprintf ops (Cannot_Start (hd av)) st1)
             else
               (let st2 = espix_printf ops (Job_Started pid (hd av)) st1;
                    (ok, s3) = espix_shell_job_add ops (cur st2) pid (hd av);
                    st3 = st2\<lparr>cur := s3\<rparr>
                in (0, if ok then st3 else espix_eprintf ops (No_Job_Slot pid) st3))))"

definition run_as_process :: "shell_ops \<Rightarrow> proc_ops \<Rightarrow> cmd \<Rightarrow> string list \<Rightarrow> shell \<Rightarrow> int \<times> shell" where
  "run_as_process ops p c av st =
     (case p_spawn p (c_name c) True 0 None (\<lambda>s. Some (c_fn c av s)) st of
        (err, pid, _, st1) \<Rightarrow>
          if err \<noteq> ESP_OK then (1, espix_eprintf ops (Cannot_Start (c_name c)) st1)
          else (case p_wait p pid st1 of (status, st2) \<Rightarrow> (if status < 0 then 1 else status, st2)))"

section \<open>One command\<close>

text \<open>\<^verbatim>\<open>scratch\<close>: 256 bytes of stack with the line copied in, cut to fit.\<close>

definition scratch :: "shell_ops \<Rightarrow> string \<Rightarrow> char list" where
  "scratch ops line =
     (let l = strlcpy ESPIX_LINE_MAX line in
      map (\<lambda>i. if i < length l then l ! i else if i = length l then NUL else o_stack ops i) [0..<ESPIX_LINE_MAX])"

fun expand_words :: "shell_ops \<Rightarrow> sess \<Rightarrow> nat \<Rightarrow> string list \<Rightarrow> string list option" where
  "expand_words ops s used [] = Some []"
| "expand_words ops s used (w # ws) =
     (if ESPIX_LINE_MAX \<le> used then None
      else (case expand_token (espix_env_get (o_getenv ops) (s_env s)) (s_last s) (s_pid s) w (ESPIX_LINE_MAX - used) of
              None \<Rightarrow> None
            | Some x \<Rightarrow>
                (case expand_words ops s (used + length x + 1) ws of None \<Rightarrow> None | Some xs \<Rightarrow> Some (x # xs))))"

text \<open>The dispatch of a command, with its redirections in place.\<close>

definition dispatch :: "shell_ops \<Rightarrow> nat \<Rightarrow> string list \<Rightarrow> shell \<Rightarrow> int \<times> shell" where
  "dispatch ops assigned av st =
     (case o_find ops (hd av) of
        None \<Rightarrow> (case o_fallback ops of None \<Rightarrow> (ESPIX_SHELL_ENOENT, st) | Some fn \<Rightarrow> fn av st)
      | Some c \<Rightarrow>
          (case o_proc ops of
             None \<Rightarrow> c_fn c av st
           | Some p \<Rightarrow>
               if s_background (cur st) \<and> \<not> c_backgrounds c then
                 (if 0 < assigned then (1, espix_eprintf ops No_Background_Assign st)
                  else start_background_job ops p c av st)
               else if c_shell c \<or> (\<not> s_on_shell (cur st) \<and> \<not> c_internal c) then c_fn c av st
               else run_as_process ops p c av st))"

text \<open>From the words after the assignments on. Terminating the words writes the array entry after them.\<close>

definition run_words :: "shell_ops \<Rightarrow> nat \<Rightarrow> scope \<Rightarrow> string list \<Rightarrow> shell \<Rightarrow> (int \<times> shell) option" where
  "run_words ops assigned sc words st =
     (case take_redirects ops assigned words st of
        None \<Rightarrow> None
      | Some (None, r, st1) \<Rightarrow> Some (1, scope_end sc (redirects_release ops r st1))
      | Some (Some [], r, st1) \<Rightarrow> Some (ESPIX_SHELL_EMPTY, scope_end sc (redirects_release ops r st1))
      | Some (Some av, r, st1) \<Rightarrow>
          if ESPIX_ARGS_MAX \<le> assigned + length av then None
          else
            (let prev = s_background (cur st1);
                 bg = (1 < length av \<and> last av = ''&'');
                 av1 = (if bg then butlast av else av);
                 st2 = with_cur (\<lambda>s. s\<lparr>s_background := bg\<rparr>) st1
             in if o_find ops (hd av1) = None \<and> o_fallback ops = None then
                  Some (ESPIX_SHELL_ENOENT,
                        scope_end sc (redirects_release ops r (with_cur (\<lambda>s. s\<lparr>s_background := prev\<rparr>) st2)))
                else
                  (case dispatch ops assigned av1 (redirects_apply r st2) of
                     (status, st3) \<Rightarrow>
                       (let st4 = (if status = ESPIX_SHELL_ENOENT then espix_eprintf ops (Not_Found (hd av1)) st3 else st3)
                        in Some (status, with_cur (\<lambda>s. s\<lparr>s_background := prev\<rparr>)
                                           (scope_end sc (redirects_release ops r st4)))))))"

definition exec_argv :: "shell_ops \<Rightarrow> string list \<Rightarrow> shell \<Rightarrow> (int \<times> shell) option" where
  "exec_argv ops words st =
     (if words = [] then Some (ESPIX_SHELL_EMPTY, st)
      else
        (case expand_words ops (cur st) 0 words of
           None \<Rightarrow> Some (1, espix_eprintf ops Line_Too_Long st)
         | Some argv \<Rightarrow>
             (case take_assignments ops 0 espix_env_scope_init st argv of
                (None, sc, st1) \<Rightarrow> Some (1, scope_end sc st1)
              | (Some assigned, sc, st1) \<Rightarrow>
                  if assigned = length argv then
                    (case keep_assignments ops sc st1 argv of (sc1, st2) \<Rightarrow> Some (0, scope_end sc1 st2))
                  else run_words ops assigned sc (drop assigned argv) st1)))"

definition exec_one :: "shell_ops \<Rightarrow> string \<Rightarrow> shell \<Rightarrow> (int \<times> shell) option" where
  "exec_one ops line st =
     (case espix_split_argv (scratch ops line) ESPIX_ARGS_MAX of
        None \<Rightarrow> None
      | Some (b, ws) \<Rightarrow> exec_argv ops (map (str_at b) ws) st)"

section \<open>Pipelines\<close>

definition is_quote :: "char \<Rightarrow> bool" where "is_quote c \<longleftrightarrow> c = QUOTE \<or> c = DQUOTE"

text \<open>A quoted part up to and with its closing quote, and what follows.\<close>

fun quoted :: "char \<Rightarrow> string \<Rightarrow> string \<times> string" where
  "quoted q [] = ([], [])"
| "quoted q [c] = ([c], [])"
| "quoted q (c # d # cs) =
     (if c = q then ([c], d # cs)
      else if q = DQUOTE \<and> c = BSLASH then (case quoted q cs of (a, r) \<Rightarrow> (c # d # a, r))
      else (case quoted q (d # cs) of (a, r) \<Rightarrow> (c # a, r)))"

lemma quoted_append: "fst (quoted q xs) @ snd (quoted q xs) = xs"
  by (induction q xs rule: quoted.induct) (auto split: prod.splits)

lemma quoted_shorter: "length (snd (quoted q xs)) \<le> length xs"
  by (metis quoted_append length_append le_add2)

text \<open>The stages between the unquoted bars.\<close>

function split_stages :: "string \<Rightarrow> string \<Rightarrow> string list" where
  "split_stages acc [] = [acc]"
| "split_stages acc (c # cs) =
     (if is_quote c then split_stages (acc @ c # fst (quoted c cs)) (snd (quoted c cs))
      else if c = CHR ''|'' then acc # split_stages [] cs
      else split_stages (acc @ [c]) cs)"
  by pat_completeness auto
termination by (relation "measure (\<lambda>(acc, xs). length xs)") (auto simp: le_imp_less_Suc quoted_shorter)

definition is_space :: "char \<Rightarrow> bool" where "is_space c \<longleftrightarrow> c = CHR '' '' \<or> c = CHR 0x09"

definition stage_wants_background :: "string \<Rightarrow> bool" where
  "stage_wants_background stage =
     (let r = dropWhile is_space (rev stage) in
      r \<noteq> [] \<and> hd r = CHR ''&'' \<and> (tl r = [] \<or> is_space (hd (tl r))))"

definition first_token :: "string \<Rightarrow> nat \<Rightarrow> string" where
  "first_token line len = take (len - 1) (takeWhile (\<lambda>c. \<not> is_space c) (dropWhile is_space line))"

text \<open>The two ends of each pipe, as file numbers; allocation stops at the first pipe there is no memory for.\<close>

fun make_pipes :: "shell_ops \<Rightarrow> nat \<Rightarrow> nat \<Rightarrow> shell \<Rightarrow> (nat \<times> nat) list \<times> bool \<times> shell" where
  "make_pipes ops i 0 st = ([], True, st)"
| "make_pipes ops i (Suc n) st =
     (if \<not> o_pipe_mem ops i then ([], False, st)
      else
        (let f = next_file st;
             st1 = st\<lparr>files := f # Suc f # files st, next_file := Suc (Suc f)\<rparr>;
             (ps, ok, st2) = make_pipes ops (Suc i) n st1
         in ((f, Suc f) # ps, ok, st2)))"

definition close_pipes :: "(nat \<times> nat) list \<Rightarrow> shell \<Rightarrow> shell" where
  "close_pipes ps st = foldl (\<lambda>s (wr, rd). fclose rd (fclose wr s)) st ps"

text \<open>A stage's process: the line, then its end of the pipe closed.\<close>

definition pipe_stage :: "shell_ops \<Rightarrow> string \<Rightarrow> nat option \<Rightarrow> body" where
  "pipe_stage ops line wr st =
     (case exec_one ops line st of
        None \<Rightarrow> None
      | Some (status, st1) \<Rightarrow>
          Some (status, case wr of None \<Rightarrow> st1 | Some f \<Rightarrow> with_cur (\<lambda>s. s\<lparr>s_redirect := None\<rparr>) (fclose f st1)))"

text \<open>The stages started, up to the first that cannot be; the pids, last first.\<close>

fun start_stages ::
    "shell_ops \<Rightarrow> proc_ops \<Rightarrow> (nat \<times> nat) list \<Rightarrow> nat \<Rightarrow> int \<Rightarrow> int list \<Rightarrow> (string \<times> cmd option) list \<Rightarrow> shell \<Rightarrow> int list \<times> bool \<times> shell" where
  "start_stages ops p ps i pgid pids [] st = (pids, True, st)"
| "start_stages ops p ps i pgid pids ((line, c) # stages) st =
     (let s = cur st;
          wr = (if stages = [] then None else Some (fst (ps ! i)));
          copy = s\<lparr>s_redirect := (if stages = [] then s_redirect s else wr),
                   s_redirect_in := (if 0 < i then Some (snd (ps ! (i - 1))) else s_redirect_in s),
                   s_err_to_out := (stages = [] \<and> s_err_to_out s)\<rparr>
      in case p_spawn p (case c of Some x \<Rightarrow> c_name x | None \<Rightarrow> ''sh'') True pgid (Some copy) (pipe_stage ops line wr) st of
           (err, pid, pgid1, st1) \<Rightarrow>
             if err \<noteq> ESP_OK then (pids, False, st1)
             else start_stages ops p ps (Suc i) pgid1 (pid # pids) stages st1)"

fun wait_stages :: "proc_ops \<Rightarrow> int list \<Rightarrow> shell \<Rightarrow> shell" where
  "wait_stages p [] st = st"
| "wait_stages p (pid # pids) st = wait_stages p pids (if 0 < pid then snd (p_wait p pid st) else st)"

definition run_stages :: "shell_ops \<Rightarrow> proc_ops \<Rightarrow> (string \<times> cmd option) list \<Rightarrow> shell \<Rightarrow> int \<times> shell" where
  "run_stages ops p stages st =
     (case make_pipes ops 0 (length stages - 1) st of
        (ps, False, st1) \<Rightarrow> (2, close_pipes ps (espix_eprintf ops No_Pipe_Memory st1))
      | (ps, True, st1) \<Rightarrow>
          (case (if o_stage_mem ops then start_stages ops p ps 0 0 [] stages st1 else ([], False, st1)) of
             (pids, all, st2) \<Rightarrow>
               (let st3 = (if all then st2 else espix_eprintf ops No_Stage st2);
                    (status, st4) =
                      (if all \<and> 0 < hd pids
                       then (case p_wait p (hd pids) st3 of (v, s) \<Rightarrow> (if v < 0 then 1 else v, wait_stages p (tl pids) s))
                       else (2, wait_stages p pids st3))
                in (status, close_pipes ps st4))))"

fun stage_refused :: "shell_ops \<Rightarrow> string list \<Rightarrow> string option" where
  "stage_refused ops [] = None"
| "stage_refused ops (l # ls) =
     (let w = first_token l 32 in if w \<noteq> [] \<and> o_find ops w = None then Some w else stage_refused ops ls)"

definition run_pipeline :: "shell_ops \<Rightarrow> string \<Rightarrow> shell \<Rightarrow> (int \<times> shell) option" where
  "run_pipeline ops line st =
     (let stages = split_stages [] line in
      if PIPE_MAX_STAGES < length stages then Some (2, espix_eprintf ops Too_Many_Pipes st)
      else if length stages = 1 then exec_one ops line st
      else if list_ex stage_wants_background stages then Some (2, espix_eprintf ops No_Background_Pipe st)
      else
        (case o_proc ops of
           None \<Rightarrow> Some (2, espix_eprintf ops No_Process_Table st)
         | Some p \<Rightarrow>
             (case stage_refused ops stages of
                Some w \<Rightarrow> Some (2, espix_eprintf ops (Builtins_Only w) st)
              | None \<Rightarrow> Some (run_stages ops p (map (\<lambda>l. (l, o_find ops (first_token l 32))) stages) st))))"

section \<open>Sequences\<close>

text \<open>Up to the next unquoted \<open>;\<close>, \<open>&&\<close> or \<open>||\<close>, and the text from there on.\<close>

function scan_seg :: "string \<Rightarrow> string \<times> string" where
  "scan_seg [] = ([], [])"
| "scan_seg (c # cs) =
     (if is_quote c then
        (case scan_seg (snd (quoted c cs)) of (a, r) \<Rightarrow> (c # fst (quoted c cs) @ a, r))
      else if c = CHR '';'' \<or> (c = CHR ''&'' \<or> c = CHR ''|'') \<and> cs \<noteq> [] \<and> hd cs = c then ([], c # cs)
      else (case scan_seg cs of (a, r) \<Rightarrow> (c # a, r)))"
  by pat_completeness auto
termination by (relation "measure length") (auto simp: le_imp_less_Suc quoted_shorter)

lemma scan_seg_append: "fst (scan_seg xs) @ snd (scan_seg xs) = xs"
  by (induction xs rule: scan_seg.induct) (auto split: prod.splits simp: quoted_append)

lemma scan_seg_shorter: "length (snd (scan_seg xs)) \<le> length xs"
  by (metis scan_seg_append length_append le_add2)

datatype pend = Run | If_Ok | If_Failed

definition blank_segment :: "string \<Rightarrow> bool" where
  "blank_segment seg \<longleftrightarrow> list_all is_space seg"

definition skips :: "pend \<Rightarrow> bool \<Rightarrow> int \<Rightarrow> bool" where
  "skips pending did status =
     (case pending of Run \<Rightarrow> False | If_Ok \<Rightarrow> did \<and> status \<noteq> 0 | If_Failed \<Rightarrow> did \<and> status = 0)"

definition exec_segment :: "shell_ops \<Rightarrow> pend \<Rightarrow> string \<Rightarrow> bool \<times> int \<times> shell \<Rightarrow> (bool \<times> int \<times> shell) option" where
  "exec_segment ops pending seg x =
     (case x of (did, status, st) \<Rightarrow>
        if skips pending did status \<or> blank_segment seg then Some x
        else (case run_pipeline ops seg st of
                None \<Rightarrow> None
              | Some (v, st1) \<Rightarrow> Some (True, v, with_cur (\<lambda>s. s\<lparr>s_last := v\<rparr>) st1)))"

function exec_loop :: "shell_ops \<Rightarrow> pend \<Rightarrow> string \<Rightarrow> bool \<times> int \<times> shell \<Rightarrow> (bool \<times> int \<times> shell) option" where
  "exec_loop ops pending xs x =
     (case exec_segment ops pending (fst (scan_seg xs)) x of
        None \<Rightarrow> None
      | Some x1 \<Rightarrow>
          (case snd (scan_seg xs) of
             [] \<Rightarrow> Some x1
           | c # cs \<Rightarrow>
               exec_loop ops (if c = CHR ''&'' then If_Ok else if c = CHR ''|'' then If_Failed else Run)
                 (if c = CHR '';'' then cs else tl cs) x1))"
  by pat_completeness auto
termination
proof (relation "measure (\<lambda>(ops, pending, xs, x). length xs)", goal_cases)
  case (2 ops pending xs x x1 c cs)
  then show ?case using scan_seg_shorter[of xs] by (auto simp: less_Suc_eq_le intro: order_trans)
qed simp

declare exec_loop.simps [simp del]

definition espix_shell_exec :: "shell_ops \<Rightarrow> string \<Rightarrow> shell \<Rightarrow> (int \<times> shell) option" where
  "espix_shell_exec ops line st =
     (case exec_loop ops Run (strlcpy ESPIX_LINE_MAX line) (False, ESPIX_SHELL_EMPTY, st) of
        None \<Rightarrow> None
      | Some (did, status, st1) \<Rightarrow> Some (if did then status else ESPIX_SHELL_EMPTY, st1))"

definition espix_shell_run_line :: "shell_ops \<Rightarrow> string \<Rightarrow> shell \<Rightarrow> (int \<times> shell) option" where
  "espix_shell_run_line ops line st =
     (case espix_shell_exec ops line st of
        None \<Rightarrow> None
      | Some (status, st1) \<Rightarrow>
          (let st2 = (if status = ESPIX_SHELL_ENOENT then with_cur (\<lambda>s. s\<lparr>s_last := 127\<rparr>) st1
                      else if status \<noteq> ESPIX_SHELL_EMPTY then with_cur (\<lambda>s. s\<lparr>s_last := status\<rparr>) st1
                      else st1)
           in Some (s_last (cur st2), st2)))"

definition build_prompt :: "sess \<Rightarrow> nat \<Rightarrow> string" where
  "build_prompt s len =
     (let cwd = (if s_cwd s \<noteq> [] then s_cwd s else ''/'');
          user = (if s_user s \<noteq> [] then s_user s else ''?'');
          mark = (if s_uid s = 0 then CHR ''#'' else DOLLAR);
          at_home = (s_home s \<noteq> [] \<and> starts_with cwd (s_home s));
          after = drop (length (s_home s)) cwd;
          shown = (if at_home \<and> (after = [] \<or> hd after = CHR ''/'') then CHR ''~'' # after else cwd)
      in take (len - 1) (user @ '':'' @ shown @ [mark, CHR '' '']))"

end
