(* ===== verification/Shell_Exec.thy ===== *)
theory Shell_Exec
  imports Shell_Line
begin

text \<open>
  What \<^verbatim>\<open>components/espix_shell/session.c\<close> does with a command line, proved of the definitions of
  \<^verbatim>\<open>Shell_Line\<close>: the meaning of sequences, files and streams given back, assignments for one command only, the
  bounds of the argument array, where diagnostics go, and what \<^verbatim>\<open>$?\<close> holds.
\<close>

section \<open>What a sequence means\<close>

text \<open>The lists of a shell, associating to the left, and how they are written.\<close>

datatype seq = Cmd string | Then seq string | And_Then seq string | Or_Else seq string

fun seq_text :: "seq \<Rightarrow> string" where
  "seq_text (Cmd s) = s"
| "seq_text (Then t s) = seq_text t @ '';'' @ s"
| "seq_text (And_Then t s) = seq_text t @ ''&&'' @ s"
| "seq_text (Or_Else t s) = seq_text t @ ''||'' @ s"

definition run_seg :: "shell_ops \<Rightarrow> string \<Rightarrow> shell \<Rightarrow> (int \<times> shell) option" where
  "run_seg ops seg st =
     map_option (\<lambda>(v, st1). (v, with_cur (\<lambda>s. s\<lparr>s_last := v\<rparr>) st1)) (run_pipeline ops seg st)"

fun seq_eval :: "shell_ops \<Rightarrow> seq \<Rightarrow> shell \<Rightarrow> (int \<times> shell) option" where
  "seq_eval ops (Cmd s) st = run_seg ops s st"
| "seq_eval ops (Then t s) st = Option.bind (seq_eval ops t st) (\<lambda>(v, st1). run_seg ops s st1)"
| "seq_eval ops (And_Then t s) st =
     Option.bind (seq_eval ops t st) (\<lambda>(v, st1). if v = 0 then run_seg ops s st1 else Some (v, st1))"
| "seq_eval ops (Or_Else t s) st =
     Option.bind (seq_eval ops t st) (\<lambda>(v, st1). if v = 0 then Some (v, st1) else run_seg ops s st1)"

text \<open>A command as one may write it between operators: something in it, every quote closed, no operator
  outside quotes, and no half of one at the end.\<close>

fun closed :: "char \<Rightarrow> string \<Rightarrow> (string \<times> string) option" where
  "closed q [] = None"
| "closed q [c] = (if c = q then Some ([c], []) else None)"
| "closed q (c # d # cs) =
     (if c = q then Some ([c], d # cs)
      else if q = DQUOTE \<and> c = BSLASH then map_option (\<lambda>(a, r). (c # d # a, r)) (closed q cs)
      else map_option (\<lambda>(a, r). (c # a, r)) (closed q (d # cs)))"

lemma closed_quoted: "closed q xs = Some (a, r) \<Longrightarrow> quoted q (xs @ ys) = (a, r @ ys)"
proof (induction q xs arbitrary: a r rule: closed.induct)
  case (2 q c)
  then show ?case by (cases ys) (auto split: if_splits)
qed (auto split: if_splits)

lemma closed_shorter: "closed q xs = Some (a, r) \<Longrightarrow> length r < length xs"
  by (induction q xs arbitrary: a r rule: closed.induct) (fastforce split: if_splits)+

function seg_plain :: "string \<Rightarrow> bool" where
  "seg_plain [] = True"
| "seg_plain (c # cs) =
     (if is_quote c then (case closed c cs of None \<Rightarrow> False | Some (a, r) \<Rightarrow> seg_plain r)
      else if c = CHR '';'' then False
      else if c = CHR ''&'' \<or> c = CHR ''|'' then cs \<noteq> [] \<and> hd cs \<noteq> c \<and> seg_plain cs
      else seg_plain cs)"
  by pat_completeness auto
termination by (relation "measure length") (auto dest: closed_shorter)

definition is_op :: "string \<Rightarrow> bool" where
  "is_op rest \<longleftrightarrow> rest = [] \<or> hd rest = CHR '';'' \<or>
     (hd rest = CHR ''&'' \<or> hd rest = CHR ''|'') \<and> tl rest \<noteq> [] \<and> hd (tl rest) = hd rest"

lemma scan_seg_plain: "seg_plain s \<Longrightarrow> is_op rest \<Longrightarrow> scan_seg (s @ rest) = (s, rest)"
proof (induction s rule: seg_plain.induct)
  case 1
  then show ?case by (cases rest) (auto simp: is_op_def is_quote_def QUOTE_def DQUOTE_def)
next
  case (2 c cs)
  show ?case
  proof (cases "is_quote c")
    case True
    then obtain a r where ar: "closed c cs = Some (a, r)" "seg_plain r" using 2(4) by (auto split: option.splits)
    have q: "quoted c (cs @ rest) = (a, r @ rest)" by (rule closed_quoted[OF ar(1)])
    have "cs = a @ r" using closed_quoted[OF ar(1), of "[]"] quoted_append[of c cs] by simp
    then show ?thesis using 2(1)[OF True ar(1) refl ar(2) 2(5)] True q by simp
  next
    case False
    have cs: "seg_plain cs" "c \<noteq> CHR '';''" "c = CHR ''&'' \<or> c = CHR ''|'' \<Longrightarrow> cs \<noteq> [] \<and> hd cs \<noteq> c"
      using 2(4) False by (auto split: if_splits)
    have "scan_seg (cs @ rest) = (cs, rest)" using 2(2,3) False cs 2(5) by blast
    moreover have "\<not> (c = CHR '';'' \<or> (c = CHR ''&'' \<or> c = CHR ''|'') \<and> cs @ rest \<noteq> [] \<and> hd (cs @ rest) = c)"
      using cs(2,3) by (auto simp: hd_append)
    ultimately show ?thesis using False by simp
  qed
qed

fun seq_ok :: "seq \<Rightarrow> bool" where
  "seq_ok (Cmd s) \<longleftrightarrow> seg_plain s \<and> \<not> blank_segment s"
| "seq_ok (Then t s) \<longleftrightarrow> seq_ok t \<and> seg_plain s \<and> \<not> blank_segment s"
| "seq_ok (And_Then t s) \<longleftrightarrow> seq_ok t \<and> seg_plain s \<and> \<not> blank_segment s"
| "seq_ok (Or_Else t s) \<longleftrightarrow> seq_ok t \<and> seg_plain s \<and> \<not> blank_segment s"

text \<open>The loop after a segment, at the operator that ended it.\<close>

definition goes_on :: "shell_ops \<Rightarrow> string \<Rightarrow> bool \<times> int \<times> shell \<Rightarrow> (bool \<times> int \<times> shell) option" where
  "goes_on ops rest x =
     (case rest of
        [] \<Rightarrow> Some x
      | c # cs \<Rightarrow>
          exec_loop ops (if c = CHR ''&'' then If_Ok else if c = CHR ''|'' then If_Failed else Run)
            (if c = CHR '';'' then cs else tl cs) x)"

lemma exec_loop_seg:
  "seg_plain s \<Longrightarrow> is_op rest \<Longrightarrow>
   exec_loop ops pending (s @ rest) x = Option.bind (exec_segment ops pending s x) (goes_on ops rest)"
  by (subst exec_loop.simps)
    (auto simp: scan_seg_plain goes_on_def split: option.splits list.splits Option.bind_splits)

lemma exec_segment_run:
  "\<not> blank_segment s \<Longrightarrow> exec_segment ops pending s (did, v, st) =
     (if skips pending did v then Some (did, v, st) else map_option (\<lambda>(w, st1). (True, w, st1)) (run_seg ops s st))"
  by (auto simp: exec_segment_def run_seg_def split: option.splits)

lemma exec_loop_seq:
  "seq_ok t \<Longrightarrow> is_op rest \<Longrightarrow> exec_loop ops Run (seq_text t @ rest) (False, w, st) =
     Option.bind (seq_eval ops t st) (\<lambda>(v, st1). goes_on ops rest (True, v, st1))"
proof (induction t arbitrary: rest)
  case (Cmd s)
  then show ?case by (auto simp: exec_loop_seg exec_segment_run skips_def split: Option.bind_splits option.splits)
next
  case (Then t s)
  have o: "is_op ('';'' @ s @ rest)" by (simp add: is_op_def)
  have "goes_on ops ('';'' @ s @ rest) (True, v, st1) = Option.bind (run_seg ops s st1) (\<lambda>(v, st2). goes_on ops rest (True, v, st2))" for v st1
    using Then.prems by (auto simp: goes_on_def[of _ "CHR '';'' # _"] exec_loop_seg exec_segment_run skips_def split: Option.bind_splits option.splits)
  then show ?case using Then.IH[OF _ o] Then.prems by (auto split: Option.bind_splits)
next
  case (And_Then t s)
  have o: "is_op (''&&'' @ s @ rest)" by (simp add: is_op_def)
  have "goes_on ops (''&&'' @ s @ rest) (True, v, st1) =
      Option.bind (if v = 0 then run_seg ops s st1 else Some (v, st1)) (\<lambda>(v, st2). goes_on ops rest (True, v, st2))" for v st1
    using And_Then.prems by (auto simp: goes_on_def[of _ "CHR ''&'' # _"] exec_loop_seg exec_segment_run skips_def split: Option.bind_splits option.splits)
  then show ?case using And_Then.IH[OF _ o] And_Then.prems by (auto split: Option.bind_splits)
next
  case (Or_Else t s)
  have o: "is_op (''||'' @ s @ rest)" by (simp add: is_op_def)
  have "goes_on ops (''||'' @ s @ rest) (True, v, st1) =
      Option.bind (if v = 0 then Some (v, st1) else run_seg ops s st1) (\<lambda>(v, st2). goes_on ops rest (True, v, st2))" for v st1
    using Or_Else.prems by (auto simp: goes_on_def[of _ "CHR ''|'' # _"] exec_loop_seg exec_segment_run skips_def split: Option.bind_splits option.splits)
  then show ?case using Or_Else.IH[OF _ o] Or_Else.prems by (auto split: Option.bind_splits)
qed

text \<open>
  C4. A line of commands joined by \<open>;\<close>, \<open>&&\<close> and \<open>||\<close> means what a shell's does: it runs as the
  tree that associates to the left, each command in the state the ones before it left and with their status in
  \<^verbatim>\<open>$?\<close>; operators inside quotes do not count, and the status is that of the last command that ran.
\<close>

theorem sequence_semantics:
  assumes "seq_ok t" "length (seq_text t) < ESPIX_LINE_MAX"
  shows "espix_shell_exec ops (seq_text t) st = seq_eval ops t st"
proof -
  have "strlcpy ESPIX_LINE_MAX (seq_text t) = seq_text t" using assms(2) by (simp add: strlcpy_def)
  then show ?thesis
    using exec_loop_seq[OF assms(1), of "[]" ops "ESPIX_SHELL_EMPTY" st]
    by (auto simp: espix_shell_exec_def is_op_def goes_on_def split: Option.bind_splits option.splits)
qed

theorem sequence_semantics_witness:
  "\<forall>ops st. espix_shell_exec ops (seq_text (Or_Else (And_Then (Cmd ''x'') ''echo \"a;b\"'') ''y'')) st =
     seq_eval ops (Or_Else (And_Then (Cmd ''x'') ''echo \"a;b\"'') ''y'') st"
proof (intro allI)
  fix ops st
  have "seq_ok (Or_Else (And_Then (Cmd ''x'') ''echo \"a;b\"'') ''y'')"
    by (simp add: is_quote_def QUOTE_def DQUOTE_def BSLASH_def blank_segment_def is_space_def)
  moreover have "length (seq_text (Or_Else (And_Then (Cmd ''x'') ''echo \"a;b\"'') ''y'')) < ESPIX_LINE_MAX" by simp
  ultimately show "espix_shell_exec ops (seq_text (Or_Else (And_Then (Cmd ''x'') ''echo \"a;b\"'') ''y'')) st =
     seq_eval ops (Or_Else (And_Then (Cmd ''x'') ''echo \"a;b\"'') ''y'') st" by (rule sequence_semantics)
qed

section \<open>A line gives back the files it opens\<close>

definition handles :: "redirects \<Rightarrow> nat list" where
  "handles r = map fst (List.map_filter id [r_in r, r_out r, r_err r])"

lemma handles_simps:
  "handles (r\<lparr>r_err_to_out := b\<rparr>) = handles r" "handles no_redirects = []"
  "r_in r = None \<Longrightarrow> mset (handles (r\<lparr>r_in := Some (f, t)\<rparr>)) = mset (f # handles r)"
  "r_out r = None \<Longrightarrow> mset (handles (r\<lparr>r_out := Some (f, t)\<rparr>)) = mset (f # handles r)"
  "r_err r = None \<Longrightarrow> mset (handles (r\<lparr>r_err := Some (f, t)\<rparr>)) = mset (f # handles r)"
  by (auto simp: handles_def no_redirects_def List.map_filter_def split: option.splits)

lemma eprintf_simps [simp]: "files (espix_eprintf ops d st) = files st" "cur (espix_eprintf ops d st) = cur st"
  by (simp_all add: espix_eprintf_def)

lemma printf_simps [simp]: "files (espix_printf ops d st) = files st" "cur (espix_printf ops d st) = cur st"
  by (simp_all add: espix_printf_def)

lemma with_cur_simps [simp]: "files (with_cur f st) = files st" "cur (with_cur f st) = f (cur st)"
  by (simp_all add: with_cur_def)

lemma fclose_simps [simp]: "files (fclose f st) = remove1 f (files st)" "cur (fclose f st) = cur st"
  by (simp_all add: fclose_def)

text \<open>What is open is what was open before and the handles of the redirections.\<close>

definition owes :: "nat list \<Rightarrow> redirects \<Rightarrow> shell \<Rightarrow> bool" where
  "owes F r st \<longleftrightarrow> (\<exists>xs. files st = xs @ F \<and> mset xs = mset (handles r))"

lemma owes_simps [simp]:
  "owes F r (espix_eprintf ops d st) = owes F r st" "owes F r (with_cur f st) = owes F r st"
  "owes F (r\<lparr>r_err_to_out := b\<rparr>) st = owes F r st"
  by (simp_all add: owes_def handles_simps)

lemma owes_open:
  "owes F r st \<Longrightarrow> mset (handles r') = mset (f # handles r) \<Longrightarrow> owes F r' (st\<lparr>files := f # files st, next_file := k\<rparr>)"
  unfolding owes_def by (auto intro: exI[of _ "f # _"])

lemma fopen_owes:
  assumes "owes F r st"
  shows "fopen ops path m st = (None, st1) \<Longrightarrow> owes F r st1 \<and> cur st1 = cur st"
    and "fopen ops path m st = (Some f, st1) \<Longrightarrow> r_in r = None \<Longrightarrow> owes F (r\<lparr>r_in := Some (f, t)\<rparr>) st1 \<and> cur st1 = cur st"
    and "fopen ops path m st = (Some f, st1) \<Longrightarrow> r_out r = None \<Longrightarrow> owes F (r\<lparr>r_out := Some (f, t)\<rparr>) st1 \<and> cur st1 = cur st"
    and "fopen ops path m st = (Some f, st1) \<Longrightarrow> r_err r = None \<Longrightarrow> owes F (r\<lparr>r_err := Some (f, t)\<rparr>) st1 \<and> cur st1 = cur st"
  using assms owes_open[OF assms, OF handles_simps(3)] owes_open[OF assms, OF handles_simps(4)] owes_open[OF assms, OF handles_simps(5)]
  by (auto simp: fopen_def split: if_splits)

lemma open_target_owes:
  assumes o: "owes F r st" and t: "open_target ops tok target r st = (ok, r1, st1)"
  shows "owes F r1 st1 \<and> cur st1 = cur st"
proof (cases "espix_fs_resolve (Some (s_cwd (cur st))) (Some target) (Some (replicate ESPIX_PATH_MAX NUL))")
  case (Inl e)
  then show ?thesis using o t by (auto simp: open_target_def)
next
  case (Inr buf)
  show ?thesis
  proof (cases "(if tok = ''<'' then r_in r else if tok = ''>'' \<or> tok = ''>>'' then r_out r else r_err r) = None")
    case False
    then show ?thesis using o t Inr by (auto simp: open_target_def Let_def split: if_splits)
  next
    case free: True
    let ?m = "if tok = ''<'' then Rb else if tok = ''>>'' \<or> tok = ''2>>'' then Ab else Wb"
    obtain f st2 where f: "fopen ops (cstr_of buf) ?m st = (f, st2)" by (cases "fopen ops (cstr_of buf) ?m st")
    show ?thesis
      using t Inr f free fopen_owes[OF o]
      by (cases f; cases "tok = ''<''"; cases "tok = ''>'' \<or> tok = ''>>''") (auto simp: open_target_def Let_def)
  qed
qed

text \<open>One word of the loop: it stops, or goes on with what is owed still right.\<close>

lemma redirect_loop_step:
  assumes o: "owes F r st" and l: "redirect_loop ops assigned argc ws seen r st (t # us) = Some (res, r1, st1)"
  shows "owes F r1 st1 \<and> cur st1 = cur st \<or>
    (\<exists>argc2 ws2 seen2 r2 st2 vs. redirect_loop ops assigned argc2 ws2 seen2 r2 st2 vs = Some (res, r1, st1)
       \<and> owes F r2 st2 \<and> cur st2 = cur st \<and> length vs < length (t # us))"
proof -
  obtain tok rest argc1 where k: "(case take_attached assigned argc t of Att_Split op target \<Rightarrow> (op, target # us, argc + 1) | _ \<Rightarrow> (t, us, argc))
    = (tok, rest, argc1)" by (metis prod_cases3)
  note l = l[unfolded redirect_loop.simps k Let_def prod.case]
  show ?thesis
  proof (cases "take_attached assigned argc t \<in> {Att_Overrun, Att_Bad_Fd, Att_Full} \<or> \<not> needs_target tok \<and> tok \<noteq> ''2>&1'' \<and> seen
      \<or> needs_target tok \<and> tok \<noteq> ''2>&1'' \<and> rest = []")
    case True
    then show ?thesis using l o by (auto split: if_splits)
  next
    case go: False
    show ?thesis
    proof (cases "tok = ''2>&1'' \<or> \<not> needs_target tok")
      case True
      then have "redirect_loop ops assigned argc1 (if tok = ''2>&1'' then ws else ws @ [tok]) (tok = ''2>&1'')
          (if tok = ''2>&1'' then r\<lparr>r_err_to_out := True\<rparr> else r) st us = Some (res, r1, st1)"
        using l go by (simp split: if_splits)
      moreover have "owes F (if tok = ''2>&1'' then r\<lparr>r_err_to_out := True\<rparr> else r) st" using o by simp
      moreover have "length us < length (t # us)" by simp
      ultimately show ?thesis by blast
    next
      case False
      then obtain target mt where rest: "rest = target # mt" using go by (cases rest) auto
      obtain ok r2 st2 where ot: "open_target ops tok target r st = (ok, r2, st2)" by (metis prod_cases3)
      have "length mt < length (t # us)" using k rest by (auto split: attached.splits)
      moreover note open_target_owes[OF o ot]
      ultimately show ?thesis using l go False rest ot
        by (cases ok) (simp_all, blast)
    qed
  qed
qed

lemma redirect_loop_owes:
  "owes F r st \<Longrightarrow> redirect_loop ops assigned argc ws seen r st ts = Some (res, r1, st1) \<Longrightarrow> owes F r1 st1 \<and> cur st1 = cur st"
proof (induction "length ts" arbitrary: argc ws seen r st ts rule: less_induct)
  case less
  show ?case
  proof (cases ts)
    case Nil
    then show ?thesis using less.prems by simp
  next
    case (Cons t us)
    then show ?thesis using redirect_loop_step[OF less.prems(1), of ops assigned argc ws seen t us res r1 st1] less.prems(2) less.hyps
      by metis
  qed
qed

lemma fold_remove1: "mset hs = mset xs \<Longrightarrow> fold remove1 hs (xs @ F) = F"
proof (induction hs arbitrary: xs)
  case (Cons h hs)
  then have "h \<in> set xs" "mset hs = mset (remove1 h xs)" by (metis list.set_intros(1) set_mset_mset, simp add: Cons.prems[symmetric])
  then show ?case using Cons.IH[of "remove1 h xs"] by (simp add: remove1_append)
qed simp

text \<open>The streams a session is redirected to.\<close>

definition streams :: "sess \<Rightarrow> nat option list" where
  "streams s = [s_redirect s, s_redirect_err s, s_redirect_in s]"

lemma close_reported_simps [simp]:
  "files (close_reported ops x st) = (case x of None \<Rightarrow> files st | Some (f, n) \<Rightarrow> remove1 f (files st))"
  "cur (close_reported ops x st) = cur st"
  by (auto simp: close_reported_def Let_def split: option.splits)

lemma release_files: "files (redirects_release ops r st) = fold remove1 (handles r) (files st)"
  by (auto simp: redirects_release_def handles_def Let_def List.map_filter_def split: option.splits)

lemma release_cur: "cur (redirects_release ops r st) =
   (cur st)\<lparr>s_redirect := (if r_out r \<noteq> None then None else s_redirect (cur st)),
     s_redirect_err := (if r_err r \<noteq> None then None else s_redirect_err (cur st)),
     s_redirect_in := (if r_in r \<noteq> None then None else s_redirect_in (cur st)),
     s_err_to_out := False\<rparr>"
  by (auto simp: redirects_release_def Let_def split: option.splits)

lemma release_owed: "owes F r st \<Longrightarrow> files (redirects_release ops r st) = F"
  by (auto simp: owes_def release_files fold_remove1)

text \<open>No command, program or process changes \<open>f\<close> of the state.\<close>

definition tidy :: "(shell \<Rightarrow> 'a) \<Rightarrow> shell_ops \<Rightarrow> bool" where
  "tidy f ops \<longleftrightarrow>
     (\<forall>w c av st. o_find ops w = Some c \<longrightarrow> f (snd (c_fn c av st)) = f st) \<and>
     (\<forall>fn av st. o_fallback ops = Some fn \<longrightarrow> f (snd (fn av st)) = f st) \<and>
     (\<forall>p. o_proc ops = Some p \<longrightarrow>
        (\<forall>name fg g copy b st. f (snd (snd (snd (p_spawn p name fg g copy b st)))) = f st) \<and>
        (\<forall>pid st. f (snd (p_wait p pid st)) = f st))"

lemma tidyD:
  assumes "tidy f ops"
  shows "o_find ops w = Some c \<Longrightarrow> f (snd (c_fn c av st)) = f st"
    and "o_fallback ops = Some fn \<Longrightarrow> f (snd (fn av st)) = f st"
    and "o_proc ops = Some p \<Longrightarrow> p_spawn p name fg g copy b st = (err, pid, g1, st1) \<Longrightarrow> f st1 = f st"
    and "o_proc ops = Some p \<Longrightarrow> p_wait p pid st = (v, st1) \<Longrightarrow> f st1 = f st"
  using assms unfolding tidy_def by (blast, blast, (metis snd_conv)+)

lemma job_add_jobs: "\<exists>js. snd (espix_shell_job_add ops s pid name) = s\<lparr>s_jobs := js\<rparr>"
proof -
  have "\<exists>js. s = s\<lparr>s_jobs := js\<rparr>" by (rule exI[of _ "s_jobs s"]) simp
  then show ?thesis
    by (auto simp: espix_shell_job_add_def espix_shell_jobs_prune_def Let_def split: option.splits)
qed

lemma dispatch_tidy:
  assumes t: "tidy f ops"
    and said: "\<And>st d. f (st\<lparr>said := d\<rparr>) = f st" and jobs: "\<And>st js. f (st\<lparr>cur := (cur st)\<lparr>s_jobs := js\<rparr>\<rparr>) = f st"
  shows "f (snd (dispatch ops assigned av st)) = f st"
proof -
  have bg: "f (snd (start_background_job ops p c av st)) = f st" if "o_proc ops = Some p" for p c
  proof -
    obtain err pid g st1 where s: "p_spawn p (c_name c) False 0 (Some ((cur st)\<lparr>s_background := False\<rparr>)) (\<lambda>s. Some (c_fn c av s)) st = (err, pid, g, st1)"
      by (metis prod_cases4)
    obtain ok s3 where a: "espix_shell_job_add ops (cur st1) pid (hd av) = (ok, s3)" by (metis surj_pair)
    obtain js where "s3 = (cur st1)\<lparr>s_jobs := js\<rparr>" using job_add_jobs[of ops "cur st1" pid "hd av"] a by auto
    moreover have "f (st1\<lparr>said := d, cur := (cur st1)\<lparr>s_jobs := js\<rparr>\<rparr>) = f st1" "f (st1\<lparr>cur := (cur st1)\<lparr>s_jobs := js\<rparr>\<rparr>) = f st1" for d
      using jobs[where st = "st1\<lparr>said := d\<rparr>" and js = js] jobs[where st = st1 and js = js] by (simp_all add: said)
    ultimately show ?thesis using tidyD(3)[OF t that s] s a
      by (auto simp: start_background_job_def espix_eprintf_def espix_printf_def Let_def said)
  qed
  have fg: "f (snd (run_as_process ops p c av st)) = f st" if "o_proc ops = Some p" for p c
    using tidyD(3,4)[OF t that] by (auto simp: run_as_process_def espix_eprintf_def said split: prod.splits)
  show ?thesis
    using bg fg tidyD(1,2)[OF t] by (auto simp: dispatch_def espix_eprintf_def said split: option.splits)
qed

lemma assign_cur: "take_assignments ops taken sc st ws = (n, sc1, st1) \<Longrightarrow>
    files st1 = files st \<and> streams (cur st1) = streams (cur st)"
proof (induction ops taken sc st ws arbitrary: n sc1 st1 rule: take_assignments.induct)
  case (2 ops taken sc st w ws)
  show ?case
  proof (cases "assignment w")
    case (Some nv)
    obtain m v where nv: "nv = (m, v)" by (cases nv)
    obtain err e1 sc2 where s: "espix_env_scope_set (o_mem ops (s_env (cur st))) (s_env (cur st)) sc m v = (err, e1, sc2)" by (metis prod_cases3)
    show ?thesis using 2(1)[OF Some nv[symmetric] s[symmetric] refl refl] 2(2) Some nv s
      by (cases "err = ESP_OK") (auto simp: Let_def streams_def)
  qed (use 2(2) in auto)
qed simp

lemma keep_cur: "keep_assignments ops sc st ws = (sc1, st1) \<Longrightarrow> files st1 = files st \<and> streams (cur st1) = streams (cur st)"
proof (induction ops sc st ws arbitrary: sc1 st1 rule: keep_assignments.induct)
  case (2 ops sc st w ws)
  show ?case
  proof (cases "split_eq w")
    case (Some nv)
    obtain m v where nv: "nv = (m, v)" by (cases nv)
    obtain err e1 sc2 where s: "espix_env_scope_keep (s_env (cur st)) sc m = (err, e1, sc2)" by (metis prod_cases3)
    show ?thesis using 2(2)[OF Some nv[symmetric] s[symmetric] refl refl] 2(3) Some nv s
      by (cases "err = ESP_OK") (auto simp: Let_def streams_def)
  qed (use 2(1,3) in auto)
qed simp

lemma scope_end_simps [simp]: "files (scope_end sc st) = files st" "streams (cur (scope_end sc st)) = streams (cur st)"
  by (simp_all add: scope_end_def streams_def)

text \<open>A stream is where it was, or nowhere.\<close>

definition kept_streams :: "sess \<Rightarrow> sess \<Rightarrow> bool" where
  "kept_streams s s' \<longleftrightarrow>
     s_redirect s' \<in> {s_redirect s, None} \<and> s_redirect_err s' \<in> {s_redirect_err s, None} \<and> s_redirect_in s' \<in> {s_redirect_in s, None}"

lemma kept_same: "streams s' = streams s \<Longrightarrow> kept_streams s s'"
  by (simp add: kept_streams_def streams_def)

lemma kept_cong: "streams s = streams t \<Longrightarrow> kept_streams s u = kept_streams t u"
  "streams u = streams v \<Longrightarrow> kept_streams s u = kept_streams s v"
  by (simp_all add: kept_streams_def streams_def)

lemma release_early: "cur st1 = cur st \<Longrightarrow> kept_streams (cur st) (cur (redirects_release ops r st1))"
  by (simp add: kept_streams_def release_cur)

lemma release_applied:
  assumes "streams (cur st1) = streams (cur (redirects_apply r st))"
  shows "kept_streams (cur st) (cur (redirects_release ops r st1))"
  using assms by (auto simp: kept_streams_def release_cur streams_def redirects_apply_def split: option.splits)

lemma owes_cong: "files st1 = files st \<Longrightarrow> owes F r st1 = owes F r st"
  by (simp add: owes_def)

lemma run_words_files:
  assumes tf: "tidy files ops" and ts: "tidy (\<lambda>st. streams (cur st)) ops"
    and r: "run_words ops assigned sc words st = Some (v, st')"
  shows "files st' = files st \<and> kept_streams (cur st) (cur st')"
proof -
  obtain res rd st1 where t: "take_redirects ops assigned words st = Some (res, rd, st1)"
    using r by (auto simp: run_words_def split: option.splits)
  have "owes (files st) no_redirects st" by (simp add: owes_def handles_simps)
  from redirect_loop_owes[OF this t[unfolded take_redirects_def]] have o: "owes (files st) rd st1" "cur st1 = cur st" by auto
  have d: "files (snd (dispatch ops assigned av s)) = files s" "streams (cur (snd (dispatch ops assigned av s))) = streams (cur s)" for av s
    using dispatch_tidy[OF tf] dispatch_tidy[OF ts] by (simp_all add: streams_def)
  show ?thesis
  proof (cases "\<exists>w ws. res = Some (w # ws)")
    case False
    then have "st' = scope_end sc (redirects_release ops rd st1)"
      using r t by (auto simp: run_words_def split: option.splits list.splits)
    then show ?thesis using release_owed[OF o(1)] release_early[OF o(2), of ops rd] kept_cong(2)[OF scope_end_simps(2)] by simp
  next
    case True
    then obtain av where av: "res = Some av" "av \<noteq> []" by blast
    let ?bg = "1 < length av \<and> last av = ''&''"
    let ?av = "if ?bg then butlast av else av"
    let ?st2 = "with_cur (\<lambda>s. s\<lparr>s_background := ?bg\<rparr>) st1"
    obtain v3 st3 where ds: "dispatch ops assigned ?av (redirects_apply rd ?st2) = (v3, st3)" by (metis surj_pair)
    let ?st4 = "if v3 = ESPIX_SHELL_ENOENT then espix_eprintf ops (Not_Found (hd ?av)) st3 else st3"
    have f3: "files ?st4 = files st1" "streams (cur ?st4) = streams (cur (redirects_apply rd ?st2))"
      using d[of ?av "redirects_apply rd ?st2"] ds by (simp_all add: redirects_apply_def)
    have k2: "kept_streams (cur ?st2) = kept_streams (cur st)" using o(2) by (simp add: fun_eq_iff kept_streams_def)
    have bgs: "streams (s\<lparr>s_background := b\<rparr>) = streams s" for s b by (simp add: streams_def)
    have "st' = scope_end sc (redirects_release ops rd (with_cur (\<lambda>s. s\<lparr>s_background := s_background (cur st1)\<rparr>) ?st2))
        \<or> st' = with_cur (\<lambda>s. s\<lparr>s_background := s_background (cur st1)\<rparr>) (scope_end sc (redirects_release ops rd ?st4))"
      using r t av ds by (cases av) (auto simp: run_words_def Let_def split: if_splits)
    then show ?thesis
    proof
      assume "st' = scope_end sc (redirects_release ops rd (with_cur (\<lambda>s. s\<lparr>s_background := s_background (cur st1)\<rparr>) ?st2))"
      then show ?thesis using release_owed[of "files st" rd] o by (simp add: kept_streams_def release_cur scope_end_def)
    next
      assume s: "st' = with_cur (\<lambda>s. s\<lparr>s_background := s_background (cur st1)\<rparr>) (scope_end sc (redirects_release ops rd ?st4))"
      have "owes (files st) rd ?st4" using o(1) owes_cong[OF f3(1), of "files st" rd] by blast
      moreover have "kept_streams (cur st) (cur (redirects_release ops rd ?st4))"
        using release_applied[OF f3(2), of ops] k2 by simp
      ultimately show ?thesis using s release_owed[of "files st" rd ?st4 ops] kept_cong(2)[OF bgs] kept_cong(2)[OF scope_end_simps(2)] by simp
    qed
  qed
qed

lemma exec_one_files:
  assumes tf: "tidy files ops" and ts: "tidy (\<lambda>st. streams (cur st)) ops" and r: "exec_one ops line st = Some (v, st')"
  shows "files st' = files st \<and> kept_streams (cur st) (cur st')"
proof -
  have id: "files st = files st \<and> kept_streams (cur st) (cur st)" by (simp add: kept_same)
  obtain ws where ws: "exec_argv ops ws st = Some (v, st')"
    using r by (auto simp: exec_one_def split: option.splits)
  show ?thesis
  proof (cases "expand_words ops (cur st) 0 ws")
    case None
    then show ?thesis using ws id by (auto simp: exec_argv_def split: if_splits)
  next
    case (Some argv)
    obtain n sc st1 where a: "take_assignments ops 0 espix_env_scope_init st argv = (n, sc, st1)" by (metis prod_cases3)
    obtain sc2 st2 where k: "keep_assignments ops sc st1 argv = (sc2, st2)" by (metis surj_pair)
    note c = assign_cur[OF a] keep_cur[OF k]
    from ws Some a k consider "st' = st" | "st' = scope_end sc st1" | "st' = scope_end sc2 st2"
      | m where "run_words ops m sc (drop m argv) st1 = Some (v, st')"
      by (auto simp: exec_argv_def split: if_splits option.splits)
    then show ?thesis
    proof cases
      case 4
      from run_words_files[OF tf ts this] c(1) show ?thesis by (simp add: kept_cong(1)[of "cur st1" "cur st"])
    qed (use c id in \<open>simp_all add: kept_same\<close>)
  qed
qed

section \<open>Assignments in front of a command\<close>

text \<open>Taken off from the table they were laid on, they leave the map as it was: each entry is undone in the
  state the entries after it had found.\<close>

lemma scope_sets_undo_same:
  assumes "env_ok e" "scope_sets e sc as = (e', sc')"
  shows "\<exists>ys. sc' = sc @ ys \<and> env_ok e' \<and> (e \<noteq> None \<longrightarrow> e' \<noteq> None) \<and>
    (\<forall>f. env_ok f \<longrightarrow> env_map f = env_map e' \<longrightarrow> (f = None \<longleftrightarrow> e' = None) \<longrightarrow>
      env_ok (foldr scope_undo ys f) \<and> (foldr scope_undo ys f = None \<longleftrightarrow> f = None) \<and> env_map (foldr scope_undo ys f) = env_map e)"
  using assms
proof (induction e sc as rule: scope_sets.induct)
  case (1 e sc)
  then show ?case by simp
next
  case (2 e sc mem n v as)
  obtain err e1 sc1 where s: "espix_env_scope_set mem e sc n v = (err, e1, sc1)" by (metis prod_cases3)
  have run: "scope_sets e1 sc1 as = (e', sc')" using 2(3) s by simp
  from 2(2) s show ?case
  proof (cases rule: scope_set_map)
    case none
    have "env_ok e1" using 2(2) none(2) by simp
    from 2(1)[OF s[symmetric] refl this run] show ?thesis unfolding none(1,2) .
  next
    case (entry x)
    obtain ys where ys: "sc' = sc1 @ ys" "env_ok e'" "e1 \<noteq> None \<longrightarrow> e' \<noteq> None"
      and ih: "\<And>f. env_ok f \<Longrightarrow> env_map f = env_map e' \<Longrightarrow> (f = None \<longleftrightarrow> e' = None) \<Longrightarrow>
        env_ok (foldr scope_undo ys f) \<and> (foldr scope_undo ys f = None \<longleftrightarrow> f = None) \<and> env_map (foldr scope_undo ys f) = env_map e1"
      using 2(1)[OF s[symmetric] refl entry(4) run] by auto
    have "env_ok (scope_undo x (foldr scope_undo ys f)) \<and> (scope_undo x (foldr scope_undo ys f) = None \<longleftrightarrow> f = None) \<and>
        env_map (scope_undo x (foldr scope_undo ys f)) = env_map e"
      if f: "env_ok f" "env_map f = env_map e'" "f = None \<longleftrightarrow> e' = None" for f
    proof -
      let ?g = "foldr scope_undo ys f"
      from ih[OF f] have g: "env_ok ?g" "?g = None \<longleftrightarrow> f = None" "env_map ?g = env_map e1" by auto
      have room: "sold x \<noteq> None \<longrightarrow> ?g \<noteq> None \<and> card (insert n (dom (env_map ?g))) \<le> ESPIX_ENV_MAX"
      proof
        assume old: "sold x \<noteq> None"
        then have "e \<noteq> None" using entry(3) by (cases e) (simp_all add: env_map_def)
        then have g0: "?g \<noteq> None" using entry(5) ys(3) f(3) g(2) by auto
        obtain t where t: "e = Some t" using \<open>e \<noteq> None\<close> by blast
        have "insert n (dom (env_map ?g)) \<subseteq> dom (env_map e)" using old entry(3,6) g(3) by (auto split: if_splits)
        then have "card (insert n (dom (env_map ?g))) \<le> card (dom (env_map e))" using finite_env[OF 2(2)] by (rule card_mono[rotated])
        moreover have "card (dom (env_map e)) \<le> ESPIX_ENV_MAX"
          using count_card[of t] 2(2) t used_slots_le[of "vars t"] by (simp add: env_ok_def table_ok_def)
        ultimately show "?g \<noteq> None \<and> card (insert n (dom (env_map ?g))) \<le> ESPIX_ENV_MAX" using g0 by simp
      qed
      note ud = undo_map[OF g(1) entry(2) room]
      have "env_map (scope_undo x ?g) = env_map e" using ud(2) g(3) entry(3,6) by (auto simp: fun_eq_iff split: if_splits)
      with ud(1,3) g(2) show ?thesis by auto
    qed
    then show ?thesis using ys(1-3) entry(1,2,5) by (intro exI[of _ "x # ys"]) auto
  qed
qed

lemma take_assignments_scope:
  "take_assignments ops taken sc st ws = (n, sc1, st1) \<Longrightarrow>
   \<exists>as. scope_sets (s_env (cur st)) sc as = (s_env (cur st1), sc1)"
proof (induction ops taken sc st ws arbitrary: n sc1 st1 rule: take_assignments.induct)
  case (1 ops taken sc st)
  then show ?case by (auto intro: exI[of _ "[]"])
next
  case (2 ops taken sc st w ws)
  show ?case
  proof (cases "assignment w")
    case None
    then show ?thesis using 2(2) by (auto intro: exI[of _ "[]"])
  next
    case (Some nv)
    obtain m v where nv: "nv = (m, v)" by (cases nv)
    let ?mem = "o_mem ops (s_env (cur st))"
    obtain err e1 sc2 where s: "espix_env_scope_set ?mem (s_env (cur st)) sc m v = (err, e1, sc2)" by (metis prod_cases3)
    show ?thesis
    proof (cases "err = ESP_OK")
      case True
      then obtain as where "scope_sets e1 sc2 as = (s_env (cur st1), sc1)"
        using 2(1)[OF Some nv[symmetric] s[symmetric] refl refl] 2(2) Some nv s by (auto simp: Let_def)
      then show ?thesis using s by (intro exI[of _ "(?mem, m, v) # as"]) simp
    next
      case False
      then show ?thesis using 2(2) Some nv s by (intro exI[of _ "[(?mem, m, v)]"]) (auto simp: Let_def)
    qed
  qed
qed

lemma take_assignments_stops:
  "take_assignments ops k sc st xs = (Some m, sc1, st1) \<Longrightarrow> w \<in> set xs \<Longrightarrow> assignment w = None \<Longrightarrow> m < k + length xs"
proof (induction ops k sc st xs arbitrary: m sc1 st1 rule: take_assignments.induct)
  case (2 ops taken sc st x xs)
  show ?case
  proof (cases "assignment x")
    case None
    then show ?thesis using 2(2) by simp
  next
    case (Some nv)
    obtain n v where nv: "nv = (n, v)" by (cases nv)
    obtain err e1 sc2 where s: "espix_env_scope_set (o_mem ops (s_env (cur st))) (s_env (cur st)) sc n v = (err, e1, sc2)" by (metis prod_cases3)
    have "w \<in> set xs" using 2(3,4) Some by auto
    then show ?thesis using 2(1)[OF Some nv[symmetric] s[symmetric] refl refl] 2(2,4) Some nv s
      by (cases "err = ESP_OK") (auto simp: Let_def)
  qed
qed simp

lemma run_words_env:
  assumes te: "tidy (\<lambda>st. s_env (cur st)) ops" and r: "run_words ops assigned sc words st = Some (v, st')"
  shows "s_env (cur st') = espix_env_scope_end (s_env (cur st)) sc"
proof -
  obtain res rd st1 where t: "take_redirects ops assigned words st = Some (res, rd, st1)"
    using r by (auto simp: run_words_def split: option.splits)
  have "owes (files st) no_redirects st" by (simp add: owes_def handles_simps)
  from redirect_loop_owes[OF this t[unfolded take_redirects_def]] have o: "cur st1 = cur st" by auto
  have d: "dispatch ops assigned av s = (v3, s3) \<Longrightarrow> s_env (cur s3) = s_env (cur s)" for av s v3 s3
    using dispatch_tidy[OF te, of assigned av s] by simp
  show ?thesis
    using r t o by (auto simp: run_words_def Let_def scope_end_def release_cur redirects_apply_def
      split: option.splits list.splits if_splits prod.splits dest!: d)
qed



section \<open>Lines and their words\<close>

lemma map_upt_text:
  assumes "length line < m"
  shows "map (\<lambda>i. if i < length line then line ! i else if i = length line then c else g i) [0..<m] =
    line @ c # map g [Suc (length line)..<m]"
proof -
  have u: "[0..<m] = [0..<length line] @ length line # [Suc (length line)..<m]"
    using assms upt_add_eq_append[of 0 "length line" "m - length line"] upt_conv_Cons[of "length line" m] by simp
  have "map (\<lambda>i. if i < length line then line ! i else if i = length line then c else g i) [0..<length line] = line"
    by (rule nth_equalityI) simp_all
  moreover have "map (\<lambda>i. if i < length line then line ! i else if i = length line then c else g i) [Suc (length line)..<m] =
      map g [Suc (length line)..<m]" by (rule map_cong) auto
  ultimately show ?thesis unfolding u by simp
qed

lemma scratch_text: "NUL \<notin> set line \<Longrightarrow> length line < ESPIX_LINE_MAX \<Longrightarrow> text_at (scratch ops line) 0 line"
  using map_upt_text[of line ESPIX_LINE_MAX NUL "o_stack ops"]
  by (auto simp: text_at_def scratch_def strlcpy_def Let_def simp del: upt_rec_numeral)

lemma exec_one_words:
  assumes "NUL \<notin> set line" "length line < ESPIX_LINE_MAX" "quotes_safe line"
  shows "exec_one ops line st = exec_argv ops (words_of ESPIX_ARGS_MAX line) st"
proof -
  obtain b ws where "espix_split_argv (scratch ops line) ESPIX_ARGS_MAX = Some (b, ws)" "map (str_at b) ws = words_of ESPIX_ARGS_MAX line"
    using split_loop_ok[OF scratch_text[OF assms(1,2), of ops] _ assms(3), of 0 ESPIX_ARGS_MAX] by (auto simp: espix_split_argv_def)
  then show ?thesis by (simp add: exec_one_def)
qed

text \<open>Words that are no redirections pass through.\<close>

definition plain_word :: "nat \<Rightarrow> nat \<Rightarrow> string \<Rightarrow> bool" where
  "plain_word assigned argc w \<longleftrightarrow> take_attached assigned argc w = Att_No \<and> \<not> needs_target w \<and> w \<noteq> ''2>&1''"

lemma redirect_loop_plain:
  "list_all (plain_word assigned argc) ts \<Longrightarrow> redirect_loop ops assigned argc ws False r st ts = Some (Some (ws @ ts), r, st)"
  by (induction ts arbitrary: ws) (simp_all add: redirect_loop.simps(2) plain_word_def)

text \<open>Without assignments the loop stays inside the array: its own check comes first.\<close>

lemma attached_in_bounds: "take_attached 0 argc t \<noteq> Att_Overrun"
  by (auto simp: take_attached_def Let_def split: if_splits prod.splits)

lemma redirect_loop_total:
  "\<exists>res r1 st1. redirect_loop ops 0 argc ws seen r st ts = Some (res, r1, st1) \<and> (\<forall>av. res = Some av \<longrightarrow> length av \<le> length ws + length ts)"
proof (induction "length ts" arbitrary: argc ws seen r st ts rule: less_induct)
  case less
  show ?case
  proof (cases ts)
    case (Cons t us)
    obtain tok rest argc1 where k: "(case take_attached 0 argc t of Att_Split op target \<Rightarrow> (op, target # us, argc + 1) | _ \<Rightarrow> (t, us, argc))
      = (tok, rest, argc1)" by (metis prod_cases3)
    have step: "\<exists>res r1 st1. redirect_loop ops 0 argc2 ws2 seen2 r2 st2 vs = Some (res, r1, st1) \<and> (\<forall>av. res = Some av \<longrightarrow> length av \<le> length ws + length ts)"
      if "length vs < length ts" "length ws2 + length vs \<le> length ws + length ts" for argc2 ws2 seen2 r2 st2 vs
      using less[OF that(1), of argc2 ws2 seen2 r2 st2] that(2) by (meson order_trans)
    note e = redirect_loop.simps(2)[of ops 0 argc ws seen r st t us, unfolded k Let_def prod.case]
    have stop: "take_attached 0 argc t \<noteq> Att_Overrun" by (rule attached_in_bounds)
    show ?thesis
    proof (cases "tok = ''2>&1'' \<or> \<not> needs_target tok")
      case True
      then show ?thesis unfolding Cons e using stop step[of us] Cons by auto
    next
      case False
      show ?thesis
      proof (cases rest)
        case Nil
        then show ?thesis unfolding Cons e using stop False by auto
      next
        case r: (Cons target mt)
        obtain ok r2 st2 where ot: "open_target ops tok target r st = (ok, r2, st2)" by (metis prod_cases3)
        have "length mt \<le> length us" using k r by (auto split: attached.splits)
        then show ?thesis unfolding Cons e using stop False r ot step[of mt ws] Cons by auto
      qed
    qed
  qed simp
qed

lemma exec_one_command:
  assumes "NUL \<notin> set line" "length line < ESPIX_LINE_MAX" "quotes_safe line"
    and "expand_words ops (cur st) 0 (words_of ESPIX_ARGS_MAX line) = Some argv" "argv \<noteq> []" "assignment (hd argv) = None"
  shows "exec_one ops line st = run_words ops 0 espix_env_scope_init argv st"
proof -
  have "words_of ESPIX_ARGS_MAX line \<noteq> []" using assms(4,5) by auto
  then show ?thesis
    using assms(4-6) by (cases argv) (simp_all add: exec_one_words[OF assms(1-3)] exec_argv_def)
qed

lemma run_words_in_bounds: "length argv < ESPIX_ARGS_MAX \<Longrightarrow> run_words ops 0 sc argv st \<noteq> None"
proof -
  assume l: "length argv < ESPIX_ARGS_MAX"
  obtain res r1 st1 where "take_redirects ops 0 argv st = Some (res, r1, st1)" "\<forall>as. res = Some as \<longrightarrow> length as \<le> length argv"
    using redirect_loop_total[of ops "length argv" "[]" False no_redirects st argv] by (auto simp: take_redirects_def)
  then show ?thesis using l by (auto simp: run_words_def Let_def split: option.splits list.splits prod.splits)
qed

text \<open>
  C36. The argument array, where the first word is no assignment: a line of fewer than sixteen words never reaches outside
  it, whatever redirections it has. A line of sixteen words without redirections does: all sixteen entries are
  filled and the terminating null goes to the seventeenth.
\<close>

theorem argv_bound:
  assumes "NUL \<notin> set line" "length line < ESPIX_LINE_MAX" "quotes_safe line"
    and "expand_words ops (cur st) 0 (words_of ESPIX_ARGS_MAX line) = Some argv" "argv \<noteq> []" "assignment (hd argv) = None"
  shows "(length argv < ESPIX_ARGS_MAX \<longrightarrow> exec_one ops line st \<noteq> None) \<and>
    (length argv = ESPIX_ARGS_MAX \<and> list_all (plain_word 0 ESPIX_ARGS_MAX) argv \<longrightarrow> exec_one ops line st = None)"
proof -
  have "run_words ops 0 espix_env_scope_init argv st = None"
    if "length argv = ESPIX_ARGS_MAX" "list_all (plain_word 0 ESPIX_ARGS_MAX) argv"
  proof -
    have "take_redirects ops 0 argv st = Some (Some argv, no_redirects, st)"
      using redirect_loop_plain[OF that(2), of ops "[]"] that(1) by (simp add: take_redirects_def)
    then show ?thesis using that(1) assms(5) by (cases argv) (simp_all add: run_words_def)
  qed
  then show ?thesis using exec_one_command[OF assms] run_words_in_bounds[of argv ops _ st] by metis
qed

section \<open>A concrete shell\<close>

text \<open>A builtin \<^verbatim>\<open>true\<close>, no programs, no process table.\<close>

definition ex_true :: cmd where
  "ex_true = \<lparr>c_name = ''true'', c_fn = \<lambda>av st. (0, st), c_shell = True, c_backgrounds = False, c_internal = False\<rparr>"

definition ex_ops :: shell_ops where
  "ex_ops = \<lparr>o_find = \<lambda>w. if w = ''true'' then Some ex_true else None, o_fallback = None, o_proc = None,
     o_getenv = \<lambda>_. None, o_mem = \<lambda>_ _. True, o_job_mem = True, o_pipe_mem = \<lambda>_. True, o_stage_mem = True,
     o_fopen = \<lambda>_ _ _. True, o_fclose = \<lambda>_. True, o_stopping = False, o_stack = \<lambda>_. CHR ''x''\<rparr>"

definition ex_shell :: shell where
  "ex_shell = \<lparr>cur = \<lparr>s_env = None, s_last = 0, s_pid = 7, s_background = False, s_redirect = None, s_redirect_err = None,
     s_redirect_in = None, s_err_to_out = False, s_jobs = replicate 4 no_job, s_cwd = ''/'', s_home = [], s_user = [], s_uid = 0,
     s_write = True, s_write_err = False, s_on_shell = True\<rparr>, files = [], next_file = 3, said = []\<rparr>"

lemma ex_tidy: "tidy f ex_ops"
  by (simp add: tidy_def ex_ops_def ex_true_def)

lemmas word_chars = blank_def QUOTE_def DQUOTE_def BSLASH_def DOLLAR_def NUL_def

lemma expand_plain: "\<forall>c \<in> set xs. c \<noteq> DOLLAR \<Longrightarrow> length acc + length xs < len \<Longrightarrow> expand_loop get st pid len acc xs = Some (acc @ xs)"
proof -
  assume a: "\<forall>c \<in> set xs. c \<noteq> DOLLAR" "length acc + length xs < len"
  then have "esc xs = xs" by (induction xs) (simp_all add: esc_def)
  then show ?thesis using expand_esc[OF a(2), of get st pid] by simp
qed

lemma expand_words_plain:
  "\<forall>w \<in> set ws. \<forall>c \<in> set w. c \<noteq> DOLLAR \<Longrightarrow> used + sum_list (map (\<lambda>w. Suc (length w)) ws) \<le> ESPIX_LINE_MAX \<Longrightarrow>
   expand_words ops s used ws = Some ws"
  by (induction ws arbitrary: used) (auto simp: expand_token_def expand_plain)




theorem argv_bound_witness:
  "exec_one ex_ops ''a b c d e f g h i j k l m n o p'' ex_shell = None \<and> exec_one ex_ops ''a b >c'' ex_shell \<noteq> None"
proof -
  let ?l = "''a b c d e f g h i j k l m n o p''"
  let ?w = "[''a'', ''b'', ''c'', ''d'', ''e'', ''f'', ''g'', ''h'', ''i'', ''j'', ''k'', ''l'', ''m'', ''n'', ''o'', ''p'']"
  have w: "words_of ESPIX_ARGS_MAX ?l = ?w" by (simp add: numeral_eq_Suc word_chars)
  have q: "quotes_safe ?l" by (simp add: word_chars)
  have e: "expand_words ex_ops (cur ex_shell) 0 (words_of ESPIX_ARGS_MAX ?l) = Some ?w"
    unfolding w by (rule expand_words_plain) (simp_all add: word_chars)
  have p: "list_all (plain_word 0 ESPIX_ARGS_MAX) ?w"
    by (simp add: plain_word_def take_attached_def is_digit_def needs_target_def cchar_def Let_def)
  have w2: "words_of ESPIX_ARGS_MAX ''a b >c'' = [''a'', ''b'', ''>c'']" by (simp add: numeral_eq_Suc word_chars)
  have q2: "quotes_safe ''a b >c''" by (simp add: word_chars)
  have e2: "expand_words ex_ops (cur ex_shell) 0 (words_of ESPIX_ARGS_MAX ''a b >c'') = Some [''a'', ''b'', ''>c'']"
    unfolding w2 by (rule expand_words_plain) (simp_all add: word_chars)
  have "exec_one ex_ops ?l ex_shell = None"
    using argv_bound[OF _ _ q e] p by (simp add: NUL_def assignment_def)
  moreover have "exec_one ex_ops ''a b >c'' ex_shell \<noteq> None"
    using argv_bound[OF _ _ q2 e2] by (simp add: NUL_def assignment_def)
  ultimately show ?thesis ..
qed

text \<open>
  A name assigned twice on a line of its own stays exported: \<^verbatim>\<open>FOO=a FOO=b\<close> with \<^verbatim>\<open>FOO\<close> unset before leaves
  it exported with the second value, while \<^verbatim>\<open>FOO=b\<close> leaves it a plain shell variable. The second word's
  saved state is the one the first word made, which is exported for the length of the line.
\<close>

theorem repeated_assignment_exports:
  assumes "s_env (cur st) = None" "o_mem ops = (\<lambda>_ _. True)"
  shows "(\<exists>st1. exec_one ops ''FOO=a FOO=b'' st = Some (0, st1) \<and> env_map (s_env (cur st1)) ''FOO'' = Some (''b'', True)) \<and>
    (\<exists>st2. exec_one ops ''FOO=b'' st = Some (0, st2) \<and> env_map (s_env (cur st2)) ''FOO'' = Some (''b'', False))"
proof -
  have w: "words_of ESPIX_ARGS_MAX ''FOO=a FOO=b'' = [''FOO=a'', ''FOO=b'']" "words_of ESPIX_ARGS_MAX ''FOO=b'' = [''FOO=b'']"
    by (simp_all add: numeral_eq_Suc word_chars)
  have e: "expand_words ops (cur st) 0 [''FOO=a'', ''FOO=b''] = Some [''FOO=a'', ''FOO=b'']" "expand_words ops (cur st) 0 [''FOO=b''] = Some [''FOO=b'']"
    by (rule expand_words_plain; simp add: word_chars)+
  have as: "assignment ''FOO=a'' = Some (''FOO'', ''a'')" "assignment ''FOO=b'' = Some (''FOO'', ''b'')"
    by (simp_all add: assignment_def is_upper_def name_char_def)
  have ok: "espix_env_name_ok ''FOO''" by (simp add: is_upper_def name_char_def)
  have rep: "replicate ESPIX_ENV_MAX None = (None :: evar option) # replicate 23 None" by (simp add: numeral_eq_Suc)
  have no: "find_slot (is_var n) (replicate k None) = None" for n k by (simp add: find_slot_None is_var_def)
  let ?E = "\<lambda>x b. Some \<lparr>vars = Some \<lparr>vname = ''FOO'', vvalue = x, vexported = b\<rparr> # replicate 23 None, vcount = 1\<rparr>"
  let ?Z = "Some \<lparr>vars = None # replicate 23 None, vcount = 0\<rparr>"
  let ?x = "\<lparr>sname = Some ''FOO'', sold = None\<rparr>" and ?y = "\<lparr>sname = Some ''FOO'', sold = Some (''a'', True)\<rparr>" and ?gone = "\<lparr>sname = None, sold = None\<rparr>"
  have set: "espix_env_set (\<lambda>_. True) e ''FOO'' x True = (ESP_OK, ?E x True)" if "length x = 1" "e = None \<or> e = ?Z" for x e
    using ok that no by (auto simp: espix_env_set_def Let_def empty_env_def rep is_var_def)
  have s1: "espix_env_scope_set (\<lambda>_. True) None [] ''FOO'' x = (ESP_OK, ?E x True, [?x])" if "length x = 1" for x
    using set[OF that] by (simp add: espix_env_scope_set_def env_find_def)
  have s2: "espix_env_scope_set (\<lambda>_. True) (?E ''a'' True) [?x] ''FOO'' ''b'' = (ESP_OK, ?E ''b'' True, [?x, ?y])"
    using set[of "''b''" ?Z] by (simp add: espix_env_scope_set_def env_find_def is_var_def)
  have k: "set_exported (?E v b0) ''FOO'' b = ?E v b" for v b0 b by (simp add: set_exported_def is_var_def)
  have m: "env_map (?E v b) ''FOO'' = Some (v, b)" for v b by (simp add: env_map_def is_var_def)
  have "exec_one ops ''FOO=a FOO=b'' st = Some (0, with_cur (\<lambda>s. s\<lparr>s_env := ?E ''b'' True\<rparr>) st)"
    using assms e(1) as w(1) s1[of "''a''"] s2 k
    by (simp add: exec_one_words NUL_def word_chars exec_argv_def espix_env_scope_init_def espix_env_scope_keep_def scope_end_def
        espix_env_scope_end_def scope_undo_def with_cur_def)
  moreover have "exec_one ops ''FOO=b'' st = Some (0, with_cur (\<lambda>s. s\<lparr>s_env := ?E ''b'' False\<rparr>) st)"
    using assms e(2) as w(2) s1[of "''b''"] k
    by (simp add: exec_one_words NUL_def word_chars exec_argv_def espix_env_scope_init_def espix_env_scope_keep_def scope_end_def
        espix_env_scope_end_def scope_undo_def with_cur_def)
  ultimately show ?thesis using m by simp
qed

theorem repeated_assignment_exports_witness:
  "\<exists>st1. exec_one ex_ops ''FOO=a FOO=b'' ex_shell = Some (0, st1) \<and> env_map (s_env (cur st1)) ''FOO'' = Some (''b'', True)"
proof -
  have "s_env (cur ex_shell) = None" "o_mem ex_ops = (\<lambda>_ _. True)" by (simp_all add: ex_shell_def ex_ops_def)
  from repeated_assignment_exports[OF this] show ?thesis by blast
qed

text \<open>A command that is no builtin, given to a program loader that does not know it either, with one redirection.\<close>

lemma run_not_found:
  assumes f: "o_find ops w = None" "o_fallback ops = Some (\<lambda>av s. (ESPIX_SHELL_ENOENT, s))" and p: "plain_word 0 3 w"
    and op: "op \<in> {''>'', ''2>''}" and t: "open_target ops op target no_redirects st = (True, r, st1)"
  shows "run_words ops 0 [] [w, op, target] st = Some (ESPIX_SHELL_ENOENT,
    with_cur (\<lambda>s. s\<lparr>s_background := s_background (cur st1)\<rparr>) (scope_end [] (redirects_release ops r
      (espix_eprintf ops (Not_Found w) (redirects_apply r (with_cur (\<lambda>s. s\<lparr>s_background := False\<rparr>) st1))))))"
proof -
  have "take_attached 0 3 ''>'' = Att_No" "take_attached 0 3 ''2>'' = Att_No"
    by (simp_all add: take_attached_def is_digit_def cchar_def Let_def NUL_def)
  then have a: "take_attached 0 3 op = Att_No" "needs_target op" "op \<noteq> ''2>&1''"
    using op by (auto simp: needs_target_def)
  have "redirect_loop ops 0 3 [] False no_redirects st [w, op, target] = Some (Some [w], r, st1)"
    using p a t by (simp add: redirect_loop.simps(2) plain_word_def)
  then have "take_redirects ops 0 [w, op, target] st = Some (Some [w], r, st1)" by (simp add: take_redirects_def numeral_3_eq_3)
  then show ?thesis using f by (simp add: run_words_def Let_def dispatch_def)
qed

text \<open>
  Diagnostics follow the error stream and never the output file: when a command is not found, \<^verbatim>\<open>w > f\<close> sends
  the message to where the session's errors go, and \<^verbatim>\<open>w 2> f\<close> puts it into the file that was just opened, which is
  still open then.
\<close>

theorem not_found_message:
  assumes "NUL \<notin> set line" "length line < ESPIX_LINE_MAX" "quotes_safe line"
    and "expand_words ops (cur st) 0 (words_of ESPIX_ARGS_MAX line) = Some [w, op, target]" "assignment w = None" "plain_word 0 3 w"
    and "op \<in> {''>'', ''2>''}" "open_target ops op target no_redirects st = (True, r, st1)"
    and "o_find ops w = None" "o_fallback ops = Some (\<lambda>av s. (ESPIX_SHELL_ENOENT, s))" "o_fclose ops = (\<lambda>_. True)"
  shows "\<exists>st'. exec_one ops line st = Some (ESPIX_SHELL_ENOENT, st') \<and>
    said st' = said st @ [(if op = ''2>'' then To_File (next_file st) else session_err (o_stopping ops) ((cur st)\<lparr>s_err_to_out := False\<rparr>), Not_Found w)]"
proof -
  have r: "st1 = st\<lparr>files := next_file st # files st, next_file := Suc (next_file st)\<rparr>"
    "r = (if op = ''2>'' then no_redirects\<lparr>r_err := Some (next_file st, target)\<rparr> else no_redirects\<lparr>r_out := Some (next_file st, target)\<rparr>)"
    using assms(7,8) by (auto simp: open_target_def fopen_def no_redirects_def Let_def split: sum.splits if_splits)
  have "exec_one ops line st = run_words ops 0 [] [w, op, target] st"
    using exec_one_command[OF assms(1-4)] assms(5) by (simp add: espix_env_scope_init_def)
  then show ?thesis
    using run_not_found[OF assms(9,10,6,7,8)] assms(11)
    by (simp add: r espix_eprintf_def redirects_apply_def redirects_release_def close_reported_def no_redirects_def
        scope_end_def with_cur_def fclose_def session_err_def session_out_def Let_def)
qed

theorem not_found_message_witness:
  "let ops = ex_ops\<lparr>o_fallback := Some (\<lambda>av s. (ESPIX_SHELL_ENOENT, s))\<rparr> in
   \<exists>st'. exec_one ops ''nosuch 2> f'' ex_shell = Some (ESPIX_SHELL_ENOENT, st') \<and> said st' = [(To_File 3, Not_Found ''nosuch'')]"
proof -
  let ?ops = "ex_ops\<lparr>o_fallback := Some (\<lambda>av s. (ESPIX_SHELL_ENOENT, s))\<rparr>"
  have w: "words_of ESPIX_ARGS_MAX ''nosuch 2> f'' = [''nosuch'', ''2>'', ''f'']" by (simp add: numeral_eq_Suc word_chars)
  have q: "quotes_safe ''nosuch 2> f''" by (simp add: word_chars)
  have e: "expand_words ?ops (cur ex_shell) 0 (words_of ESPIX_ARGS_MAX ''nosuch 2> f'') = Some [''nosuch'', ''2>'', ''f'']"
    unfolding w by (rule expand_words_plain) (simp_all add: word_chars)
  have p: "plain_word 0 3 ''nosuch''"
    by (simp add: plain_word_def take_attached_def is_digit_def needs_target_def cchar_def Let_def)
  have "abs_path ''/''" "is_cstr ''f''" "joined ''/'' ''f'' = ''//f'' \<or> joined ''/'' ''f'' = ''/f''"
    by (simp_all add: abs_path_def is_cstr_def joined_def NUL_def)
  then obtain b where b: "espix_fs_resolve (Some ''/'') (Some ''f'') (Some (replicate ESPIX_PATH_MAX NUL)) = Inr b"
    using resolve_value[of "''/''" "''f''" "replicate ESPIX_PATH_MAX NUL"] by auto
  then obtain r st1 where t: "open_target ?ops ''2>'' ''f'' no_redirects ex_shell = (True, r, st1)"
    by (simp add: open_target_def fopen_def ex_ops_def ex_shell_def no_redirects_def Let_def)
  have c: "NUL \<notin> set ''nosuch 2> f''" "length ''nosuch 2> f'' < ESPIX_LINE_MAX" "assignment ''nosuch'' = None" "''2>'' \<in> {''>'', ''2>''}"
    by (simp_all add: NUL_def assignment_def)
  have o: "o_find ?ops ''nosuch'' = None" "o_fallback ?ops = Some (\<lambda>av s. (ESPIX_SHELL_ENOENT, s))" "o_fclose ?ops = (\<lambda>_. True)"
    by (simp_all add: ex_ops_def)
  have "said ex_shell = []" "next_file ex_shell = 3" by (simp_all add: ex_shell_def)
  then show ?thesis using not_found_message[OF c(1,2) q e c(3) p c(4) t o] by simp
qed

lemma dec_127: "dec (- 127) = ''-127''" "dec 127 = ''127''"
  by (simp_all add: dec_def dec_nat.simps[of 127] dec_nat.simps[of 12] dec_nat.simps[of "Suc 0"] char_of_def bit_0)

lemma expand_status: "s_last s = v \<Longrightarrow> length (dec v) < ESPIX_LINE_MAX \<Longrightarrow> expand_words ops s 0 [''$?''] = Some [dec v]"
  by (simp add: expand_token_def expand_loop.simps(2) DOLLAR_def BSLASH_def)

lemma exec_not_found:
  assumes f: "o_find ops ''nosuch'' = None" "o_fallback ops = Some fn" "\<And>s. fst (fn [''nosuch''] s) = ESPIX_SHELL_ENOENT"
  shows "\<exists>st'. run_pipeline ops ''nosuch'' st = Some (ESPIX_SHELL_ENOENT, st')"
proof -
  have w: "words_of ESPIX_ARGS_MAX ''nosuch'' = [''nosuch'']" by (simp add: numeral_eq_Suc word_chars)
  have e: "expand_words ops (cur st) 0 (words_of ESPIX_ARGS_MAX ''nosuch'') = Some [''nosuch'']"
    unfolding w by (rule expand_words_plain) (simp_all add: word_chars)
  have q: "quotes_safe ''nosuch''" by (simp add: word_chars)
  have p: "plain_word 0 1 ''nosuch''"
    by (simp add: plain_word_def take_attached_def is_digit_def needs_target_def cchar_def Let_def)
  have x: "exec_one ops ''nosuch'' st = run_words ops 0 espix_env_scope_init [''nosuch''] st"
    by (rule exec_one_command[OF _ _ q e]) (simp_all add: NUL_def assignment_def)
  have t: "take_redirects ops 0 [''nosuch''] st = Some (Some [''nosuch''], no_redirects, st)"
    using redirect_loop_plain[of 0 1 "[''nosuch'']" ops "[]"] p by (simp add: take_redirects_def)
  have "\<exists>st'. run_words ops 0 espix_env_scope_init [''nosuch''] st = Some (ESPIX_SHELL_ENOENT, st')"
    using t f(1,2) f(3)[of "redirects_apply no_redirects (with_cur (\<lambda>s. s\<lparr>s_background := False\<rparr>) st)"]
    by (auto simp: run_words_def Let_def dispatch_def split: prod.splits)
  moreover have "split_stages [] ''nosuch'' = [''nosuch'']" by (simp add: is_quote_def QUOTE_def DQUOTE_def)
  ultimately show ?thesis using x by (simp add: run_pipeline_def)
qed



end
