(* ===== verification/Svc.thy ===== *)
theory Svc
  imports Fs_Conf Shell_Expand
begin

text \<open>
  The supervisor, \<^verbatim>\<open>components/espix_svc/svc.c\<close>: the units file, the table of units, restarts, schedules and
  requirements, and the operations of the \<^verbatim>\<open>service\<close> command.

  A pid is \<open>None\<close> for \<^verbatim>\<open>ESPIX_PID_NONE\<close>. The process table is an argument: what a wait on a pid answers, and
  which pid a spawn gives. Time is in microseconds; the clock is read
  once a turn, again for a unit that exits, and once a load. What is logged is left out; starts and signals are events.
\<close>

section \<open>Units\<close>

abbreviation SVC_MAX :: nat where "SVC_MAX \<equiv> 8"
abbreviation SVC_LINE_MAX :: nat where "SVC_LINE_MAX \<equiv> 256"
abbreviation SVC_MAX_RESTARTS :: nat where "SVC_MAX_RESTARTS \<equiv> 5"
abbreviation SVC_MAX_RETRIES :: nat where "SVC_MAX_RETRIES \<equiv> 3"
abbreviation SVC_SUCCESS_MAX :: nat where "SVC_SUCCESS_MAX \<equiv> 4"
abbreviation SVC_REQUIRES_LEN :: nat where "SVC_REQUIRES_LEN \<equiv> 64"
abbreviation ESPIX_SVC_NAME_MAX :: nat where "ESPIX_SVC_NAME_MAX \<equiv> 32"
abbreviation SVC_FIRST_DUE_US :: int where "SVC_FIRST_DUE_US \<equiv> 30000000"
abbreviation SVC_RETRY_US :: int where "SVC_RETRY_US \<equiv> 60000000"

datatype why = Not_A_Unit | Not_Running | Not_Finished | Failed

record svc_unit =
  u_name :: string
  u_cmdline :: string
  u_always :: bool
  u_enabled :: bool
  u_pid :: "nat option"
  u_restarts :: nat
  u_stop :: bool
  u_ran :: bool
  u_last_code :: int
  u_last_ok :: bool
  u_success :: "int list"
  u_requires :: string
  u_waiting :: "why option"
  u_every :: nat
  u_next_due :: int
  u_fails :: nat

definition zero_unit :: svc_unit where
  "zero_unit = \<lparr>u_name = [], u_cmdline = [], u_always = False, u_enabled = False, u_pid = None, u_restarts = 0, u_stop = False,
     u_ran = False, u_last_code = 0, u_last_ok = False, u_success = [], u_requires = [], u_waiting = None, u_every = 0,
     u_next_due = 0, u_fails = 0\<rparr>"

definition unit_find :: "svc_unit list \<Rightarrow> string \<Rightarrow> nat option" where
  "unit_find us name = find_slot (\<lambda>u. u_name u = name) us"

section \<open>The units file\<close>

text \<open>\<^verbatim>\<open>strtol(s, &end, 10)\<close> for a 32-bit long: the value, clamped, and the text at \<open>end\<close>; nothing when no digit
  is there.\<close>

definition is_cspace :: "char \<Rightarrow> bool" where
  "is_cspace c \<longleftrightarrow> c = CHR '' '' \<or> 9 \<le> (of_char c :: nat) \<and> (of_char c :: nat) \<le> 13"

definition strtol :: "string \<Rightarrow> (int \<times> string) option" where
  "strtol s =
     (let t = dropWhile is_cspace s;
          neg = (t \<noteq> [] \<and> hd t = CHR ''-'');
          r = (if t \<noteq> [] \<and> (hd t = CHR ''-'' \<or> hd t = CHR ''+'') then tl t else t);
          ds = takeWhile is_digit r;
          v = foldl (\<lambda>a c. 10 * a + (int (of_char c) - 48)) 0 ds
      in if ds = [] then None
         else Some (max (- (2 ^ 31)) (min (2 ^ 31 - 1) (if neg then - v else v)), dropWhile is_digit r))"

definition parse_duration :: "string \<Rightarrow> nat" where
  "parse_duration s =
     (case strtol s of
        None \<Rightarrow> 0
      | Some (v, e) \<Rightarrow>
          if v \<le> 0 then 0
          else
            (let c = cchar e 0;
                 mult = (if c = NUL \<or> c = CHR ''s'' \<or> c = CHR ''S'' then 1 else if c = CHR ''m'' \<or> c = CHR ''M'' then 60
                         else if c = CHR ''h'' \<or> c = CHR ''H'' then 3600 else if c = CHR ''d'' \<or> c = CHR ''D'' then 86400 else 0);
                 total = nat v * mult
             in if 0xFFFFFFFF < total then 0 else total))"

definition is_blank :: "char \<Rightarrow> bool" where "is_blank c \<longleftrightarrow> c = CHR '' '' \<or> c = CHR 0x09"
definition is_sep :: "char \<Rightarrow> bool" where "is_sep c \<longleftrightarrow> is_blank c \<or> c = LF"

text \<open>The word, and the text after the separator that ended it.\<close>

definition next_word :: "string \<Rightarrow> string option \<times> string" where
  "next_word p =
     (let w = dropWhile is_blank p in
      if w = [] \<or> hd w = LF then (None, w)
      else (Some (takeWhile (\<lambda>c. \<not> is_sep c) w), drop 1 (dropWhile (\<lambda>c. \<not> is_sep c) w)))"

text \<open>The text before the word again, after the separator that ended it was overwritten and put back as a blank.\<close>

definition put_back :: "string \<Rightarrow> string" where
  "put_back p =
     (let w = dropWhile is_blank p; r = dropWhile (\<lambda>c. \<not> is_sep c) w
      in takeWhile is_blank p @ takeWhile (\<lambda>c. \<not> is_sep c) w @ (if r = [] then [] else CHR '' '' # tl r))"

lemma next_word_shorter: "next_word p = (Some w, q) \<Longrightarrow> length q < length p"
proof -
  assume a: "next_word p = (Some w, q)"
  let ?w = "dropWhile is_blank p"
  have w: "?w \<noteq> []" "q = drop 1 (dropWhile (\<lambda>c. \<not> is_sep c) ?w)" using a by (auto simp: next_word_def Let_def split: if_splits)
  have "length (dropWhile (\<lambda>c. \<not> is_sep c) ?w) \<le> length ?w" by (rule length_dropWhile_le)
  then have "length q < length ?w" using w(2) a by (cases ?w) (auto simp: next_word_def)
  then show ?thesis using length_dropWhile_le[of is_blank p] by simp
qed

lemma strtol_shorter: "strtol s = Some (v, e) \<Longrightarrow> length e < length s"
proof -
  assume a: "strtol s = Some (v, e)"
  let ?t = "dropWhile is_cspace s"
  define r where "r = (if ?t \<noteq> [] \<and> (hd ?t = CHR ''-'' \<or> hd ?t = CHR ''+'') then tl ?t else ?t)"
  have r: "takeWhile is_digit r \<noteq> []" "e = dropWhile is_digit r" using a by (auto simp: strtol_def r_def Let_def split: if_splits)
  have "length e < length r" using r by (cases r) (auto simp: le_imp_less_Suc length_dropWhile_le split: if_splits)
  moreover have "length r \<le> length s" using length_dropWhile_le[of is_cspace s] by (auto simp: r_def)
  ultimately show ?thesis by simp
qed

text \<open>\<^verbatim>\<open>success=\<close>: the statuses so far, and those of the list added.\<close>

function success_loop :: "int list \<Rightarrow> string \<Rightarrow> int list option" where
  "success_loop acc v =
     (if v = [] then Some acc
      else
        (case strtol v of
           None \<Rightarrow> None
         | Some (c, e) \<Rightarrow>
             if c < 0 \<or> 255 < c \<or> SVC_SUCCESS_MAX \<le> length acc \<or> (e \<noteq> [] \<and> hd e \<noteq> CHR '','') then None
             else success_loop (acc @ [c]) (if e \<noteq> [] then tl e else e)))"
  by pat_completeness auto
termination
  by (relation "measure (\<lambda>(acc, v). length v)") (auto dest: strtol_shorter)

declare success_loop.simps [simp del]

definition parse_success :: "int list \<Rightarrow> string \<Rightarrow> int list option" where
  "parse_success acc v = (case success_loop acc v of None \<Rightarrow> None | Some cs \<Rightarrow> if cs = [] then None else Some cs)"

definition unit_is_sshd :: "string \<Rightarrow> bool" where
  "unit_is_sshd cmdline \<longleftrightarrow> starts_with cmdline ''sshd'' \<and>
     (cchar cmdline 4 = NUL \<or> cchar cmdline 4 = CHR '' '' \<or> cchar cmdline 4 = CHR 0x09)"

text \<open>The options up to the command: the unit with them, and the text of the command; nothing when one is bad.\<close>

function parse_options :: "svc_unit \<Rightarrow> string \<Rightarrow> (svc_unit \<times> string) option" where
  "parse_options u p =
     (case next_word p of
        (None, q) \<Rightarrow> Some (u, p)
      | (Some w, q) \<Rightarrow>
          if starts_with w ''success='' then
            (case parse_success (u_success u) (drop 8 w) of
               None \<Rightarrow> None
             | Some cs \<Rightarrow> parse_options (u\<lparr>u_success := cs\<rparr>) q)
          else if starts_with w ''requires='' then
            (if drop 9 w = [] \<or> SVC_REQUIRES_LEN \<le> length (drop 9 w) then None
             else parse_options (u\<lparr>u_requires := drop 9 w\<rparr>) q)
          else Some (u, put_back p))"
  by pat_completeness auto
termination
  by (relation "measure (\<lambda>(u, p). length p)") (auto dest: next_word_shorter sym[of _ "next_word _"])

declare parse_options.simps [simp del]

text \<open>The interval of \<^verbatim>\<open>every\<close>, zero when it is bad or another policy, and the text after it.\<close>

definition parse_schedule :: "string \<Rightarrow> string \<Rightarrow> nat \<times> string" where
  "parse_schedule restart p =
     (if restart = ''every'' then
        (case next_word p of (None, q) \<Rightarrow> (0, q) | (Some i, q) \<Rightarrow> (parse_duration i, q))
      else (0, p))"

text \<open>A line of the file: the unit it declares.\<close>

definition units_parse :: "bool \<Rightarrow> int \<Rightarrow> string \<Rightarrow> svc_unit option" where
  "units_parse safe now line =
     (case next_word line of
        (None, _) \<Rightarrow> None
      | (Some name, p1) \<Rightarrow>
          (case next_word p1 of
             (None, _) \<Rightarrow> None
           | (Some restart, p2) \<Rightarrow>
               if hd name = CHR ''#'' \<or> ESPIX_SVC_NAME_MAX \<le> length name then None
               else
                 (let (every, p3) = parse_schedule restart p2 in
                  if restart = ''every'' \<and> every = 0 then None
                     else
                       (case parse_options (zero_unit\<lparr>u_every := every\<rparr>) p3 of
                          None \<Rightarrow> None
                        | Some (u, p) \<Rightarrow>
                            (let cmd = takeWhile (\<lambda>c. c \<noteq> LF) (dropWhile is_blank p) in
                             if cmd = [] then None
                             else Some (u\<lparr>u_name := name, u_cmdline := strlcpy ESPIX_PATH_MAX cmd, u_always := (restart = ''always''),
                                         u_enabled := (\<not> safe \<or> unit_is_sshd cmd), u_next_due := now + SVC_FIRST_DUE_US\<rparr>))))))"

text \<open>The lines of a file as \<^verbatim>\<open>fgets\<close> gives them, until the table is full.\<close>

function load_lines :: "bool \<Rightarrow> int \<Rightarrow> svc_unit list \<Rightarrow> string \<Rightarrow> svc_unit list" where
  "load_lines safe now us f =
     (if SVC_MAX \<le> length us then us
      else
        (case fgets SVC_LINE_MAX f of
           None \<Rightarrow> us
         | Some (chunk, rest, eof) \<Rightarrow>
             load_lines safe now
               (case units_parse safe now (cstr_of chunk) of None \<Rightarrow> us | Some u \<Rightarrow> us @ [u]) rest))"
  by pat_completeness auto
termination
proof (relation "measure (\<lambda>(safe, now, us, f). length f)", goal_cases)
  case (2 safe now us f x chunk y rest eof)
  then show ?case using fgets_shorter[of SVC_LINE_MAX f chunk rest eof] by simp
qed simp

declare load_lines.simps [simp del]

fun parse_lines :: "bool \<Rightarrow> int \<Rightarrow> svc_unit list \<Rightarrow> string list \<Rightarrow> svc_unit list" where
  "parse_lines safe now us [] = us"
| "parse_lines safe now us (l # ls) =
     (if SVC_MAX \<le> length us then us
      else parse_lines safe now (case units_parse safe now l of None \<Rightarrow> us | Some u \<Rightarrow> us @ [u]) ls)"

definition SVC_SSHD_LINE :: string where
  "SVC_SSHD_LINE = ''sshd  always  sshd'' @ [LF]"

text \<open>The lines of \<^verbatim>\<open>SVC_DEFAULT_UNITS\<close>; \<^verbatim>\<open>strtok\<close> passes over the empty ones.\<close>

definition SVC_DEFAULT_UNITS :: "string list" where
  "SVC_DEFAULT_UNITS =
    [''# What espix runs at boot: one unit per line.'',
     ''#'',
     ''#   <name>  <restart>  [options]  <command> [args...]'',
     ''#'',
     ''#   name      what service and the klog call it; unique'',
     ''#   restart   always    start it, and again whenever it exits'',
     ''#             once      run it once'',
     ''#             every N   run it on that schedule (s, m, h, d)'',
     ''#   options   success=N[,N]   exit statuses besides 0 that mean it worked'',
     ''#             requires=A[,B]  start once those are up: a once unit has'',
     ''#                             succeeded, an always unit is running'',
     ''#   command   a program if it starts with /, else a shell builtin; it runs'',
     ''#             as root with no terminal, and its output goes to the klog'',
     ''#'',
     ''# service lists the units; service reload applies an edit.'',
     [],
     ''# The SSH server. Without it the serial console is the only way in, so it'',
     ''# starts even in safe mode.'',
     ''sshd  always  sshd'',
     [],
     ''# Ask every six hours whether a newer build exists; 100 means one does.'',
     ''autoupdate  every 6h  success=100  upgrade --check'',
     [],
     ''# Network file sharing. nfsd serves what /etc/exports lists over NFSv3;'',
     ''# smbd serves the share /etc/smb.conf describes over SMB2/3, to guests and'',
     ''# to the user it names, which is what Windows needs.'',
     ''# nfsd  always  nfsd'',
     ''# smbd  always  smbd'',
     [],
     ''# Bring wg0 up with the peers in /etc/vpn.'',
     ''# vpn  once  vpn up'',
     [],
     ''# The canvas and its VNC server, then the desktop on it.'',
     ''# vnc      once  vnc start'',
     ''# desktop  once  requires=vnc  desktop start'',
     [],
     ''# Dynamic DNS through dynu, every 15 minutes. Use the IP-update password:'',
     ''# fetch masks it in the log, but this file holds it.'',
     ''# dynu  every 15m  fetch https://api.dynu.com/nic/update?hostname=HOST&password=PASSWORD /tmp/ddns.out'']"

text \<open>The file: its text, not there, or there and unreadable. Opening it for writing gives no descriptor, a
  descriptor without a stream (the file is truncated by then), or works.\<close>

datatype units_file = Readable string | Missing | Unreadable
datatype write_open = No_Fd | No_Stream | Writes

definition names_sshd :: "string \<Rightarrow> bool" where
  "names_sshd line =
     (let w = dropWhile (\<lambda>c. is_blank c \<or> c = CHR ''#'') line in
      starts_with w ''sshd'' \<and> (cchar w 4 = CHR '' '' \<or> cchar w 4 = CHR 0x09))"

text \<open>The pass over the file: the text copied, whether sshd is named, where the opening comment ends, and
  whether it still lasts.\<close>

function sshd_scan :: "string \<times> bool \<times> nat \<times> bool \<Rightarrow> string \<Rightarrow> string \<times> bool \<times> nat \<times> bool" where
  "sshd_scan acc f =
     (case fgets SVC_LINE_MAX f of
        None \<Rightarrow> acc
      | Some (chunk, rest, eof) \<Rightarrow>
          (case acc of (text, named, head, in_head) \<Rightarrow>
             let line = cstr_of chunk; text1 = text @ line; c = cchar line 0 in
             sshd_scan (text1, named \<or> names_sshd line, if in_head \<and> c = CHR ''#'' then length text1 else head,
                        in_head \<and> c = CHR ''#'') rest))"
  by pat_completeness auto
termination
proof (relation "measure (\<lambda>(acc, f). length f)", goal_cases)
  case (2 acc f x chunk y rest eof)
  then show ?case using fgets_shorter[of SVC_LINE_MAX f chunk rest eof] by simp
qed simp

declare sshd_scan.simps [simp del]

definition units_add_sshd :: "bool \<Rightarrow> write_open \<Rightarrow> units_file \<Rightarrow> units_file" where
  "units_add_sshd mem wr fl =
     (case fl of
        Readable f \<Rightarrow>
          if \<not> mem then fl
          else
            (case sshd_scan ([], False, 0, True) f of (text, named, head, _) \<Rightarrow>
               if named then fl
               else (case wr of
                       No_Fd \<Rightarrow> fl
                     | No_Stream \<Rightarrow> Readable []
                     | Writes \<Rightarrow> Readable (take head text @ (if 0 < head then [LF] else []) @ SVC_SSHD_LINE @ drop head text)))
      | _ \<Rightarrow> fl)"

text \<open>Starts by table index, and signals to end.\<close>

datatype svc_event = Start nat nat | Term nat

record svc =
  units :: "svc_unit list"
  safe_mode :: bool
  started :: bool
  ufile :: units_file

text \<open>What a unit still declared takes over.\<close>

definition carry_over :: "bool \<Rightarrow> svc_unit list \<Rightarrow> svc_unit \<Rightarrow> svc_unit" where
  "carry_over safe olds u =
     (case unit_find olds (u_name u) of
        None \<Rightarrow> u
      | Some i \<Rightarrow>
          (let old = olds ! i in
           u\<lparr>u_pid := u_pid old, u_restarts := u_restarts old, u_next_due := u_next_due old, u_fails := u_fails old,
             u_stop := u_stop old, u_ran := u_ran old, u_last_code := u_last_code old, u_last_ok := u_last_ok old,
             u_enabled := (if safe then u_enabled u else u_enabled old)\<rparr>))"

definition removed_pids :: "svc_unit list \<Rightarrow> svc_unit list \<Rightarrow> nat list" where
  "removed_pids olds fresh =
     List.map_filter (\<lambda>u. if list_ex (\<lambda>v. u_name v = u_name u) fresh then None else u_pid u) olds"

text \<open>The seed is written when it can be; the default is parsed from memory either way.\<close>

definition units_load :: "bool \<Rightarrow> write_open \<Rightarrow> bool \<Rightarrow> int \<Rightarrow> svc \<Rightarrow> bool \<times> svc \<times> svc_event list" where
  "units_load mem wr copy_mem now s =
     (let f1 = units_add_sshd mem wr (ufile s) in
      case f1 of
        Unreadable \<Rightarrow> (False, s\<lparr>ufile := f1\<rparr>, [])
      | _ \<Rightarrow>
          (let (fresh, f2) =
                 (case f1 of
                    Readable f \<Rightarrow> (load_lines (safe_mode s) now [] f, f1)
                  | _ \<Rightarrow>
                      (if copy_mem then parse_lines (safe_mode s) now [] (filter (\<lambda>l. l \<noteq> []) SVC_DEFAULT_UNITS) else [],
                       if wr = Writes then Readable (concat (map (\<lambda>l. l @ [LF]) SVC_DEFAULT_UNITS)) else if wr = No_Stream then Readable [] else f1))
           in (True,
               s\<lparr>units := map (carry_over (safe_mode s) (units s)) fresh, ufile := f2\<rparr>,
               map Term (removed_pids (units s) fresh))))"

section \<open>Running them\<close>

definition unit_succeeded :: "svc_unit \<Rightarrow> int \<Rightarrow> bool" where
  "unit_succeeded u code \<longleftrightarrow> code \<in> set (u_success u) \<or> code = 0"

definition unit_exited :: "int \<Rightarrow> svc_unit \<Rightarrow> int \<Rightarrow> svc_unit" where
  "unit_exited now u code =
     (let ok = unit_succeeded u code; u1 = u\<lparr>u_last_code := code, u_last_ok := ok\<rparr> in
      if 0 < u_every u then
        (if \<not> ok \<and> u_fails u < SVC_MAX_RETRIES
         then u1\<lparr>u_next_due := now + SVC_RETRY_US, u_fails := Suc (u_fails u)\<rparr>
         else u1\<lparr>u_next_due := now + int (u_every u) * 1000000, u_fails := 0\<rparr>)
      else if u_always u \<and> u_enabled u then
        (let n = Suc (u_restarts u) in
         if SVC_MAX_RESTARTS < n then u1\<lparr>u_enabled := False, u_restarts := n\<rparr> else u1\<lparr>u_restarts := n\<rparr>)
      else u1\<lparr>u_enabled := False\<rparr>)"

text \<open>\<^verbatim>\<open>strtok\<close>: the pieces between the separators, the empty ones left out.\<close>

function tokens :: "char \<Rightarrow> string \<Rightarrow> string list" where
  "tokens sep xs =
     (let w = dropWhile (\<lambda>c. c = sep) xs in
      if w = [] then [] else takeWhile (\<lambda>c. c \<noteq> sep) w # tokens sep (dropWhile (\<lambda>c. c \<noteq> sep) w))"
  by pat_completeness auto
termination
proof (relation "measure (\<lambda>(sep, xs). length xs)", goal_cases)
  case (2 sep xs w)
  have "hd w \<noteq> sep" using 2 hd_dropWhile[of "\<lambda>c. c = sep" xs] by simp
  then have "length (dropWhile (\<lambda>c. c \<noteq> sep) w) < length w"
    using 2(2) by (cases w) (auto simp: le_imp_less_Suc length_dropWhile_le)
  then show ?case using 2(1) length_dropWhile_le[of "\<lambda>c. c = sep" xs] by simp
qed simp

declare tokens.simps [simp del]

definition dep_state :: "svc_unit list \<Rightarrow> string \<Rightarrow> why option" where
  "dep_state us name =
     (case unit_find us name of
        None \<Rightarrow> Some Not_A_Unit
      | Some i \<Rightarrow>
          (let d = us ! i in
           if u_always d then (if u_pid d \<noteq> None then None else Some Not_Running)
           else if u_pid d \<noteq> None \<or> \<not> u_ran d then Some Not_Finished
           else if \<not> u_last_ok d then Some Failed else None))"

definition unit_blocked :: "svc_unit list \<Rightarrow> svc_unit \<Rightarrow> why option" where
  "unit_blocked us u =
     (case find (\<lambda>n. dep_state us n \<noteq> None) (tokens (CHR '','') (strlcpy SVC_REQUIRES_LEN (u_requires u))) of
        None \<Rightarrow> None
      | Some n \<Rightarrow> dep_state us n)"

text \<open>The process table and the command registry, as one turn of the loop finds them.\<close>

record proc_env =
  e_now :: int
  e_clock :: "nat \<Rightarrow> int"
  e_wait :: "nat \<Rightarrow> int option"
  e_shutdown :: bool
  e_elf :: "nat \<Rightarrow> string list \<Rightarrow> nat option"
  e_cmd :: "string \<Rightarrow> bool"
  e_mem :: bool
  e_fn :: "nat \<Rightarrow> string list \<Rightarrow> nat option"

definition unit_start :: "proc_env \<Rightarrow> nat \<Rightarrow> svc_unit \<Rightarrow> svc_unit \<times> svc_event list" where
  "unit_start e i u =
     (let argv = take 16 (tokens (CHR '' '') (strlcpy ESPIX_PATH_MAX (u_cmdline u)));
          off = (u\<lparr>u_enabled := False\<rparr>, []);
          spawned = (\<lambda>r. case r of
            None \<Rightarrow> (u\<lparr>u_enabled := False, u_pid := None\<rparr>, [])
          | Some pid \<Rightarrow> (u\<lparr>u_pid := Some pid, u_ran := True\<rparr>, [Start i pid]))
      in if argv = [] then off
         else if cchar (hd argv) 0 = CHR ''/'' then spawned (e_elf e i argv)
         else if \<not> e_cmd e (hd argv) then off
         else if \<not> e_mem e then off
         else spawned (e_fn e i argv))"

text \<open>One unit's turn.\<close>

definition reap :: "proc_env \<Rightarrow> svc_unit \<Rightarrow> svc_unit" where
  "reap e u =
     (case u_pid u of
        None \<Rightarrow> u
      | Some pid \<Rightarrow>
          (case e_wait e pid of
             None \<Rightarrow> u
           | Some code \<Rightarrow> unit_exited (e_clock e pid) (u\<lparr>u_pid := None, u_stop := False\<rparr>) code))"

definition due :: "proc_env \<Rightarrow> svc_unit \<Rightarrow> bool" where
  "due e u \<longleftrightarrow> u_enabled u \<and> u_pid u = None \<and> \<not> e_shutdown e \<and> (u_every u = 0 \<or> u_next_due u \<le> e_now e)"

definition visit :: "proc_env \<Rightarrow> nat \<Rightarrow> svc_unit list \<Rightarrow> svc_unit list \<times> svc_event list" where
  "visit e i us =
     (let u = reap e (us ! i); us1 = us[i := u] in
      if due e u then
        (case unit_blocked us1 u of
           None \<Rightarrow> (case unit_start e i (u\<lparr>u_waiting := None\<rparr>) of (u2, ev) \<Rightarrow> (us1[i := u2], ev))
         | Some w \<Rightarrow> (us1[i := u\<lparr>u_waiting := Some w\<rparr>], []))
      else (us1, []))"

fun visits :: "proc_env \<Rightarrow> nat list \<Rightarrow> svc_unit list \<Rightarrow> svc_unit list \<times> svc_event list" where
  "visits e [] us = (us, [])"
| "visits e (i # is) us = (case visit e i us of (us1, ev) \<Rightarrow> (case visits e is us1 of (us2, ev2) \<Rightarrow> (us2, ev @ ev2)))"

definition supervisor_turn :: "proc_env \<Rightarrow> svc \<Rightarrow> svc \<times> svc_event list" where
  "supervisor_turn e s = (case visits e [0..<length (units s)] (units s) of (us, ev) \<Rightarrow> (s\<lparr>units := us\<rparr>, ev))"

section \<open>The service command\<close>

text \<open>The initialisation: the lock, the state a fault left, the file, and the supervisor as process 1.\<close>

definition espix_svc_init ::
  "bool \<Rightarrow> bool \<Rightarrow> bool \<Rightarrow> bool \<Rightarrow> write_open \<Rightarrow> bool \<Rightarrow> int \<Rightarrow> esp_err \<Rightarrow> svc \<Rightarrow> esp_err \<times> svc \<times> svc_event list" where
  "espix_svc_init lock have_dump crashed mem wr copy_mem now spawn s =
     (if started s then (ESP_OK, s, [])
      else if \<not> lock then (ESP_ERR_NO_MEM, s, [])
      else
        (case units_load mem wr copy_mem now (if have_dump \<or> crashed then s\<lparr>safe_mode := True\<rparr> else s) of
           (_, s1, ev) \<Rightarrow> (spawn, s1\<lparr>started := True\<rparr>, ev)))"

definition espix_svc_count :: "svc \<Rightarrow> nat" where
  "espix_svc_count s = (if \<not> started s then 0 else length (units s))"

record svc_info =
  i_name :: string
  i_pid :: "nat option"
  i_always :: bool
  i_enabled :: bool
  i_every :: nat
  i_restarts :: nat
  i_stopping :: bool
  i_ran :: bool
  i_last_code :: int
  i_last_ok :: bool
  i_waiting :: bool

definition espix_svc_info :: "int \<Rightarrow> svc \<Rightarrow> svc_info option" where
  "espix_svc_info index s =
     (if \<not> started s then None
      else if 0 \<le> index \<and> index < int (length (units s)) then
        (let u = units s ! nat index in
         Some \<lparr>i_name = strlcpy ESPIX_SVC_NAME_MAX (u_name u), i_pid = u_pid u, i_always = u_always u, i_enabled = u_enabled u,
           i_every = u_every u, i_restarts = u_restarts u, i_stopping = u_stop u, i_ran = u_ran u, i_last_code = u_last_code u,
           i_last_ok = u_last_ok u, i_waiting = (u_waiting u \<noteq> None \<and> u_pid u = None)\<rparr>)
      else None)"

definition espix_svc_start :: "string \<Rightarrow> svc \<Rightarrow> esp_err \<times> svc" where
  "espix_svc_start name s =
     (if \<not> started s then (ESP_ERR_INVALID_STATE, s)
      else
        (case unit_find (units s) name of
           None \<Rightarrow> (ESP_ERR_NOT_FOUND, s)
         | Some i \<Rightarrow> (ESP_OK, s\<lparr>units := (units s)[i := (units s ! i)\<lparr>u_enabled := True, u_restarts := 0\<rparr>]\<rparr>)))"

definition espix_svc_stop :: "string \<Rightarrow> svc \<Rightarrow> esp_err \<times> svc \<times> svc_event list" where
  "espix_svc_stop name s =
     (if \<not> started s then (ESP_ERR_INVALID_STATE, s, [])
      else
        (case unit_find (units s) name of
           None \<Rightarrow> (ESP_ERR_NOT_FOUND, s, [])
         | Some i \<Rightarrow>
             (let u = units s ! i in
              case u_pid u of
                None \<Rightarrow> (ESP_OK, s\<lparr>units := (units s)[i := u\<lparr>u_enabled := False\<rparr>]\<rparr>, [])
              | Some pid \<Rightarrow> (ESP_OK, s\<lparr>units := (units s)[i := u\<lparr>u_enabled := False, u_stop := True\<rparr>]\<rparr>, [Term pid]))))"

definition espix_svc_reload :: "bool \<Rightarrow> write_open \<Rightarrow> bool \<Rightarrow> int \<Rightarrow> svc \<Rightarrow> esp_err \<times> svc \<times> svc_event list" where
  "espix_svc_reload mem wr copy_mem now s =
     (if \<not> started s then (ESP_ERR_INVALID_STATE, s, [])
      else
        (case units_load mem wr copy_mem now (s\<lparr>safe_mode := False\<rparr>) of
           (False, s1, ev) \<Rightarrow> (ESP_FAIL, s1\<lparr>safe_mode := safe_mode s\<rparr>, ev)
         | (True, s1, ev) \<Rightarrow>
             (ESP_OK, if safe_mode s then s1\<lparr>units := map (\<lambda>u. u\<lparr>u_enabled := True\<rparr>) (units s1)\<rparr> else s1, ev)))"

end
