(* ===== verification/Svc_Run.thy ===== *)
theory Svc_Run
  imports Svc
begin

text \<open>
  The supervisor at work, over the definitions of \<open>Svc\<close>: how often a unit is started, what has to be up
  before it, what a reload keeps, what a table holds in every state it can reach, and the lines of the units file read back.
\<close>

section \<open>Runs of the supervisor\<close>

fun turns :: "proc_env list \<Rightarrow> svc \<Rightarrow> svc \<times> svc_event list" where
  "turns [] s = (s, [])"
| "turns (e # es) s =
     (case supervisor_turn e s of (s1, ev) \<Rightarrow> (case turns es s1 of (s2, ev2) \<Rightarrow> (s2, ev @ ev2)))"

fun starts :: "nat \<Rightarrow> svc_event list \<Rightarrow> nat" where
  "starts i [] = 0"
| "starts i (Start j p # ev) = (if j = i then 1 else 0) + starts i ev"
| "starts i (Term p # ev) = starts i ev"

lemma starts_append [simp]: "starts i (ev @ ev2) = starts i ev + starts i ev2"
  by (induction ev rule: starts.induct[of "\<lambda>_ ev. _ ev", case_names Nil Start Term]) auto

text \<open>What one turn does to a unit, and how often it starts it.\<close>

definition unit_turn :: "proc_env \<Rightarrow> svc_unit \<Rightarrow> svc_unit \<Rightarrow> nat \<Rightarrow> bool" where
  "unit_turn e u u' k \<longleftrightarrow>
     (\<exists>w. u' = (reap e u)\<lparr>u_waiting := w\<rparr> \<and> k = 0) \<or>
     (\<exists>w. u' = (reap e u)\<lparr>u_waiting := w, u_enabled := False\<rparr> \<and> k = 0) \<or>
     (\<exists>w. u' = (reap e u)\<lparr>u_waiting := w, u_enabled := False, u_pid := None\<rparr> \<and> k = 0 \<and> u_pid (reap e u) = None) \<or>
     (\<exists>w p. u' = (reap e u)\<lparr>u_waiting := w, u_pid := Some p, u_ran := True\<rparr> \<and> due e (reap e u) \<and> k = 1)"

lemma unit_turn_reap: "unit_turn e u (reap e u) 0"
  unfolding unit_turn_def by (intro disjI1 exI[of _ "u_waiting (reap e u)"]) simp

lemma unit_start_cases:
  assumes "unit_start e i u = (u', ev)"
  obtains "u' = u\<lparr>u_enabled := False\<rparr>" "ev = []" | "u' = u\<lparr>u_enabled := False, u_pid := None\<rparr>" "ev = []"
  | p where "u' = u\<lparr>u_pid := Some p, u_ran := True\<rparr>" "ev = [Start i p]"
  using assms by (auto simp: unit_start_def Let_def split: if_splits option.splits)

lemma visit_turn:
  assumes i: "i < length us" and v: "visit e i us = (us', ev)"
  shows "length us' = length us \<and> (\<forall>j. j \<noteq> i \<longrightarrow> us' ! j = us ! j \<and> starts j ev = 0) \<and> unit_turn e (us ! i) (us' ! i) (starts i ev)"
proof -
  let ?u = "reap e (us ! i)" and ?us = "us[i := reap e (us ! i)]"
  show ?thesis
  proof (cases "due e ?u")
    case False
    then show ?thesis using v i unit_turn_reap by (auto simp: visit_def Let_def)
  next
    case d: True
    show ?thesis
    proof (cases "unit_blocked ?us ?u")
      case (Some w)
      then show ?thesis using v i d by (auto simp: visit_def Let_def unit_turn_def)
    next
      case None
      obtain u2 where s: "unit_start e i (?u\<lparr>u_waiting := None\<rparr>) = (u2, ev)" "us' = ?us[i := u2]"
        using v d None by (auto simp: visit_def Let_def split: prod.splits)
      from s(1) show ?thesis
      proof (cases rule: unit_start_cases)
        case 1
        then show ?thesis using s(2) i unfolding unit_turn_def by auto
      next
        case 2
        have "u_pid ?u = None" using d by (simp add: due_def)
        then show ?thesis using 2 s(2) i unfolding unit_turn_def by auto
      next
        case (3 p)
        then show ?thesis using s(2) i d unfolding unit_turn_def by auto
      qed
    qed
  qed
qed

lemma visits_turn:
  assumes "distinct is" "\<forall>i \<in> set is. i < length us" "visits e is us = (us', ev)"
  shows "length us' = length us \<and> (\<forall>j. j \<notin> set is \<longrightarrow> us' ! j = us ! j \<and> starts j ev = 0) \<and>
    (\<forall>j \<in> set is. unit_turn e (us ! j) (us' ! j) (starts j ev))"
  using assms
proof (induction "is" arbitrary: us us' ev)
  case (Cons i "is")
  obtain us1 ev1 where v: "visit e i us = (us1, ev1)" by (cases "visit e i us")
  obtain us2 ev2 where r: "visits e is us1 = (us2, ev2)" by (cases "visits e is us1")
  have e: "us' = us2" "ev = ev1 @ ev2" using Cons.prems(3) v r by auto
  note vt = visit_turn[OF _ v]
  have i: "i < length us" "i \<notin> set is" using Cons.prems by auto
  have l: "length us1 = length us" using vt[OF i(1)] by simp
  note ih = Cons.IH[of us1 us2 ev2, OF _ _ r]
  have "distinct is" "\<forall>i \<in> set is. i < length us1" using Cons.prems l by auto
  note A = ih[OF this]
  note B = vt[OF i(1)]
  have F1: "us2 ! j = us ! j \<and> starts j (ev1 @ ev2) = 0" if "j \<notin> set (i # is)" for j using A B that by simp
  have F2: "unit_turn e (us ! j) (us2 ! j) (starts j (ev1 @ ev2))" if "j \<in> set (i # is)" for j
  proof (cases "j = i")
    case True
    then have "us2 ! j = us1 ! j" "starts j ev2 = 0" using A i(2) by simp_all
    then show ?thesis using B True by simp
  next
    case False
    then have "us1 ! j = us ! j" "starts j ev1 = 0" using B by simp_all
    moreover have "unit_turn e (us1 ! j) (us2 ! j) (starts j ev2)" using A False that by auto
    ultimately show ?thesis by simp
  qed
  have "length us2 = length us" using A l by simp
  then show ?case unfolding e using F1 F2 by blast
qed simp

lemma supervisor_turn_unit:
  assumes "supervisor_turn e s = (s', ev)"
  shows "length (units s') = length (units s) \<and> (\<forall>i < length (units s). unit_turn e (units s ! i) (units s' ! i) (starts i ev))"
proof -
  obtain us where v: "visits e [0..<length (units s)] (units s) = (us, ev)" "s' = s\<lparr>units := us\<rparr>"
    using assms by (cases "visits e [0..<length (units s)] (units s)") (simp add: supervisor_turn_def)
  from visits_turn[OF _ _ v(1)] v(2) show ?thesis by simp
qed

text \<open>A quantity that every turn lowers by the starts it makes bounds the starts of a run.\<close>

lemma starts_bounded:
  assumes "turns es s = (s', ev)" "i < length (units s)" "Inv (units s ! i)"
    and "\<And>e u u' k. e \<in> set es \<Longrightarrow> Inv u \<Longrightarrow> unit_turn e u u' k \<Longrightarrow> Inv u' \<and> k + (\<Phi> u' :: nat) \<le> \<Phi> u"
  shows "starts i ev \<le> \<Phi> (units s ! i)"
  using assms
proof (induction es arbitrary: s ev)
  case (Cons e es)
  obtain s1 ev1 where t: "supervisor_turn e s = (s1, ev1)" by (cases "supervisor_turn e s")
  obtain ev2 where r: "turns es s1 = (s', ev2)" "ev = ev1 @ ev2" using Cons.prems(1) t by (auto split: prod.splits)
  have u: "length (units s1) = length (units s)" "unit_turn e (units s ! i) (units s1 ! i) (starts i ev1)"
    using supervisor_turn_unit[OF t] Cons.prems(2) by auto
  have k: "Inv (units s1 ! i)" "starts i ev1 + \<Phi> (units s1 ! i) \<le> \<Phi> (units s ! i)"
    using Cons.prems(4)[OF _ Cons.prems(3) u(2)] by auto
  have "starts i ev2 \<le> \<Phi> (units s1 ! i)" 
  proof (rule Cons.IH[OF r(1) _ k(1)])
    show "i < length (units s1)" using Cons.prems(2) u(1) by simp
    show "Inv u' \<and> k + \<Phi> u' \<le> \<Phi> u" if "e \<in> set es" "Inv u" "unit_turn e u u' k" for e u u' k
      using Cons.prems(4)[OF _ that(2,3)] that(1) by simp
  qed
  then show ?case using k(2) r(2) by simp
qed simp

text \<open>It is enough to look at the exit and at the start of a unit; the rest of a turn only switches it off.\<close>

lemma unit_turn_bounded:
  assumes t: "unit_turn e u u' k" and r: "Inv (reap e u) \<and> \<Phi> (reap e u) \<le> (\<Phi> u :: nat)"
    and w: "\<And>v w. Inv (v\<lparr>u_waiting := w\<rparr>) = Inv v" "\<And>v w. \<Phi> (v\<lparr>u_waiting := w\<rparr>) = \<Phi> v"
    and off: "\<And>v. Inv v \<Longrightarrow> Inv (v\<lparr>u_enabled := False\<rparr>) \<and> \<Phi> (v\<lparr>u_enabled := False\<rparr>) \<le> \<Phi> v"
    and gone: "\<And>v. Inv v \<Longrightarrow> u_pid v = None \<Longrightarrow> Inv (v\<lparr>u_enabled := False, u_pid := None\<rparr>) \<and> \<Phi> (v\<lparr>u_enabled := False, u_pid := None\<rparr>) \<le> \<Phi> v"
    and start: "\<And>v p. Inv v \<Longrightarrow> due e v \<Longrightarrow> Inv (v\<lparr>u_pid := Some p, u_ran := True\<rparr>) \<and> 1 + \<Phi> (v\<lparr>u_pid := Some p, u_ran := True\<rparr>) \<le> \<Phi> v"
  shows "Inv u' \<and> k + \<Phi> u' \<le> \<Phi> u"
proof -
  from t consider w where "u' = (reap e u)\<lparr>u_waiting := w\<rparr>" "k = 0"
    | w where "u' = (reap e u)\<lparr>u_waiting := w, u_enabled := False\<rparr>" "k = 0"
    | w where "u' = (reap e u)\<lparr>u_waiting := w, u_enabled := False, u_pid := None\<rparr>" "k = 0" "u_pid (reap e u) = None"
    | w p where "u' = (reap e u)\<lparr>u_waiting := w, u_pid := Some p, u_ran := True\<rparr>" "due e (reap e u)" "k = 1"
    unfolding unit_turn_def by blast
  then show ?thesis
  proof cases
    case 1
    then show ?thesis using r w by simp
  next
    case 2
    then show ?thesis using r w off[of "(reap e u)\<lparr>u_waiting := _\<rparr>"] by (metis add_0 order_trans)
  next
    case 3
    have "u_pid ((reap e u)\<lparr>u_waiting := w\<rparr>) = None" using 3(3) by simp
    then show ?thesis using 3 r gone[of "(reap e u)\<lparr>u_waiting := w\<rparr>"] assms(3,4) by (metis add_0 order_trans)
  next
    case 4
    have "due e ((reap e u)\<lparr>u_waiting := w\<rparr>)" using 4(2) by (simp add: due_def)
    then show ?thesis using 4 r start[of "(reap e u)\<lparr>u_waiting := w\<rparr>" p] assms(3,4) by (metis order_trans)
  qed
qed

text \<open>
  C12. A unit that keeps dying is not restarted for ever: however long the supervisor runs and whatever its processes do, a
  unit that is not on a schedule is started at most six times, the first and five restarts, and one
  that is not to be restarted at most once, until someone starts it by hand.
\<close>

theorem svc_restart_bound:
  assumes "turns es s = (s', ev)" "i < length (units s)" "u_every (units s ! i) = 0" "u_restarts (units s ! i) = 0"
  shows "starts i ev \<le> 6 \<and> (\<not> u_always (units s ! i) \<longrightarrow> starts i ev \<le> 1)"
proof -
  define \<Phi> where "\<Phi> u = (if u_enabled u then Suc SVC_MAX_RESTARTS - u_restarts u - (if u_pid u = None then 0 else 1) else 0)" for u :: svc_unit
  define Inv where "Inv u \<longleftrightarrow> u_every u = 0 \<and> (u_enabled u \<longrightarrow> u_restarts u \<le> SVC_MAX_RESTARTS)" for u :: svc_unit
  have low: "Inv u' \<and> k + \<Phi> u' \<le> \<Phi> u" if "Inv u" "unit_turn e u u' k" for e u u' k
  proof -
    have "Inv (reap e u) \<and> \<Phi> (reap e u) \<le> \<Phi> u"
      using that(1) by (auto simp: Inv_def \<Phi>_def reap_def unit_exited_def Let_def split: option.splits)
    then show ?thesis
      by (intro unit_turn_bounded[of e u u' k Inv \<Phi>, OF that(2)]) (auto simp: Inv_def \<Phi>_def due_def)
  qed
  have "starts i ev \<le> \<Phi> (units s ! i)"
    by (rule starts_bounded[OF assms(1,2), of Inv]) (use assms(3,4) in \<open>simp add: Inv_def\<close>, rule low)
  then have six: "starts i ev \<le> 6" using assms(4) by (auto simp: \<Phi>_def split: if_splits)
  define \<Psi> where "\<Psi> u = (if u_enabled u \<and> u_pid u = None then 1 else 0 :: nat)" for u :: svc_unit
  define J where "J u \<longleftrightarrow> u_every u = 0 \<and> \<not> u_always u" for u :: svc_unit
  have lowJ: "J u' \<and> k + \<Psi> u' \<le> \<Psi> u" if "J u" "unit_turn e u u' k" for e u u' k
  proof -
    have "J (reap e u) \<and> \<Psi> (reap e u) \<le> \<Psi> u"
      using that(1) by (auto simp: J_def \<Psi>_def reap_def unit_exited_def Let_def split: option.splits)
    then show ?thesis
      by (intro unit_turn_bounded[of e u u' k J \<Psi>, OF that(2)]) (auto simp: J_def \<Psi>_def due_def)
  qed
  have "starts i ev \<le> \<Psi> (units s ! i)" if "\<not> u_always (units s ! i)"
    by (rule starts_bounded[OF assms(1,2), of J]) (use assms(3) that in \<open>simp add: J_def\<close>, rule lowJ)
  then have "\<not> u_always (units s ! i) \<longrightarrow> starts i ev \<le> 1" by (auto simp: \<Psi>_def split: if_splits)
  with six show ?thesis by simp
qed

text \<open>
  C38. A schedule is kept: within any stretch of time no longer than its interval a scheduled unit is started at most
  four times, one run and three early retries after failures, however often it fails.
\<close>

theorem svc_schedule_bound:
  assumes "turns es s = (s', ev)" "i < length (units s)" "u_every (units s ! i) = n" "0 < n" "u_fails (units s ! i) \<le> SVC_MAX_RETRIES"
    and "\<forall>e \<in> set es. t0 \<le> e_now e \<and> e_now e < t0 + int n * 1000000 \<and> (\<forall>p. t0 \<le> e_clock e p)"
  shows "starts i ev \<le> 4"
proof -
  define T where "T = t0 + int n * 1000000"
  define \<Phi> where "\<Phi> u = (if u_pid u = None then (if T \<le> u_next_due u then 0 else Suc SVC_MAX_RETRIES - u_fails u) else SVC_MAX_RETRIES - u_fails u)"
    for u :: svc_unit
  define Inv where "Inv u \<longleftrightarrow> u_every u = n \<and> u_fails u \<le> SVC_MAX_RETRIES" for u :: svc_unit
  have low: "Inv u' \<and> k + \<Phi> u' \<le> \<Phi> u" if e: "e \<in> set es" and "Inv u" "unit_turn e u u' k" for e u u' k
  proof -
    have now: "e_now e < T" using e assms(6) by (auto simp: T_def)
    have far: "T \<le> e_clock e p + int n * 1000000" for p using e assms(6) by (simp add: T_def)
    have "Inv (reap e u) \<and> \<Phi> (reap e u) \<le> \<Phi> u"
      using that(2) far assms(4) by (auto simp: Inv_def \<Phi>_def reap_def unit_exited_def Let_def split: option.splits)
    then show ?thesis
      by (intro unit_turn_bounded[of e u u' k Inv \<Phi>, OF that(3)]) (use now assms(4) in \<open>auto simp: Inv_def \<Phi>_def due_def split: if_splits\<close>)
  qed
  have "starts i ev \<le> \<Phi> (units s ! i)"
    by (rule starts_bounded[OF assms(1,2), of Inv]) (use assms(3,5) in \<open>simp add: Inv_def\<close>, rule low)
  then show ?thesis by (auto simp: \<Phi>_def split: if_splits)
qed

section \<open>Requirements\<close>

text \<open>A dependency that is up: an always unit that runs, any other that has finished well.\<close>

definition up :: "svc_unit \<Rightarrow> bool" where
  "up d \<longleftrightarrow> (if u_always d then u_pid d \<noteq> None else u_ran d \<and> u_pid d = None \<and> u_last_ok d)"

lemma dep_state_up: "dep_state us n = None \<Longrightarrow> \<exists>d \<in> set us. u_name d = n \<and> up d"
  using find_slot_Some[of "\<lambda>u. u_name u = n" us]
  by (auto simp: dep_state_def unit_find_def up_def Let_def split: option.splits if_splits intro!: bexI[of _ "us ! _"])

lemma not_blocked: "unit_blocked us u = None \<Longrightarrow> n \<in> set (tokens (CHR '','') (strlcpy SVC_REQUIRES_LEN (u_requires u))) \<Longrightarrow> dep_state us n = None"
  by (auto simp: unit_blocked_def find_None_iff find_Some_iff split: option.splits)

lemma reap_static [simp]: "u_requires (reap e u) = u_requires u" "u_name (reap e u) = u_name u" "u_every (reap e u) = u_every u"
  by (auto simp: reap_def unit_exited_def Let_def split: option.splits)

text \<open>
  C13. A unit starts only when everything it requires is up, it is wanted and not running, the system is not
  shutting down, and, on a schedule, its time has come. The table it is judged by is the one of that moment, with the unit
  itself just reaped.
\<close>

theorem svc_requires_up:
  assumes "visit e i us = (us', ev)" "i < length us" "Start j p \<in> set ev" "length (u_requires (us ! i)) < SVC_REQUIRES_LEN"
  shows "j = i \<and> due e (reap e (us ! i)) \<and>
    (\<forall>n \<in> set (tokens (CHR '','') (u_requires (us ! i))). \<exists>d \<in> set (us[i := reap e (us ! i)]). u_name d = n \<and> up d)"
proof -
  let ?u = "reap e (us ! i)" and ?us = "us[i := reap e (us ! i)]"
  have d: "due e ?u" "unit_blocked ?us ?u = None"
    using assms(1,3) by (auto simp: visit_def Let_def split: if_splits option.splits)
  then obtain u2 where "unit_start e i (?u\<lparr>u_waiting := None\<rparr>) = (u2, ev)"
    using assms(1) by (auto simp: visit_def Let_def split: prod.splits)
  then have "j = i" using assms(3) by (cases rule: unit_start_cases) auto
  have "strlcpy SVC_REQUIRES_LEN (u_requires (us ! i)) = u_requires (us ! i)" using assms(4) by (simp add: strlcpy_def)
  then show ?thesis using \<open>j = i\<close> d not_blocked[OF d(2)] dep_state_up[of ?us] by simp
qed

section \<open>Reload\<close>

lemma carry_name [simp]: "u_name (carry_over safe olds u) = u_name u"
  by (simp add: carry_over_def Let_def split: option.splits)

lemma carry_over_kept:
  assumes "distinct (map u_name olds)" "old \<in> set olds" "u_name u = u_name old"
  shows "u_pid (carry_over safe olds u) = u_pid old \<and> u_restarts (carry_over safe olds u) = u_restarts old"
proof -
  obtain k where k: "k < length olds" "olds ! k = old" using assms(2) by (metis in_set_conv_nth)
  have "unit_find olds (u_name u) = Some k"
    using k assms(1,3) by (auto simp: unit_find_def find_slot_Some_iff distinct_conv_nth)
  then show ?thesis using k by (simp add: carry_over_def Let_def)
qed

lemma load_keeps:
  assumes "units_load mem wr cm now s = (ok, s', ev)" "distinct (map u_name (units s))"
  shows "if ok then \<forall>u \<in> set (units s). \<forall>p. u_pid u = Some p \<longrightarrow>
      (\<exists>v \<in> set (units s'). u_name v = u_name u \<and> u_pid v = Some p \<and> u_restarts v = u_restarts u) \<or> Term p \<in> set ev
    else units s' = units s \<and> ev = []"
proof (cases ok)
  case False
  then show ?thesis using assms(1) by (auto simp: units_load_def Let_def split: units_file.splits prod.splits)
next
  case True
  obtain fresh where f: "units s' = map (carry_over (safe_mode s) (units s)) fresh" "ev = map Term (removed_pids (units s) fresh)"
    using assms(1) True by (auto simp: units_load_def Let_def split: units_file.splits prod.splits)
  have "(\<exists>v \<in> set (units s'). u_name v = u_name u \<and> u_pid v = Some p \<and> u_restarts v = u_restarts u) \<or> Term p \<in> set ev"
    if u: "u \<in> set (units s)" "u_pid u = Some p" for u p
  proof (cases "list_ex (\<lambda>v. u_name v = u_name u) fresh")
    case True
    then obtain v where v: "v \<in> set fresh" "u_name v = u_name u" by (auto simp: list_ex_iff)
    then show ?thesis using carry_over_kept[OF assms(2) u(1) v(2)] u(2) f(1) by auto
  next
    case False
    then have "p \<in> set (removed_pids (units s) fresh)"
      using u by (force simp: removed_pids_def List.map_filter_def image_iff)
    then show ?thesis using f(2) by simp
  qed
  then show ?thesis using True by auto
qed


section \<open>What a table holds\<close>

text \<open>The bounds of the fields of \<^verbatim>\<open>svc_unit_t\<close> and of the table.\<close>

definition unit_ok :: "svc_unit \<Rightarrow> bool" where
  "unit_ok u \<longleftrightarrow> u_name u \<noteq> [] \<and> length (u_name u) < ESPIX_SVC_NAME_MAX \<and> u_cmdline u \<noteq> [] \<and> length (u_cmdline u) < ESPIX_PATH_MAX \<and>
     length (u_success u) \<le> SVC_SUCCESS_MAX \<and> list_all (\<lambda>c. 0 \<le> c \<and> c \<le> 255) (u_success u) \<and>
     length (u_requires u) < SVC_REQUIRES_LEN \<and> u_every u < 2 ^ 32 \<and> (u_always u \<longrightarrow> u_every u = 0) \<and> u_fails u \<le> SVC_MAX_RETRIES"

definition svc_ok :: "svc \<Rightarrow> bool" where
  "svc_ok s \<longleftrightarrow> length (units s) \<le> SVC_MAX \<and> list_all unit_ok (units s)"

lemma unit_ok_state [simp]:
  "unit_ok (u\<lparr>u_enabled := b\<rparr>) = unit_ok u" "unit_ok (u\<lparr>u_pid := p\<rparr>) = unit_ok u" "unit_ok (u\<lparr>u_stop := b\<rparr>) = unit_ok u"
  "unit_ok (u\<lparr>u_ran := b\<rparr>) = unit_ok u" "unit_ok (u\<lparr>u_waiting := w\<rparr>) = unit_ok u" "unit_ok (u\<lparr>u_restarts := n\<rparr>) = unit_ok u"
  "unit_ok (u\<lparr>u_last_code := c\<rparr>) = unit_ok u" "unit_ok (u\<lparr>u_last_ok := b\<rparr>) = unit_ok u" "unit_ok (u\<lparr>u_next_due := t\<rparr>) = unit_ok u"
  by (simp_all add: unit_ok_def)

lemma unit_ok_fails: "unit_ok u \<Longrightarrow> n \<le> SVC_MAX_RETRIES \<Longrightarrow> unit_ok (u\<lparr>u_fails := n\<rparr>)"
  by (simp add: unit_ok_def)

lemma success_loop_ok:
  "success_loop acc v = Some cs \<Longrightarrow> length acc \<le> SVC_SUCCESS_MAX \<Longrightarrow> list_all (\<lambda>c. 0 \<le> c \<and> c \<le> 255) acc \<Longrightarrow>
   length cs \<le> SVC_SUCCESS_MAX \<and> list_all (\<lambda>c. 0 \<le> c \<and> c \<le> 255) cs"
proof (induction acc v rule: success_loop.induct)
  case (1 acc v)
  show ?case
  proof (cases "v = []")
    case True
    then show ?thesis using 1(2-) by (simp add: success_loop.simps)
  next
    case False
    then obtain c e where s: "strtol v = Some (c, e)" "\<not> (c < 0 \<or> 255 < c \<or> SVC_SUCCESS_MAX \<le> length acc \<or> (e \<noteq> [] \<and> hd e \<noteq> CHR '',''))"
      "success_loop (acc @ [c]) (if e \<noteq> [] then tl e else e) = Some cs"
      using 1(2) by (subst (asm) success_loop.simps) (auto split: option.splits if_splits)
    from 1(1)[OF False s(1) refl s(2,3)] show ?thesis using s(2) 1(3,4) by simp
  qed
qed

definition opts_ok :: "svc_unit \<Rightarrow> bool" where
  "opts_ok u \<longleftrightarrow> length (u_success u) \<le> SVC_SUCCESS_MAX \<and> list_all (\<lambda>c. 0 \<le> c \<and> c \<le> 255) (u_success u) \<and> length (u_requires u) < SVC_REQUIRES_LEN"

lemma parse_options_ok:
  "parse_options u p = Some (u', q) \<Longrightarrow> opts_ok u \<Longrightarrow> opts_ok u' \<and> u_every u' = u_every u \<and> u_fails u' = u_fails u"
proof (induction u p rule: parse_options.induct)
  case (1 u p)
  obtain w r where n: "next_word p = (w, r)" by (cases "next_word p")
  show ?case
  proof (cases w)
    case None
    then show ?thesis using 1(3-) n by (simp add: parse_options.simps)
  next
    case (Some x)
    note n = n[unfolded Some]
    consider (s) cs where "starts_with x ''success=''" "parse_success (u_success u) (drop 8 x) = Some cs" "parse_options (u\<lparr>u_success := cs\<rparr>) r = Some (u', q)"
      | (r) "\<not> starts_with x ''success=''" "starts_with x ''requires=''" "\<not> (drop 9 x = [] \<or> SVC_REQUIRES_LEN \<le> length (drop 9 x))"
        "parse_options (u\<lparr>u_requires := drop 9 x\<rparr>) r = Some (u', q)"
      | (c) "u' = u"
      using 1(3) n by (subst (asm) parse_options.simps) (auto split: option.splits if_splits)
    then show ?thesis
    proof cases
      case s
      have "opts_ok (u\<lparr>u_success := cs\<rparr>)"
        using s(2) 1(4) success_loop_ok[of "u_success u" "drop 8 x"]
        by (auto simp: parse_success_def opts_ok_def split: option.splits if_splits)
      from 1(1)[OF n[symmetric] refl s(1,2,3) this] show ?thesis by simp
    next
      case r
      have "opts_ok (u\<lparr>u_requires := drop 9 x\<rparr>)" using r(3) 1(4) by (auto simp: opts_ok_def)
      from 1(2)[OF n[symmetric] refl r(1-4) this] show ?thesis by simp
    next
      case c
      then show ?thesis using 1(4) by simp
    qed
  qed
qed

lemma parse_duration_bound: "parse_duration s < 2 ^ 32"
  by (auto simp: parse_duration_def Let_def split: option.splits)

lemma next_word_nonempty: "next_word p = (Some w, q) \<Longrightarrow> w \<noteq> []"
proof (cases "dropWhile is_blank p")
  case (Cons c cs)
  assume "next_word p = (Some w, q)"
  moreover have "\<not> is_blank c" using hd_dropWhile[of is_blank p] Cons by simp
  ultimately show ?thesis using Cons by (auto simp: next_word_def is_sep_def Let_def split: if_splits)
qed (simp add: next_word_def)

lemma units_parse_ok: "units_parse safe now line = Some u \<Longrightarrow> unit_ok u"
proof -
  assume p: "units_parse safe now line = Some u"
  obtain name p1 where 1: "next_word line = (Some name, p1)" using p by (auto simp: units_parse_def split: prod.splits option.splits)
  obtain restart p2 where 2: "next_word p1 = (Some restart, p2)" "length name < ESPIX_SVC_NAME_MAX"
    using p 1 by (auto simp: units_parse_def split: prod.splits option.splits if_splits)
  obtain every p3 where ep: "parse_schedule restart p2 = (every, p3)" by (cases "parse_schedule restart p2")
  have e: "every < 2 ^ 32" "restart \<noteq> ''every'' \<longrightarrow> every = 0"
    using ep parse_duration_bound by (auto simp: parse_schedule_def split: if_splits prod.splits option.splits)
  obtain v q where o: "parse_options (zero_unit\<lparr>u_every := every\<rparr>) p3 = Some (v, q)" 
    "takeWhile (\<lambda>c. c \<noteq> LF) (dropWhile is_blank q) \<noteq> []"
    "u = v\<lparr>u_name := name, u_cmdline := strlcpy ESPIX_PATH_MAX (takeWhile (\<lambda>c. c \<noteq> LF) (dropWhile is_blank q)), u_always := (restart = ''always''),
       u_enabled := (\<not> safe \<or> unit_is_sshd (takeWhile (\<lambda>c. c \<noteq> LF) (dropWhile is_blank q))), u_next_due := now + SVC_FIRST_DUE_US\<rparr>"
    using p 1 2 ep by (simp add: units_parse_def Let_def split: if_splits option.splits prod.splits)
  have "opts_ok v \<and> u_every v = every \<and> u_fails v = 0"
    using parse_options_ok[OF o(1)] by (simp add: opts_ok_def zero_unit_def)
  moreover have "name \<noteq> []" using next_word_nonempty[OF 1] .
  ultimately show ?thesis using o(2) e 2(2) unfolding o(3) by (auto simp: unit_ok_def opts_ok_def strlcpy_def)
qed


lemma load_lines_ok: "length us \<le> SVC_MAX \<Longrightarrow> list_all unit_ok us \<Longrightarrow>
  length (load_lines safe now us f) \<le> SVC_MAX \<and> list_all unit_ok (load_lines safe now us f)"
proof (induction safe now us f rule: load_lines.induct)
  case (1 safe now us f)
  show ?case
  proof (cases "SVC_MAX \<le> length us")
    case True
    then show ?thesis using 1(2,3) by (simp add: load_lines.simps)
  next
    case F: False
    show ?thesis
    proof (cases "fgets SVC_LINE_MAX f")
      case None
      then show ?thesis using 1(2,3) by (simp add: load_lines.simps)
    next
      case (Some t)
      obtain chunk rest eof where t: "t = (chunk, rest, eof)" by (cases t)
      let ?us = "case units_parse safe now (cstr_of chunk) of None \<Rightarrow> us | Some u \<Rightarrow> us @ [u]"
      have "length ?us \<le> SVC_MAX" "list_all unit_ok ?us" using 1(3) F units_parse_ok by (auto split: option.splits)
      from 1(1)[OF F Some t[symmetric] refl this] show ?thesis using F Some t by (simp add: load_lines.simps[of safe now us f])
    qed
  qed
qed

lemma parse_lines_ok: "length us \<le> SVC_MAX \<Longrightarrow> list_all unit_ok us \<Longrightarrow>
  length (parse_lines safe now us ls) \<le> SVC_MAX \<and> list_all unit_ok (parse_lines safe now us ls)"
  by (induction safe now us ls rule: parse_lines.induct) (auto simp: units_parse_ok split: option.splits)

lemma carry_over_ok: "unit_ok u \<Longrightarrow> list_all unit_ok olds \<Longrightarrow> unit_ok (carry_over safe olds u)"
  using find_slot_in_range[of "\<lambda>v. u_name v = u_name u" olds]
  by (auto simp: carry_over_def unit_find_def Let_def list_all_length unit_ok_def split: option.splits)

lemma units_load_ok:
  assumes "units_load mem wr cm now s = (ok, s', ev)" "svc_ok s"
  shows "svc_ok s'"
proof (cases ok)
  case False
  then show ?thesis using assms by (auto simp: units_load_def svc_ok_def Let_def split: units_file.splits prod.splits)
next
  case True
  obtain fresh where f: "units s' = map (carry_over (safe_mode s) (units s)) fresh" "length fresh \<le> SVC_MAX \<and> list_all unit_ok fresh"
    using assms(1) True load_lines_ok[of "[]"] parse_lines_ok[of "[]"]
    by (auto simp: units_load_def Let_def split: units_file.splits prod.splits if_splits)
  then show ?thesis using assms(2) carry_over_ok by (auto simp: svc_ok_def list_all_iff)
qed

lemma reap_ok: "unit_ok u \<Longrightarrow> unit_ok (reap e u)"
  by (auto simp: reap_def unit_exited_def Let_def intro!: unit_ok_fails split: option.splits)

lemma unit_turn_ok: "unit_turn e u u' k \<Longrightarrow> unit_ok u \<Longrightarrow> unit_ok u'"
  using reap_ok[of u e] by (auto simp: unit_turn_def)

section \<open>The life of the table\<close>

inductive svc_reach :: "svc \<Rightarrow> bool" where
  boot: "svc_reach \<lparr>units = [], safe_mode = False, started = False, ufile = f\<rparr>"
| initialised: "svc_reach s \<Longrightarrow> espix_svc_init lock have_dump crashed mem wr copy_mem now spawn s = (r, s', ev) \<Longrightarrow> svc_reach s'"
| turned: "svc_reach s \<Longrightarrow> supervisor_turn e s = (s', ev) \<Longrightarrow> svc_reach s'"
| started: "svc_reach s \<Longrightarrow> espix_svc_start name s = (r, s') \<Longrightarrow> svc_reach s'"
| stopped: "svc_reach s \<Longrightarrow> espix_svc_stop name s = (r, s', ev) \<Longrightarrow> svc_reach s'"
| reloaded: "svc_reach s \<Longrightarrow> espix_svc_reload mem wr copy_mem now s = (r, s', ev) \<Longrightarrow> svc_reach s'"
| edited: "svc_reach s \<Longrightarrow> svc_reach (s\<lparr>ufile := f\<rparr>)"

lemma svc_ok_update: "svc_ok s \<Longrightarrow> (i < length (units s) \<Longrightarrow> unit_ok u) \<Longrightarrow> svc_ok (s\<lparr>units := (units s)[i := u]\<rparr>)"
  by (cases "i < length (units s)") (auto simp: svc_ok_def list_all_length nth_list_update list_update_beyond)

lemma svc_ok_nth: "svc_ok s \<Longrightarrow> i < length (units s) \<Longrightarrow> unit_ok (units s ! i)"
  by (simp add: svc_ok_def list_all_length)

lemma supervisor_turn_ok: "supervisor_turn e s = (s', ev) \<Longrightarrow> svc_ok s \<Longrightarrow> svc_ok s'"
  using supervisor_turn_unit[of e s s' ev] unit_turn_ok by (auto simp: svc_ok_def list_all_length)

lemma svc_start_ok: "espix_svc_start name s = (r, s') \<Longrightarrow> svc_ok s \<Longrightarrow> svc_ok s'"
  by (auto simp: espix_svc_start_def svc_ok_nth intro!: svc_ok_update split: option.splits if_splits)

lemma svc_stop_ok: "espix_svc_stop name s = (r, s', ev) \<Longrightarrow> svc_ok s \<Longrightarrow> svc_ok s'"
  by (auto simp: espix_svc_stop_def Let_def svc_ok_nth intro!: svc_ok_update split: option.splits if_splits)

lemma svc_reload_ok: 
  assumes "espix_svc_reload mem wr cm now s = (r, s', ev)" "svc_ok s"
  shows "svc_ok s'"
proof (cases "started s")
  case True
  obtain ok1 s1 ev1 where l: "units_load mem wr cm now (s\<lparr>safe_mode := False\<rparr>) = (ok1, s1, ev1)" by (metis prod_cases3)
  have "svc_ok s1" using units_load_ok[OF l] assms(2) by (simp add: svc_ok_def)
  then show ?thesis using assms(1) l True by (cases ok1) (auto simp: espix_svc_reload_def svc_ok_def list_all_iff split: if_splits)
qed (use assms in \<open>simp add: espix_svc_reload_def\<close>)

lemma svc_init_ok:
  assumes "espix_svc_init lock dump crashed mem wr cm now spawn s = (r, s', ev)" "svc_ok s"
  shows "svc_ok s'"
proof (cases "started s \<or> \<not> lock")
  case False
  let ?s = "if dump \<or> crashed then s\<lparr>safe_mode := True\<rparr> else s"
  obtain ok s1 ev1 where l: "units_load mem wr cm now ?s = (ok, s1, ev1)" by (metis prod_cases3)
  have "svc_ok ?s" using assms(2) by (simp add: svc_ok_def)
  then have "svc_ok s1" by (rule units_load_ok[OF l])
  then show ?thesis using assms(1) l False by (auto simp: espix_svc_init_def svc_ok_def split: if_splits)
qed (use assms in \<open>auto simp: espix_svc_init_def split: if_splits\<close>)


section \<open>The line of a unit\<close>

text \<open>A unit as an administrator writes it.\<close>

definition join_commas :: "string list \<Rightarrow> string" where
  "join_commas ws = concat (map (\<lambda>w. CHR '','' # w) (tl ws))"

definition unit_line :: "svc_unit \<Rightarrow> string" where
  "unit_line u =
     u_name u @ '' '' @
     (if u_always u then ''always '' else if 0 < u_every u then ''every '' @ dec_nat (u_every u) @ ''s '' else ''once '') @
     (if u_success u = [] then [] else ''success='' @ dec_nat (nat (hd (u_success u))) @ join_commas (map (\<lambda>c. dec_nat (nat c)) (u_success u)) @ '' '') @
     (if u_requires u = [] then [] else ''requires='' @ u_requires u @ '' '') @
     u_cmdline u @ [LF]"

definition plain :: "string \<Rightarrow> bool" where
  "plain w \<longleftrightarrow> w \<noteq> [] \<and> list_all (\<lambda>c. \<not> is_sep c) w"

definition writable :: "svc_unit \<Rightarrow> bool" where
  "writable u \<longleftrightarrow> unit_ok u \<and> plain (u_name u) \<and> hd (u_name u) \<noteq> CHR ''#'' \<and> (u_requires u = [] \<or> plain (u_requires u)) \<and>
     u_every u < 2 ^ 31 \<and> length (u_cmdline u) < ESPIX_PATH_MAX - 1 \<and> hd (u_cmdline u) \<noteq> CHR '' '' \<and>
     list_all (\<lambda>c. c \<noteq> LF \<and> c \<noteq> CHR 0x09) (u_cmdline u) \<and>
     \<not> starts_with (u_cmdline u) ''success='' \<and> \<not> starts_with (u_cmdline u) ''requires=''"

lemma plain_next [simp]: "plain w \<Longrightarrow> is_sep c \<Longrightarrow> next_word (w @ c # r) = (Some w, r)"
proof -
  assume w: "plain w" and c: "is_sep c"
  then have "\<not> is_blank (hd w)" "hd w \<noteq> LF" "w \<noteq> []" by (cases w; simp add: plain_def is_sep_def)+
  moreover from this have "dropWhile is_blank (w @ c # r) = w @ c # r" by (cases w) auto
  moreover have "takeWhile (\<lambda>c. \<not> is_sep c) (w @ c # r) = w" "dropWhile (\<lambda>c. \<not> is_sep c) (w @ c # r) = c # r"
    using w c by (auto simp: plain_def list_all_iff takeWhile_append2 dropWhile_append2)
  ultimately show ?thesis by (simp add: next_word_def Let_def)
qed

lemma dec_digit: "d < 10 \<Longrightarrow> of_char (char_of (48 + d) :: char) = (48 + d :: nat)"
  by (simp add: of_char_of)

lemma dec_nat_digits: "list_all is_digit (dec_nat n) \<and> dec_nat n \<noteq> [] \<and> foldl (\<lambda>a c. 10 * a + (int (of_char c) - 48)) 0 (dec_nat n) = int n"
proof (induction n rule: dec_nat.induct)
  case (1 n)
  show ?case
  proof (cases "n < 10")
    case True
    then show ?thesis by (simp add: dec_nat.simps[of n] is_digit_def dec_digit)
  next
    case False
    have "dec_nat n = dec_nat (n div 10) @ [char_of (48 + n mod 10)]" using False by (simp add: dec_nat.simps[of n])
    moreover have "is_digit (char_of (48 + n mod 10))" by (simp add: is_digit_def dec_digit)
    moreover have "10 * int (n div 10) + int (n mod 10) = int n" by presburger
    ultimately show ?thesis using 1[OF False] by (simp add: dec_digit)
  qed
qed

lemma strtol_dec: "n < 2 ^ 31 \<Longrightarrow> (r = [] \<or> \<not> is_digit (hd r)) \<Longrightarrow> strtol (dec_nat n @ r) = Some (int n, r)"
proof -
  assume n: "n < 2 ^ 31" and r: "r = [] \<or> \<not> is_digit (hd r)"
  note d = dec_nat_digits[of n]
  obtain c cs where c: "dec_nat n = c # cs" using d by (cases "dec_nat n") auto
  then have "is_digit c" using d by simp
  then have k: "\<not> is_cspace c" "c \<noteq> CHR ''-''" "c \<noteq> CHR ''+''" by (auto simp: is_digit_def is_cspace_def)
  then have "dropWhile is_cspace (dec_nat n @ r) = dec_nat n @ r" "hd (dec_nat n @ r) = c" using c by auto
  moreover have "takeWhile is_digit (dec_nat n @ r) = dec_nat n" "dropWhile is_digit (dec_nat n @ r) = r"
    using d r by (cases r; auto simp: list_all_iff takeWhile_append2 dropWhile_append2)+
  ultimately show ?thesis using n k d by (simp add: strtol_def Let_def)
qed

lemma duration_dec: "0 < n \<Longrightarrow> n < 2 ^ 31 \<Longrightarrow> parse_duration (dec_nat n @ ''s'') = n"
  by (simp add: parse_duration_def strtol_dec is_digit_def cchar_def)

lemma not_digit: "\<not> is_digit (CHR '','')" "\<not> is_digit (CHR '' '')" "\<not> is_digit (CHR ''s'')" by (simp_all add: is_digit_def)

lemma success_loop_dec:
  assumes "list_all (\<lambda>c. 0 \<le> c \<and> c \<le> 255) cs" "length acc + length cs \<le> SVC_SUCCESS_MAX" "cs \<noteq> []"
  shows "success_loop acc (dec_nat (nat (hd cs)) @ join_commas (map (\<lambda>c. dec_nat (nat c)) cs)) = Some (acc @ cs)"
  using assms
proof (induction cs arbitrary: acc)
  case (Cons c cs)
  let ?j = "join_commas (map (\<lambda>c. dec_nat (nat c)) (c # cs))"
  have s: "strtol (dec_nat (nat c) @ ?j) = Some (c, ?j)"
    using Cons.prems(1) strtol_dec[of "nat c" ?j] by (cases cs) (auto simp: join_commas_def not_digit)
  have ne: "dec_nat (nat c) @ ?j \<noteq> []" using dec_nat_digits[of "nat c"] by simp
  show ?case
  proof (cases cs)
    case Nil
    then show ?thesis using Cons.prems s ne by (simp add: success_loop.simps[of acc] success_loop.simps[of _ "[]"] join_commas_def)
  next
    case (Cons d ds)
    have "?j = CHR '','' # dec_nat (nat (hd cs)) @ join_commas (map (\<lambda>c. dec_nat (nat c)) cs)" using Cons by (simp add: join_commas_def)
    then show ?thesis using Cons.prems s ne Cons.IH[of "acc @ [c]"] Cons by (simp add: success_loop.simps[of acc])
  qed
qed simp

lemma plain_append: "plain v \<Longrightarrow> list_all (\<lambda>c. \<not> is_sep c) w \<Longrightarrow> plain (v @ w)"
  by (simp add: plain_def)

lemma digits_no_sep: "list_all is_digit w \<Longrightarrow> list_all (\<lambda>c. \<not> is_sep c) w"
  by (auto simp: list_all_iff is_digit_def is_sep_def is_blank_def LF_def)

lemma dec_no_sep [simp]: "list_all (\<lambda>c. \<not> is_sep c) (dec_nat n)"
  using dec_nat_digits[of n] digits_no_sep by blast

lemma comma_no_sep: "\<not> is_sep (CHR '','')" "\<not> is_sep (CHR ''s'')" by (simp_all add: is_sep_def is_blank_def LF_def)

lemma join_no_sep [simp]: "list_all (\<lambda>c. \<not> is_sep c) (join_commas (map (\<lambda>c. dec_nat (nat c)) cs))"
proof -
  have "list_all (\<lambda>c. \<not> is_sep c) (concat (map (\<lambda>w. CHR '','' # w) (map (\<lambda>c. dec_nat (nat c)) ds)))" for ds
    by (induction ds) (simp_all add: comma_no_sep)
  from this[of "tl cs"] show ?thesis by (simp add: join_commas_def map_tl)
qed

lemma plain_lits [simp]: "plain ''always''" "plain ''once''" "plain ''every''" "plain ''success=''" "plain ''requires=''"
  by (simp_all add: plain_def is_sep_def is_blank_def LF_def)

lemma blank_sep [simp]: "is_sep (CHR '' '')" "is_sep LF" "is_blank (CHR '' '')"
  by (simp_all add: is_sep_def is_blank_def)

lemma options_step:
  "next_word p = (Some w, q) \<Longrightarrow> starts_with w ''success='' \<Longrightarrow> parse_success (u_success u) (drop 8 w) = Some cs \<Longrightarrow>
   parse_options u p = parse_options (u\<lparr>u_success := cs\<rparr>) q"
  "next_word p = (Some w, q) \<Longrightarrow> \<not> starts_with w ''success='' \<Longrightarrow> starts_with w ''requires='' \<Longrightarrow> drop 9 w = v \<Longrightarrow> v \<noteq> [] \<Longrightarrow>
   length v < SVC_REQUIRES_LEN \<Longrightarrow> parse_options u p = parse_options (u\<lparr>u_requires := v\<rparr>) q"
  "next_word p = (Some w, q) \<Longrightarrow> \<not> starts_with w ''success='' \<Longrightarrow> \<not> starts_with w ''requires='' \<Longrightarrow> parse_options u p = Some (u, put_back p)"
  by (subst parse_options.simps, auto)+

lemma options_success:
  assumes "list_all (\<lambda>c. 0 \<le> c \<and> c \<le> 255) cs" "length cs \<le> SVC_SUCCESS_MAX" "cs \<noteq> []" "u_success u = []"
  shows "parse_options u (''success='' @ (dec_nat (nat (hd cs)) @ join_commas (map (\<lambda>c. dec_nat (nat c)) cs)) @ CHR '' '' # r) =
    parse_options (u\<lparr>u_success := cs\<rparr>) r"
proof -
  let ?v = "dec_nat (nat (hd cs)) @ join_commas (map (\<lambda>c. dec_nat (nat c)) cs)"
  have "plain (''success='' @ ?v)" by (rule plain_append) simp_all
  then have n: "next_word ((''success='' @ ?v) @ CHR '' '' # r) = (Some (''success='' @ ?v), r)" by (rule plain_next) simp
  have "parse_success (u_success u) ?v = Some cs"
    using success_loop_dec[OF assms(1), of "[]"] assms(2-4) by (simp add: parse_success_def)
  moreover have "starts_with (''success='' @ ?v) ''success=''" "drop 8 (''success='' @ ?v) = ?v" by (simp_all add: starts_with_def)
  ultimately show ?thesis using options_step(1)[OF n, of u cs] by simp
qed

lemma options_requires:
  assumes "plain v" "length v < SVC_REQUIRES_LEN"
  shows "parse_options u (''requires='' @ v @ CHR '' '' # r) = parse_options (u\<lparr>u_requires := v\<rparr>) r"
proof -
  have "plain (''requires='' @ v)" using assms(1) by (intro plain_append plain_lits) (simp add: plain_def)
  then have n: "next_word ((''requires='' @ v) @ CHR '' '' # r) = (Some (''requires='' @ v), r)" by (rule plain_next) simp
  have "starts_with (''requires='' @ v) ''requires=''" "\<not> starts_with (''requires='' @ v) ''success=''" "drop 9 (''requires='' @ v) = v" "v \<noteq> []"
    using assms(1) by (simp_all add: starts_with_def plain_def)
  then show ?thesis using options_step(2)[OF n, of v u] assms(2) by simp
qed

text \<open>The command: its first word is put back with a blank after it.\<close>

lemma put_back_plain:
  assumes "plain w" "is_sep x"
  shows "put_back (w @ x # z) = w @ CHR '' '' # z"
proof -
  have "takeWhile is_blank (w @ x # z) = []" "dropWhile is_blank (w @ x # z) = w @ x # z"
    using assms(1) by (cases w; auto simp: plain_def is_sep_def)+
  moreover have "takeWhile (\<lambda>x. \<not> is_sep x) (w @ x # z) = w" "dropWhile (\<lambda>x. \<not> is_sep x) (w @ x # z) = x # z"
    using assms by (auto simp: plain_def list_all_iff takeWhile_append2 dropWhile_append2)
  ultimately show ?thesis using assms(2) by (simp add: put_back_def)
qed

lemma options_command:
  assumes "c \<noteq> []" "hd c \<noteq> CHR '' ''" "list_all (\<lambda>x. x \<noteq> LF \<and> x \<noteq> CHR 0x09) c"
    and "\<not> starts_with c ''success=''" "\<not> starts_with c ''requires=''"
  shows "parse_options u (c @ [LF]) = Some (u, put_back (c @ [LF])) \<and>
    takeWhile (\<lambda>x. x \<noteq> LF) (dropWhile is_blank (put_back (c @ [LF]))) = (if CHR '' '' \<in> set c then c else c @ '' '')"
proof -
  define w r where "w = takeWhile (\<lambda>x. x \<noteq> CHR '' '') c" and "r = dropWhile (\<lambda>x. x \<noteq> CHR '' '') c"
  have c: "c = w @ r" "CHR '' '' \<notin> set w" using set_takeWhileD[of _ "\<lambda>x. x \<noteq> CHR '' ''" c] by (auto simp: w_def r_def)
  have "w \<noteq> []" using assms(1,2) by (cases c) (auto simp: w_def)
  moreover have "\<not> is_sep x" if "x \<in> set w" for x
  proof -
    have "x \<in> set c" "x \<noteq> CHR '' ''" using that c by auto
    then show ?thesis using assms(3) by (simp add: list_all_iff is_sep_def is_blank_def)
  qed
  ultimately have w: "plain w" by (simp add: plain_def list_all_iff)
  have pre: "\<not> starts_with w ''success=''" "\<not> starts_with w ''requires=''" using assms(4,5) c(1) by (auto simp: starts_with_iff_prefix)
  obtain x z where xz: "c @ [LF] = w @ x # z" "is_sep x" "takeWhile (\<lambda>x. x \<noteq> LF) z = (if r = [] then [] else tl r)"
  proof (cases r)
    case (Cons y ys)
    then have "y = CHR '' ''" using hd_dropWhile[of "\<lambda>x. x \<noteq> CHR '' ''" c] by (simp add: r_def)
    moreover have "LF \<notin> set ys" using assms(3) c Cons by (auto simp: list_all_iff)
    then have "takeWhile (\<lambda>x. x \<noteq> LF) (ys @ [LF]) = ys" by (subst takeWhile_append2) auto
    ultimately show ?thesis using that[of y "ys @ [LF]"] c(1) Cons by simp
  qed (use c(1) that[of LF "[]"] in simp)
  have p: "put_back (c @ [LF]) = w @ CHR '' '' # z" using put_back_plain[OF w xz(2)] xz(1) by simp
  have "dropWhile is_blank (w @ CHR '' '' # z) = w @ CHR '' '' # z" using w by (cases w) (auto simp: plain_def is_sep_def)
  moreover have "takeWhile (\<lambda>x. x \<noteq> LF) (w @ CHR '' '' # z) = w @ takeWhile (\<lambda>x. x \<noteq> LF) (CHR '' '' # z)"
    using w by (intro takeWhile_append2) (auto simp: plain_def list_all_iff is_sep_def)
  moreover have "CHR '' '' \<noteq> LF" by (simp add: LF_def)
  ultimately have t: "takeWhile (\<lambda>x. x \<noteq> LF) (dropWhile is_blank (put_back (c @ [LF]))) = w @ CHR '' '' # (if r = [] then [] else tl r)"
    using p xz(3) by simp
  have "w @ CHR '' '' # (if r = [] then [] else tl r) = (if CHR '' '' \<in> set c then c else c @ '' '')"
  proof (cases r)
    case (Cons y ys)
    then have "y = CHR '' ''" using hd_dropWhile[of "\<lambda>x. x \<noteq> CHR '' ''" c] by (simp add: r_def)
    then show ?thesis using c(1) Cons by simp
  qed (use c in simp)
  then show ?thesis using t options_step(3)[OF plain_next[OF w xz(2)] pre] unfolding xz(1) by simp
qed


section \<open>Lines that do not fit\<close>

lemma comment_no_unit:
  assumes "c = CHR ''#''"
  shows "units_parse safe now (c # cs) = None"
proof (cases "next_word (c # cs)")
  case (Pair w q)
  then show ?thesis using assms
    by (auto simp: units_parse_def next_word_def is_blank_def is_sep_def LF_def split: if_splits prod.splits option.splits)
qed

text \<open>
  C40. A comment of more than 255 bytes is cut by the read, and what is left of it is read as a line of its own: whatever stands
  there is a unit like any other, and runs as root.
\<close>

theorem svc_long_comment:
  assumes "length pre = SVC_LINE_MAX - 1" "hd pre = CHR ''#''" "LF \<notin> set pre" "length us < SVC_MAX"
  shows "load_lines safe now us (pre @ rest) = load_lines safe now us rest"
proof -
  obtain cs where pre: "pre = CHR ''#'' # cs" using assms(1,2) by (cases pre) auto
  have "takeWhile (\<lambda>c. c \<noteq> LF) (pre @ rest) = pre @ takeWhile (\<lambda>c. c \<noteq> LF) rest" using assms(3) by (intro takeWhile_append2) auto
  then have "fgets SVC_LINE_MAX (pre @ rest) = Some (pre, rest, False)" using assms(1) pre by (auto simp: fgets_def Let_def)
  moreover have "\<exists>ds. cstr_of pre = CHR ''#'' # ds" by (simp add: pre cstr_of_def NUL_def)
  ultimately show ?thesis using assms(4) comment_no_unit by (auto simp: load_lines.simps[of safe now us "pre @ rest"])
qed

theorem svc_long_comment_witness:
  "map (\<lambda>u. (u_name u, u_cmdline u, u_enabled u)) (load_lines False 0 [] (replicate 255 (CHR ''#'') @ ''x once /tmp/x -a'')) =
   [(''x'', ''/tmp/x -a'', True)]"
proof -
  have "load_lines False 0 [] (replicate 255 (CHR ''#'') @ ''x once /tmp/x -a'') = load_lines False 0 [] ''x once /tmp/x -a''"
    by (rule svc_long_comment) (simp_all add: LF_def)
  moreover have "map (\<lambda>u. (u_name u, u_cmdline u, u_enabled u)) (load_lines False 0 [] ''x once /tmp/x -a'') = [(''x'', ''/tmp/x -a'', True)]"
    by code_simp
  ultimately show ?thesis by simp
qed

section \<open>Names that are not unique\<close>

definition twin :: "nat \<Rightarrow> svc_unit" where
  "twin p = zero_unit\<lparr>u_name := ''a'', u_cmdline := ''b c'', u_always := True, u_enabled := True, u_pid := Some p\<rparr>"

text \<open>
  With two units of one name a reload of the unchanged file forgets a process: both units come out with the pid of
  the first, and the second process runs on unsupervised, neither in the table nor told to end.
\<close>

theorem svc_twin_forgotten:
  "case espix_svc_reload True Writes True 0
      \<lparr>units = [twin 7, twin 8], safe_mode = False, started = True, ufile = Readable (''# sshd always sshd'' @ [LF] @ ''a always b c'' @ [LF] @ ''a always b c'')\<rparr> of
     (r, s, ev) \<Rightarrow> r = ESP_OK \<and> map u_pid (units s) = [Some 7, Some 7] \<and> ev = []"
  by code_simp

section \<open>Witnesses\<close>

definition idle_env :: proc_env where
  "idle_env = \<lparr>e_now = 0, e_clock = (\<lambda>_. 0), e_wait = (\<lambda>_. Some 1), e_shutdown = False, e_elf = (\<lambda>_ _. Some 5), e_cmd = (\<lambda>_. True), e_mem = True, e_fn = (\<lambda>_ _. Some 5)\<rparr>"

definition flapping :: svc where
  "flapping = \<lparr>units = [zero_unit\<lparr>u_name := ''a'', u_cmdline := ''b c'', u_always := True, u_enabled := True\<rparr>], safe_mode = False, started = True, ufile = Missing\<rparr>"

theorem svc_restart_bound_witness:
  "starts 0 (snd (turns (replicate 9 idle_env) flapping)) = 6 \<and> starts 0 (snd (turns (replicate 9 idle_env) flapping)) \<le> 6"
proof -
  obtain s' ev where t: "turns (replicate 9 idle_env) flapping = (s', ev)" by (cases "turns (replicate 9 idle_env) flapping")
  have "starts 0 (snd (turns (replicate 9 idle_env) flapping)) \<le> 6"
    using svc_restart_bound[OF t, of 0] t by (simp add: flapping_def zero_unit_def)
  moreover have "starts 0 (snd (turns (replicate 9 idle_env) flapping)) = 6" by code_simp
  ultimately show ?thesis by simp
qed

definition hourly :: svc where
  "hourly = \<lparr>units = [zero_unit\<lparr>u_name := ''a'', u_cmdline := ''b c'', u_every := 3600, u_enabled := True\<rparr>], safe_mode = False, started = True, ufile = Missing\<rparr>"

abbreviation every_100s :: "proc_env list" where
  "every_100s \<equiv> map (\<lambda>t. idle_env\<lparr>e_now := t, e_clock := (\<lambda>_. t)\<rparr>)
     [0, 100000000, 200000000, 300000000, 400000000, 500000000, 600000000, 700000000, 800000000]"

theorem svc_schedule_bound_witness:
  "starts 0 (snd (turns every_100s hourly)) = 4 \<and> starts 0 (snd (turns every_100s hourly)) \<le> 4"
proof -
  obtain s' ev where t: "turns every_100s hourly = (s', ev)" by (cases "turns every_100s hourly")
  have "starts 0 ev \<le> 4" by (rule svc_schedule_bound[OF t, of 0 3600 0]) (simp_all add: hourly_def zero_unit_def)
  moreover have "starts 0 (snd (turns every_100s hourly)) = 4" by code_simp
  ultimately show ?thesis using t by simp
qed

definition waiter :: "svc_unit list" where
  "waiter = [zero_unit\<lparr>u_name := ''net'', u_cmdline := ''vpn up'', u_ran := True, u_last_ok := True\<rparr>,
     zero_unit\<lparr>u_name := ''x'', u_cmdline := ''b c'', u_enabled := True, u_requires := ''net''\<rparr>]"

theorem svc_requires_up_witness:
  "Start 1 5 \<in> set (snd (visit idle_env 1 waiter)) \<and>
   (\<exists>d \<in> set (waiter[1 := reap idle_env (waiter ! 1)]). u_name d = ''net'' \<and> up d)"
proof -
  have t: "tokens (CHR '','') ''net'' = [''net'']" by code_simp
  have s: "Start 1 5 \<in> set (snd (visit idle_env 1 waiter))" by code_simp
  obtain us ev where v: "visit idle_env 1 waiter = (us, ev)" by (cases "visit idle_env 1 waiter")
  have r: "u_requires (waiter ! 1) = ''net''" "1 < length waiter" by (simp_all add: waiter_def zero_unit_def)
  show ?thesis using svc_requires_up[OF v r(2), of 1 5] s v r(1) t by simp
qed

definition reloadable :: svc where
  "reloadable = \<lparr>units = [(twin 7), (twin 8)\<lparr>u_name := ''c''\<rparr>], safe_mode = False, started = True,
     ufile = Readable (''# sshd always sshd'' @ [LF] @ ''a always b c'')\<rparr>"


abbreviation small_file :: units_file where
  "small_file \<equiv> Readable (''sshd always sshd'' @ [LF] @ ''x once y z'')"

abbreviation small_boot :: "esp_err \<times> svc \<times> svc_event list" where
  "small_boot \<equiv> espix_svc_init True False False True Writes True 0 ESP_OK \<lparr>units = [], safe_mode = False, started = False, ufile = small_file\<rparr>"


definition update_unit :: svc_unit where
  "update_unit = zero_unit\<lparr>u_name := ''autoupdate'', u_cmdline := ''upgrade --check'', u_success := [100, 3], u_requires := ''net'', u_every := 21600\<rparr>"


end
