(* ===== verification/Spec2Isabelle.thy ===== *)
theory Spec2Isabelle
  imports Fs_Vfs Fs_Conf Fs_Part Tty_Table Shell_Env Shell_History Shell_Exec Svc_Run
begin

text \<open>
  A verification development for espix, a small Unix-like system for ESP32-class chips
  (\<^verbatim>\<open>src/components\<close>). It follows the path of a command from the terminal to the file system,
  and covers the supervisor of the services.

  \<^bold>\<open>The parts and how they interact.\<close> A byte that arrives from a transport enters a terminal
  (\<^verbatim>\<open>espix_tty/tty.c\<close>): a ring buffer with a line discipline in front of it, read by tasks that sleep until a
  line is complete. The shell (\<^verbatim>\<open>espix_shell\<close>) reads lines from it, keeps them in a per-user history, splits them
  into words and expands variables. What the commands do goes to the root VFS (\<^verbatim>\<open>espix_fs/vfs.c\<close>): a path
  is resolved to a canonical one, confined to the caller's root, checked against modes and owners, and routed by the
  longest mount prefix to a driver, whose descriptors and directory handles are mapped through tables. Synthetic trees
  (\<^verbatim>\<open>/proc\<close>, \<^verbatim>\<open>/dev\<close>) are drivers of that VFS; partition views are the block devices below it.

  \<^bold>\<open>Theories.\<close>

  \<^item> \<^verbatim>\<open>Espix_Base\<close>: machine types, error codes, C string routines, first-match slot search, and two interfaces as
    locales: \<^verbatim>\<open>handle_table\<close> (slots handed out and given back; interpreted for the descriptor table of the VFS
    and for the open files of a synthetic tree) and \<^verbatim>\<open>byte_fifo\<close> (a bounded byte queue; interpreted for the
    ring of a terminal).
  \<^item> \<^verbatim>\<open>Fs_Path\<close> (\<^verbatim>\<open>fs.c\<close>: \<^verbatim>\<open>normalise\<close>, \<^verbatim>\<open>espix_fs_resolve\<close>, \<^verbatim>\<open>espix_fs_within\<close>): the
    in-place rewriting of a path, proved equal to a fold over its components.
  \<^item> \<^verbatim>\<open>Fs_Conf\<close> (\<^verbatim>\<open>fs.c\<close>: \<^verbatim>\<open>espix_fs_conf_get\<close>): the reader of configuration files over \<^verbatim>\<open>fgets\<close>.
  \<^item> \<^verbatim>\<open>Fs_Part\<close> (\<^verbatim>\<open>part.c\<close>): windows on a block device, with 64-bit addresses at their width.
  \<^item> \<^verbatim>\<open>Fs_Mount\<close> (\<^verbatim>\<open>vfs.c\<close>): mount, descriptor and directory tables; routing, mounting and unmounting.
  \<^item> \<^verbatim>\<open>Fs_Synth\<close> (\<^verbatim>\<open>synth.c\<close>): files whose text is generated, and their listings.
  \<^item> \<^verbatim>\<open>Fs_Mode\<close> (\<^verbatim>\<open>mode.c\<close>) and \<^verbatim>\<open>Fs_Access\<close> (\<^verbatim>\<open>access.c\<close>, \<^verbatim>\<open>mode.c\<close>): stored and implied modes and
    owners, the permission decision (proved to be the Unix rule), \<^verbatim>\<open>chmod\<close> and \<^verbatim>\<open>chown\<close>.
  \<^item> \<^verbatim>\<open>Fs_Vfs\<close> (\<^verbatim>\<open>vfs.c\<close>): the operations, composed of the above as the code composes them; drivers are records
    of functions over a world of their own.
  \<^item> \<^verbatim>\<open>Tty\<close> (\<^verbatim>\<open>tty.c\<close>): ring, canonical and raw input, echo, signals, output, settings. The ring positions are
    32-bit words that wrap; the ring is proved to be a byte queue and canonical reads to take lines.
  \<^item> \<^verbatim>\<open>Tty_Wait\<close>: \<^verbatim>\<open>espix_tty_read\<close> cut at its lock sections into a step relation with any number of readers,
    input, hang-ups, signals and setting changes in any order; the invariant and the absence of lost wake-ups
    are proved by rule induction.
  \<^item> \<^verbatim>\<open>Tty_Table\<close>: the table of terminals with reference counts, the VFS entry points and select.
  \<^item> \<^verbatim>\<open>Shell_Env\<close> (\<^verbatim>\<open>env.c\<close>): the variable table as a finite map, one-shot assignments as scopes.
  \<^item> \<^verbatim>\<open>Shell_History\<close> (\<^verbatim>\<open>history.c\<close>): the last sixteen lines per user.
  \<^item> \<^verbatim>\<open>Shell_Words\<close> (\<^verbatim>\<open>session.c\<close>: \<^verbatim>\<open>espix_split_argv\<close>): word splitting in the buffer it reads.
  \<^item> \<^verbatim>\<open>Shell_Expand\<close> (\<^verbatim>\<open>session.c\<close>: \<^verbatim>\<open>expand_token\<close>): variables, status and pid.
  \<^item> \<^verbatim>\<open>Shell_Line\<close> (\<^verbatim>\<open>session.c\<close>): redirections, assignments, jobs, dispatch, pipelines and sequences;
    builtins, the program loader and the process table are arguments. \<^verbatim>\<open>Shell_Exec\<close> proves what they do.

  \<^item> \<^verbatim>\<open>Svc\<close> (\<^verbatim>\<open>espix_svc/svc.c\<close>): the units file, the table of units, the turns of the supervisor and the
    \<^verbatim>\<open>service\<close> operations; processes are an argument. \<^verbatim>\<open>Svc_Run\<close> proves how often units are started, what has
    to be up before, what a reload keeps, that every reachable table is well typed, and that lines are read back.

  \<^bold>\<open>Bounds and fuel.\<close> No definition uses fuel: loops over buffers recurse with the distance to the end of
  the buffer as measure, table scans are bounded by the table. Buffer and table sizes are those of the sources.

  \<^bold>\<open>Not modelled.\<close> Drivers of chips and panels, sockets, cryptography and third-party libraries, which the
  sources only call; the formatting of messages; the graphical desktop; and the components the list of components names as not
  modelled, with the reason for each.
\<close>

end
